(* ===== verification/Kllm_Prelude.thy ===== *)
theory Kllm_Prelude
  imports Main "HOL-Library.Word" "HOL-Library.Monad_Syntax"
begin

unbundle bit_operations_syntax

text \<open>
  Shared vocabulary of the development: the C integer types as words, checked array
  accesses (an access outside the array is the value \<open>None\<close>, so that ``the code never
  faults'' is something to prove), the power-of-two arithmetic behind every
  \<open>x & mask\<close> of the sources, and the window of a circular buffer.
\<close>

type_synonym u8 = "8 word"
type_synonym u16 = "16 word"
type_synonym u32 = "32 word"
type_synonym u64 = "64 word"

named_theorems word_nat_simps \<open>reading word expressions as natural numbers\<close>
named_theorems fault_simps \<open>unfolding checked memory accesses\<close>

section \<open>Checked array accesses\<close>

definition arr_get :: "'a list \<Rightarrow> nat \<Rightarrow> 'a option" where
  "arr_get xs i = (if i < length xs then Some (xs ! i) else None)"

definition arr_set :: "'a list \<Rightarrow> nat \<Rightarrow> 'a \<Rightarrow> 'a list option" where
  "arr_set xs i v = (if i < length xs then Some (xs[i := v]) else None)"

lemma arr_get_in [fault_simps]: "i < length xs \<Longrightarrow> arr_get xs i = Some (xs ! i)"
  by (simp add: arr_get_def)

lemma arr_set_in [fault_simps]: "i < length xs \<Longrightarrow> arr_set xs i v = Some (xs[i := v])"
  by (simp add: arr_set_def)

lemma arr_get_SomeD: "arr_get xs i = Some x \<Longrightarrow> i < length xs \<and> x = xs ! i"
  by (simp add: arr_get_def split: if_splits)

lemma arr_set_SomeD: "arr_set xs i v = Some ys \<Longrightarrow> i < length xs \<and> ys = xs[i := v]"
  by (simp add: arr_set_def split: if_splits)

section \<open>Powers of two and masks\<close>

text \<open>The C idiom \<open>n != 0 && (n & (n - 1)) == 0\<close>.\<close>

definition pow2 :: "'a::len word \<Rightarrow> bool" where
  "pow2 n \<longleftrightarrow> n \<noteq> 0 \<and> n AND (n - 1) = 0"

lemma and_double_pred: "0 < m \<Longrightarrow> (2 * m) AND (2 * m - Suc 0) = 2 * (m AND (m - Suc 0))"
proof -
  assume "0 < m"
  then have "2 * m - Suc 0 = Suc (2 * (m - Suc 0))" by simp
  then show ?thesis by (subst and_nat_rec) simp
qed

lemma and_odd_pred: "Suc (2 * m) AND (2 * m) = (2 * m :: nat)"
  by (subst and_nat_rec) simp

lemma nat_and_pred_zero: "0 < n \<Longrightarrow> n AND (n - 1) = (0::nat) \<Longrightarrow> \<exists>k. n = 2 ^ k"
proof (induction n rule: less_induct)
  case (less n)
  show ?case
  proof (cases "even n")
    case True
    then obtain m where m: "n = 2 * m" by blast
    with less.prems have "0 < m" "m AND (m - 1) = 0"
      by (simp_all add: and_double_pred)
    with less.IH[of m] m obtain k where "m = 2 ^ k" by auto
    with m have "n = 2 ^ Suc k" by simp
    then show ?thesis by blast
  next
    case False
    then obtain m where m: "n = Suc (2 * m)" by (metis oddE Suc_eq_plus1)
    with less.prems have "n = 2 ^ 0" using and_odd_pred[of m] by simp
    then show ?thesis by blast
  qed
qed

lemma pow2_unat:
  assumes "pow2 (n :: 'a::len word)"
  obtains k where "k < LENGTH('a)" and "unat n = 2 ^ k" and "n = 2 ^ k"
proof -
  from assms have n0: "n \<noteq> 0" and "unat (n AND (n - 1)) = 0"
    by (simp_all add: pow2_def)
  then have "unat n AND (unat n - 1) = 0"
    by (simp add: unsigned_and_eq unat_minus_one)
  moreover have "0 < unat n" using n0 by (simp add: unat_gt_0)
  ultimately obtain k where k: "unat n = 2 ^ k"
    using nat_and_pred_zero by blast
  have "unat n < 2 ^ LENGTH('a)" by (rule unsigned_less)
  then have "(2::nat) ^ k < 2 ^ LENGTH('a)" unfolding k .
  then have "k < LENGTH('a)" by simp
  moreover have "n = of_nat (unat n)" by simp
  then have "n = 2 ^ k" using k by simp
  ultimately show thesis using k that by blast
qed

lemma unat_and_mask:
  assumes "pow2 (n :: 'a::len word)"
  shows "unat (x AND (n - 1)) = unat x mod unat n"
proof -
  from assms obtain k where "n = 2 ^ k" by (rule pow2_unat)
  then have "x AND (n - 1) = x mod n"
    by (metis take_bit_eq_mask mask_eq_exp_minus_1 take_bit_eq_mod)
  then show ?thesis by (simp add: unat_mod)
qed

lemma of_nat_unat_id: "of_nat (unat w) = w"
  by simp

lemma pow2_pos: "pow2 n \<Longrightarrow> 0 < unat n"
  by (simp add: pow2_def unat_gt_0)

lemma pow2_dvd:
  assumes "pow2 (n :: 'a::len word)"
  shows "unat n dvd 2 ^ LENGTH('a)"
proof -
  from assms obtain k where "k < LENGTH('a)" "unat n = 2 ^ k" by (rule pow2_unat)
  then show ?thesis by (simp add: le_imp_power_dvd)
qed

lemma unat_add_and_mask [word_nat_simps]:
  assumes "pow2 (n :: 'a::len word)"
  shows "unat ((a + b) AND (n - 1)) = (unat a + unat b) mod unat n"
  using pow2_dvd[OF assms]
  by (simp add: unat_and_mask[OF assms] unat_word_ariths mod_mod_cancel)

lemma unat_sub_and_mask [word_nat_simps]:
  assumes "pow2 (n :: 'a::len word)" and "unat b < unat n"
  shows "unat ((a - b) AND (n - 1)) = (unat a + (unat n - unat b)) mod unat n"
proof -
  obtain q where q: "2 ^ LENGTH('a) = unat n * q"
    using pow2_dvd[OF assms(1)] by (auto elim: dvdE)
  have "0 < q" using q by (cases q) auto
  then obtain q' where q': "q = Suc q'" by (cases q) auto
  have "unat (a - b) mod unat n = (unat a + (2 ^ LENGTH('a) - unat b)) mod unat n"
  proof (cases "unat b \<le> unat a")
    case True
    have "unat b \<le> 2 ^ LENGTH('a)" using unsigned_less[of b] by (rule less_imp_le)
    with True q have "unat a + (2 ^ LENGTH('a) - unat b) = unat a - unat b + unat n * q"
      by simp
    then have "(unat a + (2 ^ LENGTH('a) - unat b)) mod unat n = (unat a - unat b) mod unat n"
      by (simp only: mod_mult_self2)
    with True show ?thesis by (simp add: unat_sub_if')
  next
    case False
    have "unat b \<le> 2 ^ LENGTH('a)" using unsigned_less[of b] by (rule less_imp_le)
    with False show ?thesis by (simp add: unat_sub_if')
  qed
  also have "unat a + (2 ^ LENGTH('a) - unat b) = unat a + (unat n - unat b) + unat n * q'"
    using q q' assms(2) by simp
  finally show ?thesis by (simp add: unat_and_mask[OF assms(1)])
qed

lemma sint_small:
  assumes "unat (w :: u32) < 2 ^ 31"
  shows "sint w = int (unat w)"
proof -
  have "int (unat w) < int (2 ^ 31)" using assms by (simp only: of_nat_less_iff)
  then have "signed_take_bit 31 (int (unat w)) = int (unat w)"
    by (intro signed_take_bit_int_eq_self) (simp_all del: of_nat_unat)
  then show ?thesis by (simp add: sint_uint)
qed

section \<open>The window of a circular buffer\<close>

text \<open>
  \<open>window m xs s n\<close> are the \<open>n\<close> cells of \<open>xs\<close> read from index \<open>s\<close> on, wrapping at \<open>m\<close>:
  the abstract contents of every ring of the program.
\<close>

definition window :: "nat \<Rightarrow> 'a list \<Rightarrow> nat \<Rightarrow> nat \<Rightarrow> 'a list" where
  "window m xs s n = map (\<lambda>i. xs ! ((s + i) mod m)) [0..<n]"

lemma length_window [simp]: "length (window m xs s n) = n"
  by (simp add: window_def)

lemma window_0 [simp]: "window m xs s 0 = []"
  by (simp add: window_def)

lemma nth_window [simp]: "i < n \<Longrightarrow> window m xs s n ! i = xs ! ((s + i) mod m)"
  by (simp add: window_def)

lemma window_snoc: "window m xs s (Suc n) = window m xs s n @ [xs ! ((s + n) mod m)]"
  by (simp add: window_def)

lemma window_append: "window m xs s (n + k) = window m xs s n @ window m xs (s + n) k"
  by (rule nth_equalityI) (auto simp: nth_append add.assoc)

lemma window_mod [simp]: "window m xs (s mod m) n = window m xs s n"
  by (simp add: window_def mod_simps)

lemma take_window: "k \<le> n \<Longrightarrow> take k (window m xs s n) = window m xs s k"
  by (rule nth_equalityI) auto

lemma drop_window: "k \<le> n \<Longrightarrow> drop k (window m xs s n) = window m xs (s + k) (n - k)"
  by (rule nth_equalityI) (auto simp: add.assoc)

lemma window_straight: "s + n \<le> m \<Longrightarrow> m \<le> length xs \<Longrightarrow> window m xs s n = take n (drop s xs)"
  by (rule nth_equalityI) auto

text \<open>The cell just behind a window that does not fill the buffer is not part of it.\<close>

lemma window_slot_fresh:
  assumes "n < m" and "i < n"
  shows "(s + i) mod m \<noteq> (s + n) mod (m::nat)"
proof
  assume "(s + i) mod m = (s + n) mod m"
  then have "m dvd (s + n) - (s + i)"
    using assms mod_eq_dvd_iff_nat[of "s + i" "s + n" m] by (simp add: eq_commute)
  then have "m dvd n - i" by simp
  with assms show False by (auto dest!: dvd_imp_le)
qed

lemma window_write_behind:
  assumes "n < m" and "m \<le> length xs"
  shows "window m (xs[(s + n) mod m := v]) s n = window m xs s n"
proof (rule nth_equalityI)
  fix i
  assume "i < length (window m (xs[(s + n) mod m := v]) s n)"
  then have i: "i < n" by simp
  then have "(s + n) mod m \<noteq> (s + i) mod m" using window_slot_fresh[OF assms(1), of i s] by simp
  with i show "window m (xs[(s + n) mod m := v]) s n ! i = window m xs s n ! i" by simp
qed simp

lemma window_write_snoc:
  assumes "n < m" and "m \<le> length xs"
  shows "window m (xs[(s + n) mod m := v]) s (Suc n) = window m xs s n @ [v]"
proof -
  have "(s + n) mod m < m" using assms by simp
  then have "(s + n) mod m < length xs" using assms(2) by (rule less_le_trans)
  then show ?thesis by (simp add: window_snoc window_write_behind[OF assms])
qed

text \<open>Distance from \<open>t\<close> round to \<open>h\<close> on a circle of \<open>m\<close> cells.\<close>

definition circ_dist :: "nat \<Rightarrow> nat \<Rightarrow> nat \<Rightarrow> nat" where
  "circ_dist m h t = (h + (m - t)) mod m"

lemma circ_dist_less [simp]: "0 < m \<Longrightarrow> circ_dist m h t < m"
  by (simp add: circ_dist_def)

lemma circ_dist_same [simp]: "t < m \<Longrightarrow> circ_dist m t t = 0"
  by (simp add: circ_dist_def)

lemma circ_dist_reach:
  assumes "h < m" and "t < m"
  shows "(t + circ_dist m h t) mod m = h"
proof -
  have "(t + circ_dist m h t) mod m = (t + (h + (m - t))) mod m"
    by (simp add: circ_dist_def mod_add_right_eq)
  also have "t + (h + (m - t)) = h + m" using assms by simp
  finally show ?thesis using assms by simp
qed

lemma circ_dist_unique:
  assumes "d < m" and "t < m"
  shows "circ_dist m ((t + d) mod m) t = d"
proof -
  have "circ_dist m ((t + d) mod m) t = (t + d + (m - t)) mod m"
    by (simp only: circ_dist_def mod_add_left_eq)
  also have "t + d + (m - t) = d + m" using assms by simp
  finally show ?thesis using assms by simp
qed

lemma circ_dist_advance:
  assumes "h < m" and "t < m" and "k \<le> circ_dist m h t"
  shows "circ_dist m h ((t + k) mod m) = circ_dist m h t - k"
proof -
  let ?d = "circ_dist m h t"
  have "?d < m" using assms by simp
  have "h = (t + ?d) mod m" using assms by (simp add: circ_dist_reach)
  also have "\<dots> = ((t + k) mod m + (?d - k)) mod m"
    by (simp only: mod_add_left_eq) (use assms(3) in simp)
  finally have h: "h = ((t + k) mod m + (?d - k)) mod m" .
  have "?d - k < m" using \<open>?d < m\<close> by (rule less_imp_diff_less)
  moreover have "(t + k) mod m < m" using assms by simp
  ultimately have "circ_dist m (((t + k) mod m + (?d - k)) mod m) ((t + k) mod m) = ?d - k"
    by (rule circ_dist_unique)
  with h show ?thesis by simp
qed

lemma circ_dist_grow:
  assumes "h < m" and "t < m" and "Suc (circ_dist m h t) < m"
  shows "circ_dist m ((h + 1) mod m) t = Suc (circ_dist m h t)"
proof -
  have "(h + 1) mod m = ((t + circ_dist m h t) mod m + 1) mod m"
    using assms(1,2) by (simp add: circ_dist_reach)
  also have "\<dots> = (t + Suc (circ_dist m h t)) mod m" by (simp add: mod_simps)
  finally have "circ_dist m ((h + 1) mod m) t = circ_dist m ((t + Suc (circ_dist m h t)) mod m) t"
    by (simp only:)
  also have "\<dots> = Suc (circ_dist m h t)" using assms(3,2) by (rule circ_dist_unique)
  finally show ?thesis .
qed

lemma circ_dist_flip:
  assumes "h < m" and "t < m" and "h \<noteq> t"
  shows "circ_dist m t h = m - circ_dist m h t"
proof -
  have "circ_dist m h t = (if t \<le> h then h - t else h + m - t)"
    and "circ_dist m t h = (if h \<le> t then t - h else t + m - h)"
    using assms by (auto simp: circ_dist_def mod_if)
  with assms show ?thesis by auto
qed

text \<open>The producer's full test \<open>next == tail\<close>: one cell always stays unused.\<close>

lemma circ_full_iff:
  assumes "h < m" and "t < m"
  shows "(h + 1) mod m = t \<longleftrightarrow> Suc (circ_dist m h t) = m"
proof
  assume "(h + 1) mod m = t"
  show "Suc (circ_dist m h t) = m"
  proof (rule ccontr)
    assume "Suc (circ_dist m h t) \<noteq> m"
    moreover have "circ_dist m h t < m" using assms by simp
    ultimately have "Suc (circ_dist m h t) < m" by simp
    with assms have "circ_dist m ((h + 1) mod m) t = Suc (circ_dist m h t)"
      by (rule circ_dist_grow)
    with \<open>(h + 1) mod m = t\<close> assms show False by simp
  qed
next
  assume s: "Suc (circ_dist m h t) = m"
  have "(h + 1) mod m = ((t + circ_dist m h t) mod m + 1) mod m"
    using assms by (simp add: circ_dist_reach)
  also have "\<dots> = (t + Suc (circ_dist m h t)) mod m" by (simp add: mod_simps)
  finally show "(h + 1) mod m = t" using s assms by simp
qed

end
