(* ===== verification/Fifo_Spec.thy ===== *)
theory Fifo_Spec
  imports Kllm_Prelude "HOL-Library.Sublist"
begin

text \<open>
  The contract of the two rings of the program (token ring and response ring): a bounded
  first-in first-out queue. A full queue refuses the element and stays as it is. The
  abstract queue is a list; \<open>bounded_fifo\<close> states what an implementation owes, and its
  lemmas carry single steps to whole histories of puts and gets.
\<close>

datatype 'a fifo_op = Put 'a | Get nat

section \<open>The abstract bounded queue\<close>

definition aq_put :: "nat \<Rightarrow> 'a \<Rightarrow> 'a list \<Rightarrow> 'a list" where
  "aq_put cap x q = (if length q < cap then q @ [x] else q)"

fun aq_run :: "nat \<Rightarrow> 'a fifo_op list \<Rightarrow> 'a list \<Rightarrow> 'a list \<times> 'a list" where
  "aq_run cap [] q = ([], q)"
| "aq_run cap (Put x # ops) q = aq_run cap ops (aq_put cap x q)"
| "aq_run cap (Get n # ops) q =
     (let (out, q') = aq_run cap ops (drop n q) in (take n q @ out, q'))"

text \<open>The elements that found room, in order.\<close>

fun aq_accepted :: "nat \<Rightarrow> 'a fifo_op list \<Rightarrow> 'a list \<Rightarrow> 'a list" where
  "aq_accepted cap [] q = []"
| "aq_accepted cap (Put x # ops) q =
     (if length q < cap then [x] else []) @ aq_accepted cap ops (aq_put cap x q)"
| "aq_accepted cap (Get n # ops) q = aq_accepted cap ops (drop n q)"

fun fifo_puts :: "'a fifo_op list \<Rightarrow> 'a list" where
  "fifo_puts [] = []"
| "fifo_puts (Put x # ops) = x # fifo_puts ops"
| "fifo_puts (Get n # ops) = fifo_puts ops"

lemma aq_history:
  "aq_run cap ops q = (out, q') \<Longrightarrow> out @ q' = q @ aq_accepted cap ops q"
proof (induction cap ops q arbitrary: out q' rule: aq_run.induct)
  case (3 cap n ops q)
  then show ?case by (auto split: prod.splits)
qed (auto simp: aq_put_def split: if_splits)

lemma aq_bounded:
  "aq_run cap ops q = (out, q') \<Longrightarrow> length q \<le> cap \<Longrightarrow> length q' \<le> cap"
  by (induction cap ops q arbitrary: out q' rule: aq_run.induct)
    (auto simp: aq_put_def split: prod.splits if_splits)

lemma aq_accepted_subseq: "subseq (aq_accepted cap ops q) (fifo_puts ops)"
  by (induction cap ops q rule: aq_accepted.induct) auto

lemma aq_accepted_all:
  "length q + length (fifo_puts ops) \<le> cap \<Longrightarrow> aq_accepted cap ops q = fifo_puts ops"
  by (induction cap ops q rule: aq_accepted.induct) (auto simp: aq_put_def)

section \<open>Running an implementation\<close>

fun fifo_run :: "('a \<Rightarrow> 's \<Rightarrow> 's option) \<Rightarrow> (nat \<Rightarrow> 's \<Rightarrow> ('a list \<times> 's) option) \<Rightarrow>
    'a fifo_op list \<Rightarrow> 's \<Rightarrow> ('a list \<times> 's) option" where
  "fifo_run put get [] s = Some ([], s)"
| "fifo_run put get (Put x # ops) s = do { s1 \<leftarrow> put x s; fifo_run put get ops s1 }"
| "fifo_run put get (Get n # ops) s = do {
     (xs, s1) \<leftarrow> get n s;
     (ys, s2) \<leftarrow> fifo_run put get ops s1;
     Some (xs @ ys, s2) }"

fun put_all :: "('a \<Rightarrow> 's \<Rightarrow> 's option) \<Rightarrow> 'a list \<Rightarrow> 's \<Rightarrow> 's option" where
  "put_all put [] s = Some s"
| "put_all put (x # xs) s = do { s1 \<leftarrow> put x s; put_all put xs s1 }"

locale bounded_fifo =
  fixes invar :: "'s \<Rightarrow> bool"
    and contents :: "'s \<Rightarrow> 'a list"
    and room :: "'s \<Rightarrow> nat"
    and put :: "'a \<Rightarrow> 's \<Rightarrow> 's option"
    and get :: "nat \<Rightarrow> 's \<Rightarrow> ('a list \<times> 's) option"
  assumes put_ok: "invar s \<Longrightarrow> \<exists>s'. put x s = Some s' \<and> invar s' \<and> room s' = room s - 1 \<and>
      contents s' = contents s @ (if room s = 0 then [] else [x])"
    and get_ok: "invar s \<Longrightarrow> \<exists>s'. get n s = Some (take n (contents s), s') \<and> invar s' \<and>
      contents s' = drop n (contents s) \<and> room s' = room s + length (take n (contents s))"
begin

definition capacity :: "'s \<Rightarrow> nat" where
  "capacity s = room s + length (contents s)"

lemma put_refines:
  assumes "invar s"
  obtains s' where "put x s = Some s'" "invar s'" "capacity s' = capacity s"
    "contents s' = aq_put (capacity s) x (contents s)"
  using put_ok[OF assms, of x] by (auto simp: capacity_def aq_put_def split: if_splits)

lemma get_refines:
  assumes "invar s"
  obtains s' where "get n s = Some (take n (contents s), s')" "invar s'"
    "capacity s' = capacity s" "contents s' = drop n (contents s)"
  using get_ok[OF assms, of n] by (auto simp: capacity_def)

lemma run_refines:
  "invar s \<Longrightarrow> \<exists>s'. fifo_run put get ops s = Some (fst (aq_run (capacity s) ops (contents s)), s') \<and>
     invar s' \<and> capacity s' = capacity s \<and>
     contents s' = snd (aq_run (capacity s) ops (contents s))"
proof (induction ops arbitrary: s)
  case Nil
  then show ?case by simp
next
  case (Cons op ops)
  show ?case
  proof (cases op)
    case (Put x)
    obtain s' where s': "put x s = Some s'" "invar s'" "capacity s' = capacity s"
      "contents s' = aq_put (capacity s) x (contents s)"
      using Cons.prems by (rule put_refines)
    with Cons.IH[of s'] Put show ?thesis by simp
  next
    case (Get n)
    obtain s' where s': "get n s = Some (take n (contents s), s')" "invar s'"
      "capacity s' = capacity s" "contents s' = drop n (contents s)"
      using Cons.prems by (rule get_refines)
    with Cons.IH[of s'] Get show ?thesis by (auto simp: split_beta)
  qed
qed

lemma run_history:
  assumes "invar s"
  shows "\<exists>out s'. fifo_run put get ops s = Some (out, s') \<and> invar s' \<and>
     out @ contents s' = contents s @ aq_accepted (capacity s) ops (contents s) \<and>
     capacity s' = capacity s"
proof -
  obtain out q' where q: "aq_run (capacity s) ops (contents s) = (out, q')" by fastforce
  then show ?thesis using run_refines[OF assms, of ops] aq_history[OF q] by auto
qed

lemma run_lossless:
  assumes "invar s" and "length (fifo_puts ops) \<le> room s"
  shows "\<exists>out s'. fifo_run put get ops s = Some (out, s') \<and> invar s' \<and>
     out @ contents s' = contents s @ fifo_puts ops"
proof -
  have "aq_accepted (capacity s) ops (contents s) = fifo_puts ops"
    using assms(2) by (intro aq_accepted_all) (simp add: capacity_def)
  with run_history[OF assms(1), of ops] show ?thesis by auto
qed

lemma put_all_appends:
  "invar s \<Longrightarrow> \<exists>s'. put_all put xs s = Some s' \<and> invar s' \<and>
     contents s' = contents s @ take (room s) xs \<and> room s' = room s - length xs"
proof (induction xs arbitrary: s)
  case Nil
  then show ?case by simp
next
  case (Cons x xs)
  obtain s' where s': "put x s = Some s'" "invar s'" "room s' = room s - 1"
    "contents s' = contents s @ (if room s = 0 then [] else [x])"
    using put_ok[OF Cons.prems] by blast
  then show ?case using Cons.IH[of s'] by (cases "room s") auto
qed

end

end
