(* ===== verification/Token_Ring.thy ===== *)
theory Token_Ring
  imports Fifo_Spec
begin

text \<open>
  The hugepage token ring: \<open>kernel/chardev/kllm_ring.h\<close> (producer side, in the kernel) and
  \<open>userspace/include/kllm_ring_user.h\<close> (consumer side, mapped into the reactor). One record
  holds the control header and the token slots that follow it in the same page. Slot
  accesses are checked: a read or write outside the slot area is \<open>None\<close>.
\<close>

section \<open>Data\<close>

definition KLLM_TOKEN_RING_MAGIC :: u32 where
  "KLLM_TOKEN_RING_MAGIC = 0x4B4C4C4D"

definition KLLM_TOKEN_RING_VERSION :: u32 where
  "KLLM_TOKEN_RING_VERSION = 1"

text \<open>
  \<open>sizeof (struct kllm_ring_hdr)\<close>: the first four words padded to a cache line, then one
  cache line each for \<open>head\<close>, \<open>tail\<close> and \<open>seq_id\<close>.
\<close>

definition KLLM_RING_HDR_SIZE :: nat where
  "KLLM_RING_HDR_SIZE = 4 * 64"

record kllm_ring_hdr =
  rh_magic :: u32
  rh_version :: u32
  rh_slot_count :: u32
  rh_head :: u32
  rh_tail :: u32
  rh_seq_id :: u32
  rh_slots :: "u32 list"

section \<open>Operations\<close>

definition kllm_ring_mask :: "kllm_ring_hdr \<Rightarrow> u32" where
  "kllm_ring_mask hdr = rh_slot_count hdr - 1"

definition kllm_ring_free :: "kllm_ring_hdr \<Rightarrow> u32" where
  "kllm_ring_free hdr = (rh_tail hdr - rh_head hdr - 1) AND kllm_ring_mask hdr"

text \<open>The result carries the C return value (-1 full, 0 stored) and the ring afterwards.\<close>

definition kllm_ring_produce :: "kllm_ring_hdr \<Rightarrow> u32 \<Rightarrow> (int \<times> kllm_ring_hdr) option" where
  "kllm_ring_produce hdr token_id =
     (let head = rh_head hdr;
          next = (head + 1) AND kllm_ring_mask hdr
      in if next = rh_tail hdr then Some (-1, hdr)
         else do {
           slots \<leftarrow> arr_set (rh_slots hdr) (unat head) token_id;
           Some (0, hdr\<lparr>rh_slots := slots, rh_head := next\<rparr>) })"

definition kllm_ring_available :: "kllm_ring_hdr \<Rightarrow> u32" where
  "kllm_ring_available hdr = (rh_head hdr - rh_tail hdr) AND kllm_ring_mask hdr"

definition kllm_ring_consume :: "kllm_ring_hdr \<Rightarrow> (u32 \<times> kllm_ring_hdr) option" where
  "kllm_ring_consume hdr = do {
     token_id \<leftarrow> arr_get (rh_slots hdr) (unat (rh_tail hdr));
     Some (token_id, hdr\<lparr>rh_tail := (rh_tail hdr + 1) AND kllm_ring_mask hdr\<rparr>) }"

text \<open>The copy loop of the batch read, from iteration \<open>i\<close> for \<open>k\<close> more iterations.\<close>

fun consume_loop :: "u32 list \<Rightarrow> u32 \<Rightarrow> u32 \<Rightarrow> nat \<Rightarrow> nat \<Rightarrow> u32 list \<Rightarrow> u32 list option" where
  "consume_loop slots tail msk i 0 out = Some out"
| "consume_loop slots tail msk i (Suc k) out = do {
     v \<leftarrow> arr_get slots (unat ((tail + of_nat i) AND msk));
     out' \<leftarrow> arr_set out i v;
     consume_loop slots tail msk (Suc i) k out' }"

definition kllm_ring_consume_batch ::
  "kllm_ring_hdr \<Rightarrow> u32 list \<Rightarrow> u32 \<Rightarrow> (u32 \<times> u32 list \<times> kllm_ring_hdr) option" where
  "kllm_ring_consume_batch hdr out max_tokens =
     (let avail = kllm_ring_available hdr;
          count = (if avail < max_tokens then avail else max_tokens);
          tail = rh_tail hdr;
          msk = kllm_ring_mask hdr
      in do {
        out' \<leftarrow> consume_loop (rh_slots hdr) tail msk 0 (unat count) out;
        Some (count, out', hdr\<lparr>rh_tail := (tail + count) AND msk\<rparr>) })"

section \<open>Invariant and abstraction\<close>

definition ring_wf :: "kllm_ring_hdr \<Rightarrow> bool" where
  "ring_wf r \<longleftrightarrow> pow2 (rh_slot_count r) \<and> unat (rh_slot_count r) \<le> length (rh_slots r) \<and>
     rh_head r < rh_slot_count r \<and> rh_tail r < rh_slot_count r"

definition ring_contents :: "kllm_ring_hdr \<Rightarrow> u32 list" where
  "ring_contents r = window (unat (rh_slot_count r)) (rh_slots r) (unat (rh_tail r))
     (unat (kllm_ring_available r))"

definition ring_room :: "kllm_ring_hdr \<Rightarrow> nat" where
  "ring_room r = unat (rh_slot_count r) - 1 - length (ring_contents r)"

lemma ring_wfD:
  assumes "ring_wf r"
  shows "pow2 (rh_slot_count r)" and "0 < unat (rh_slot_count r)"
    and "unat (rh_slot_count r) \<le> length (rh_slots r)"
    and "unat (rh_head r) < unat (rh_slot_count r)"
    and "unat (rh_tail r) < unat (rh_slot_count r)"
  using assms by (auto simp: ring_wf_def word_less_nat_alt pow2_pos)

lemma available_dist:
  assumes "ring_wf r"
  shows "unat (kllm_ring_available r) =
     circ_dist (unat (rh_slot_count r)) (unat (rh_head r)) (unat (rh_tail r))"
  using ring_wfD[OF assms]
  by (simp add: kllm_ring_available_def kllm_ring_mask_def circ_dist_def word_nat_simps)

lemma length_ring_contents: "length (ring_contents r) = unat (kllm_ring_available r)"
  by (simp add: ring_contents_def)

lemma available_less: "ring_wf r \<Longrightarrow> unat (kllm_ring_available r) < unat (rh_slot_count r)"
  by (simp add: available_dist ring_wfD)

lemma next_head:
  assumes "ring_wf r"
  shows "unat ((rh_head r + 1) AND kllm_ring_mask r) =
    (unat (rh_head r) + 1) mod unat (rh_slot_count r)"
  using ring_wfD(1)[OF assms] by (simp add: kllm_ring_mask_def unat_add_and_mask)

lemma full_iff:
  assumes "ring_wf r"
  shows "(rh_head r + 1) AND kllm_ring_mask r = rh_tail r \<longleftrightarrow> ring_room r = 0"
proof -
  have "(rh_head r + 1) AND kllm_ring_mask r = rh_tail r \<longleftrightarrow>
     (unat (rh_head r) + 1) mod unat (rh_slot_count r) = unat (rh_tail r)"
    by (simp only: next_head[OF assms, symmetric] word_unat_eq_iff)
  also have "\<dots> \<longleftrightarrow> Suc (unat (kllm_ring_available r)) = unat (rh_slot_count r)"
    using ring_wfD[OF assms] by (simp only: circ_full_iff available_dist[OF assms])
  finally show ?thesis using available_less[OF assms]
    by (auto simp: ring_room_def length_ring_contents)
qed

section \<open>What the operations do\<close>

lemma produce_full: "ring_wf r \<Longrightarrow> ring_room r = 0 \<Longrightarrow> kllm_ring_produce r x = Some (-1, r)"
  by (simp add: kllm_ring_produce_def full_iff)

lemma produce_stores:
  assumes wf: "ring_wf r" and room: "0 < ring_room r"
  obtains r' where "kllm_ring_produce r x = Some (0, r')" and "ring_wf r'"
    and "ring_contents r' = ring_contents r @ [x]"
    and "rh_slot_count r' = rh_slot_count r" and "rh_tail r' = rh_tail r"
    and "rh_seq_id r' = rh_seq_id r"
proof -
  let ?n = "unat (rh_slot_count r)" and ?h = "unat (rh_head r)" and ?t = "unat (rh_tail r)"
  let ?r = "r\<lparr>rh_slots := (rh_slots r)[?h := x], rh_head := (rh_head r + 1) AND kllm_ring_mask r\<rparr>"
  note D = ring_wfD[OF wf]
  have h: "?h < length (rh_slots r)" using D by simp
  have res: "kllm_ring_produce r x = Some (0, ?r)"
    using room h by (simp add: kllm_ring_produce_def full_iff[OF wf] fault_simps Let_def)
  have nh: "unat (rh_head ?r) = (?h + 1) mod ?n" using next_head[OF wf] by simp
  have wf': "ring_wf ?r"
    using wf D nh by (simp add: ring_wf_def word_less_nat_alt)
  let ?d = "unat (kllm_ring_available r)"
  have d: "?d = circ_dist ?n ?h ?t" by (rule available_dist[OF wf])
  have sd: "Suc ?d < ?n" using room by (simp add: ring_room_def length_ring_contents)
  have "unat (kllm_ring_available ?r) = circ_dist ?n ((?h + 1) mod ?n) ?t"
    using available_dist[OF wf'] nh by simp
  also have "\<dots> = Suc ?d" using D sd unfolding d by (intro circ_dist_grow)
  finally have d': "unat (kllm_ring_available ?r) = Suc ?d" .
  have "?h = (?t + ?d) mod ?n" using D by (simp add: d circ_dist_reach)
  then have "window ?n ((rh_slots r)[?h := x]) ?t (Suc ?d) = window ?n (rh_slots r) ?t ?d @ [x]"
    using sd D window_write_snoc[of ?d ?n "rh_slots r" ?t x] by simp
  then have "ring_contents ?r = ring_contents r @ [x]"
    by (simp only: ring_contents_def d') simp
  with res wf' show thesis by (intro that[of ?r]) simp_all
qed

lemma consume_loop_window:
  assumes "pow2 n" and "unat n \<le> length slots"
  shows "i + k \<le> length out \<Longrightarrow> consume_loop slots tail (n - 1) i k out =
    Some (take i out @ window (unat n) slots (unat tail + i) k @ drop (i + k) out)"
proof (induction k arbitrary: i out)
  case 0
  then show ?case by simp
next
  case (Suc k)
  have "unat (of_nat i :: u32) mod unat n = i mod unat n"
    using pow2_dvd[OF assms(1)] by (simp add: unat_of_nat mod_mod_cancel)
  then have idx: "unat ((tail + of_nat i) AND (n - 1)) = (unat tail + i) mod unat n"
    unfolding unat_add_and_mask[OF assms(1)] by (metis mod_add_right_eq)
  have "(unat tail + i) mod unat n < length slots"
    using assms pow2_pos[OF assms(1)] by (meson less_le_trans mod_less_divisor)
  then have "consume_loop slots tail (n - 1) i (Suc k) out =
      consume_loop slots tail (n - 1) (Suc i) k (out[i := slots ! ((unat tail + i) mod unat n)])"
    using Suc.prems by (simp add: idx fault_simps)
  also have "\<dots> = Some (take (Suc i) (out[i := slots ! ((unat tail + i) mod unat n)]) @
      window (unat n) slots (unat tail + Suc i) k @
      drop (Suc i + k) (out[i := slots ! ((unat tail + i) mod unat n)]))"
    using Suc.prems by (intro Suc.IH) simp
  also have "take (Suc i) (out[i := slots ! ((unat tail + i) mod unat n)]) =
      take i out @ window (unat n) slots (unat tail + i) 1"
    using Suc.prems by (simp add: take_Suc_conv_app_nth window_def)
  finally show ?case
    using window_append[of "unat n" slots "unat tail + i" 1 k] by simp
qed

lemma consume_batch_takes:
  assumes wf: "ring_wf r" and buf: "unat max_tokens \<le> length out"
  defines "c \<equiv> min (unat max_tokens) (length (ring_contents r))"
  obtains r' where
    "kllm_ring_consume_batch r out max_tokens =
       Some (of_nat c, take c (ring_contents r) @ drop c out, r')"
    and "ring_wf r'" and "ring_contents r' = drop c (ring_contents r)"
    and "rh_slot_count r' = rh_slot_count r" and "rh_head r' = rh_head r"
    and "rh_seq_id r' = rh_seq_id r"
proof -
  let ?n = "unat (rh_slot_count r)" and ?t = "unat (rh_tail r)"
  let ?d = "unat (kllm_ring_available r)"
  let ?cnt = "if kllm_ring_available r < max_tokens then kllm_ring_available r else max_tokens"
  let ?r = "r\<lparr>rh_tail := (rh_tail r + ?cnt) AND kllm_ring_mask r\<rparr>"
  note D = ring_wfD[OF wf]
  have cnt: "unat ?cnt = c"
    by (simp add: c_def length_ring_contents word_less_nat_alt min_def)
  then have cnt': "?cnt = of_nat c" unfolding cnt[symmetric] by simp
  have c: "c \<le> ?d" "c \<le> length out" using buf by (auto simp: c_def length_ring_contents)
  have "consume_loop (rh_slots r) (rh_tail r) (kllm_ring_mask r) 0 c out =
      Some (take c (ring_contents r) @ drop c out)"
    using consume_loop_window[OF D(1,3), of 0 c out "rh_tail r"] c
    by (simp add: kllm_ring_mask_def ring_contents_def take_window)
  then have res: "kllm_ring_consume_batch r out max_tokens =
      Some (of_nat c, take c (ring_contents r) @ drop c out, ?r)"
    unfolding kllm_ring_consume_batch_def Let_def cnt by (simp add: cnt')
  have nt: "unat (rh_tail ?r) = (?t + c) mod ?n"
    using unat_add_and_mask[OF D(1), of "rh_tail r" ?cnt] cnt by (simp add: kllm_ring_mask_def)
  have wf': "ring_wf ?r" using wf D nt by (simp add: ring_wf_def word_less_nat_alt)
  have "unat (kllm_ring_available ?r) = circ_dist ?n (unat (rh_head r)) ((?t + c) mod ?n)"
    using available_dist[OF wf'] nt by simp
  also have "\<dots> = ?d - c" using D c by (simp add: available_dist[OF wf] circ_dist_advance)
  finally have "ring_contents ?r = drop c (ring_contents r)"
    using c nt by (simp add: ring_contents_def drop_window)
  with res wf' show thesis by (intro that[of ?r]) simp_all
qed

lemma unat_ring_free:
  assumes wf: "ring_wf r"
  shows "unat (kllm_ring_free r) = ring_room r"
proof -
  let ?n = "unat (rh_slot_count r)" and ?h = "unat (rh_head r)" and ?t = "unat (rh_tail r)"
  note D = ring_wfD[OF wf]
  have "unat ((rh_tail r - rh_head r) AND (rh_slot_count r - 1)) = circ_dist ?n ?t ?h"
    using D by (simp add: circ_dist_def unat_sub_and_mask)
  then have d': "unat (rh_tail r - rh_head r) mod ?n = circ_dist ?n ?t ?h"
    using D by (simp add: unat_and_mask)
  show ?thesis
  proof (cases "1 < ?n")
    case True
    have "unat (kllm_ring_free r) = (unat (rh_tail r - rh_head r) + (?n - 1)) mod ?n"
      using True D by (simp add: kllm_ring_free_def kllm_ring_mask_def unat_sub_and_mask)
    also have "\<dots> = (circ_dist ?n ?t ?h + (?n - 1)) mod ?n"
      by (simp only: d'[symmetric] mod_add_left_eq)
    also have "\<dots> = ?n - 1 - circ_dist ?n ?h ?t"
    proof (cases "?h = ?t")
      case False
      have "circ_dist ?n ?t ?h \<noteq> 0"
        using D(4) False circ_dist_reach[OF D(5,4)] by (metis add_0_right mod_less)
      then obtain e where e: "circ_dist ?n ?t ?h = Suc e" by (cases "circ_dist ?n ?t ?h") auto
      have "e < ?n" using circ_dist_less[OF D(2), of ?t ?h] unfolding e by simp
      have "(Suc e + (?n - 1)) mod ?n = e"
        using \<open>e < ?n\<close> True by simp
      moreover have "circ_dist ?n ?h ?t = ?n - Suc e"
        using circ_dist_flip[OF D(5,4)] False e by simp
      ultimately show ?thesis unfolding e using \<open>e < ?n\<close> by simp
    qed (use D True in simp)
    finally show ?thesis
      by (simp add: ring_room_def length_ring_contents available_dist[OF wf])
  next
    case False
    with D have "?n = 1" by simp
    moreover have "unat (kllm_ring_free r) < ?n"
      using D by (simp add: kllm_ring_free_def kllm_ring_mask_def unat_and_mask)
    ultimately show ?thesis by (simp add: ring_room_def)
  qed
qed

section \<open>The ring implements the bounded queue\<close>

definition ring_put :: "u32 \<Rightarrow> kllm_ring_hdr \<Rightarrow> kllm_ring_hdr option" where
  "ring_put x r = map_option snd (kllm_ring_produce r x)"

text \<open>A batch read into a fresh buffer of \<open>n\<close> slots (at most \<open>UINT32_MAX\<close>).\<close>

definition ring_get :: "nat \<Rightarrow> kllm_ring_hdr \<Rightarrow> (u32 list \<times> kllm_ring_hdr) option" where
  "ring_get n r = (let m = min n (2 ^ 32 - 1) in do {
     (count, out, r') \<leftarrow> kllm_ring_consume_batch r (replicate m 0) (of_nat m);
     Some (take (unat count) out, r') })"

lemma ring_put_spec:
  assumes "ring_wf r"
  shows "\<exists>r'. ring_put x r = Some r' \<and> ring_wf r' \<and> ring_room r' = ring_room r - 1 \<and>
    ring_contents r' = ring_contents r @ (if ring_room r = 0 then [] else [x])"
proof (cases "ring_room r = 0")
  case True
  with assms show ?thesis by (simp add: ring_put_def produce_full)
next
  case False
  then have "0 < ring_room r" by simp
  with assms obtain r' where "kllm_ring_produce r x = Some (0, r')" "ring_wf r'"
    "ring_contents r' = ring_contents r @ [x]" "rh_slot_count r' = rh_slot_count r"
    by (rule produce_stores)
  with False show ?thesis by (simp add: ring_put_def ring_room_def)
qed

lemma ring_get_spec:
  assumes "ring_wf r"
  shows "\<exists>r'. ring_get n r = Some (take n (ring_contents r), r') \<and> ring_wf r' \<and>
    ring_contents r' = drop n (ring_contents r) \<and>
    ring_room r' = ring_room r + length (take n (ring_contents r))"
proof -
  let ?m = "min n (2 ^ 32 - 1)" and ?q = "ring_contents r"
  have m: "unat (of_nat ?m :: u32) = ?m" by (simp add: unat_of_nat)
  let ?c = "min (unat (of_nat ?m :: u32)) (length ?q)"
  obtain r' where r': "kllm_ring_consume_batch r (replicate ?m 0) (of_nat ?m) =
      Some (of_nat ?c, take ?c ?q @ drop ?c (replicate ?m 0), r')" "ring_wf r'"
    "ring_contents r' = drop ?c ?q" "rh_slot_count r' = rh_slot_count r"
    using assms by (rule consume_batch_takes[of r "of_nat ?m" "replicate ?m 0"]) (use m in auto)
  have q: "length ?q < 2 ^ 32"
    using unsigned_less[of "kllm_ring_available r"] by (simp add: length_ring_contents)
  then have c: "?c = min n (length ?q)" unfolding m by auto
  have uc: "unat (of_nat ?c :: u32) = ?c" using q by (simp add: unat_of_nat)
  have "ring_get n r = Some (take n ?q, r')"
    using r'(1) uc c by (simp add: ring_get_def Let_def min_def)
  moreover have "drop ?c ?q = drop n ?q" unfolding c by (simp add: min_def)
  moreover have "length ?q < unat (rh_slot_count r)"
    using available_less[OF assms] by (simp add: length_ring_contents)
  ultimately show ?thesis using r' by (auto simp: ring_room_def)
qed

interpretation token_fifo: bounded_fifo ring_wf ring_contents ring_room ring_put ring_get
  by unfold_locales (rule ring_put_spec, assumption, rule ring_get_spec)

lemma token_fifo_capacity:
  "ring_wf r \<Longrightarrow> token_fifo.capacity r = unat (rh_slot_count r) - 1"
  using available_less[of r]
  by (simp add: token_fifo.capacity_def ring_room_def length_ring_contents)

section \<open>Properties\<close>

text \<open>
  C1: any sequence of single-token produces and batch consumes on a well-formed token ring
  runs without touching memory outside the slot area, keeps the ring well-formed, and is
  first-in first-out: the tokens delivered, followed by those still in the ring, are those
  of the start followed by the tokens that were accepted, in order, where a token is refused
  exactly when \<open>slot_count - 1\<close> tokens are in flight.
\<close>

theorem token_ring_history:
  assumes "ring_wf r"
  shows "\<exists>out r'. fifo_run ring_put ring_get ops r = Some (out, r') \<and> ring_wf r' \<and>
    out @ ring_contents r' =
      ring_contents r @ aq_accepted (unat (rh_slot_count r) - 1) ops (ring_contents r)"
  using token_fifo.run_history[OF assms, of ops] token_fifo_capacity[OF assms] by auto

definition sample_ring :: kllm_ring_hdr where
  "sample_ring = \<lparr>rh_magic = KLLM_TOKEN_RING_MAGIC, rh_version = KLLM_TOKEN_RING_VERSION,
     rh_slot_count = 4, rh_head = 1, rh_tail = 3, rh_seq_id = 0, rh_slots = [11, 0, 0, 10]\<rparr>"

lemma sample_ring_wf: "ring_wf sample_ring"
  by (simp add: ring_wf_def pow2_def sample_ring_def)

lemma sample_ring_contents: "ring_contents sample_ring = [10, 11]"
  by code_simp

theorem token_ring_history_witness:
  "ring_wf sample_ring \<and>
   (\<exists>out r'. fifo_run ring_put ring_get [Put 12, Put 13, Get 2, Put 14] sample_ring = Some (out, r') \<and>
     ring_wf r' \<and> out @ ring_contents r' = [10, 11, 12, 14])"
proof -
  have "rh_slot_count sample_ring = 4" by (simp add: sample_ring_def)
  then show ?thesis
    using token_ring_history[OF sample_ring_wf, of "[Put 12, Put 13, Get 2, Put 14]"] sample_ring_wf
    by (simp add: sample_ring_contents aq_put_def)
qed

text \<open>
  \<open>kllm_ring_produce\<close> on every branch: on a full ring it returns -1 and changes
  nothing; otherwise it returns 0, appends exactly the token, leaves tail and sequence
  number alone, and never writes outside the slot area.
\<close>

theorem ring_produce_correct:
  assumes "ring_wf r"
  shows "if length (ring_contents r) = unat (rh_slot_count r) - 1
     then kllm_ring_produce r x = Some (-1, r)
     else \<exists>r'. kllm_ring_produce r x = Some (0, r') \<and> ring_wf r' \<and>
       ring_contents r' = ring_contents r @ [x] \<and> rh_tail r' = rh_tail r \<and>
       rh_seq_id r' = rh_seq_id r"
proof (cases "ring_room r = 0")
  case True
  then have "length (ring_contents r) = unat (rh_slot_count r) - 1"
    using available_less[OF assms] by (simp add: ring_room_def length_ring_contents)
  with True assms show ?thesis by (simp add: produce_full)
next
  case False
  then have "0 < ring_room r" by simp
  with assms obtain r' where "kllm_ring_produce r x = Some (0, r')" "ring_wf r'"
    "ring_contents r' = ring_contents r @ [x]" "rh_tail r' = rh_tail r"
    "rh_seq_id r' = rh_seq_id r"
    by (rule produce_stores)
  moreover have "length (ring_contents r) \<noteq> unat (rh_slot_count r) - 1"
    using False by (simp add: ring_room_def)
  ultimately show ?thesis by auto
qed

theorem ring_produce_correct_witness:
  "ring_wf sample_ring \<and> length (ring_contents sample_ring) \<noteq> 3 \<and>
   (\<exists>r'. kllm_ring_produce sample_ring 12 = Some (0, r') \<and>
     ring_contents r' = ring_contents sample_ring @ [12])"
proof -
  have "length (ring_contents sample_ring) = 2" "rh_slot_count sample_ring = 4"
    by (simp_all add: length_ring_contents kllm_ring_available_def kllm_ring_mask_def sample_ring_def)
  then show ?thesis using ring_produce_correct[OF sample_ring_wf, of 12] sample_ring_wf by auto
qed

text \<open>
  C31: \<open>kllm_ring_consume_batch\<close> with a buffer of at least \<open>max_tokens\<close> slots copies the
  oldest \<open>min (max_tokens, available)\<close> tokens in order to the front of the buffer, leaves the
  rest of the buffer alone, returns their number and removes exactly them from the ring.
\<close>

theorem ring_consume_batch_correct:
  assumes "ring_wf r" and "unat max_tokens \<le> length out"
  shows "\<exists>r'. let c = min (unat max_tokens) (length (ring_contents r)) in
    kllm_ring_consume_batch r out max_tokens =
      Some (of_nat c, take c (ring_contents r) @ drop c out, r') \<and>
    ring_wf r' \<and> ring_contents r' = drop c (ring_contents r) \<and> rh_head r' = rh_head r"
  unfolding Let_def using assms by (rule consume_batch_takes) blast

theorem ring_consume_batch_correct_witness:
  "ring_wf sample_ring \<and> unat (2 :: u32) \<le> length [0, 0, 7 :: u32] \<and>
   (\<exists>r'. kllm_ring_consume_batch sample_ring [0, 0, 7] 2 = Some (2, [10, 11, 7], r') \<and>
     ring_contents r' = [])"
proof -
  show ?thesis
    using ring_consume_batch_correct[OF sample_ring_wf, of 2 "[0, 0, 7]"] sample_ring_wf
    by (auto simp: sample_ring_contents)
qed

text \<open>
  the producer's and the consumer's views agree: on a well-formed ring the free count of
  \<open>kllm_ring_free\<close> and the ready count of \<open>kllm_ring_available\<close> always add up to
  \<open>slot_count - 1\<close> (one slot is never used), whatever the wrap-around of head and tail.
\<close>

theorem ring_free_available:
  assumes "ring_wf r"
  shows "unat (kllm_ring_free r) + unat (kllm_ring_available r) = unat (rh_slot_count r) - 1"
  using available_less[OF assms]
  by (simp add: unat_ring_free[OF assms] ring_room_def length_ring_contents)

theorem ring_free_available_witness:
  "ring_wf sample_ring \<and> unat (kllm_ring_free sample_ring) + unat (kllm_ring_available sample_ring) = 3"
  using ring_free_available[OF sample_ring_wf] sample_ring_wf by (simp add: sample_ring_def)

end
