(* ===== verification/Chardev.thy ===== *)
theory Chardev
  imports Token_Ring
begin

text \<open>
  The character device \<open>/dev/llm_prompt1\<close>: \<open>kernel/chardev/llm_prompt.c\<close>. The device state
  (\<open>struct kllm_device\<close>) is a record; the file operations are functions on it that return the
  C result together with the new state. What the kernel decides (whether an allocation or a
  user copy succeeds, how a wait ends) is an argument. \<open>None\<close> is an access outside the
  response ring or through a null pointer.
\<close>

section \<open>Constants\<close>

definition EAGAIN :: int where "EAGAIN = 11"
definition ENOMEM :: int where "ENOMEM = 12"
definition EFAULT :: int where "EFAULT = 14"
definition EINVAL :: int where "EINVAL = 22"
definition ENOTTY :: int where "ENOTTY = 25"
definition EFBIG :: int where "EFBIG = 27"


definition KLLM_MAX_PROMPT_SIZE :: u64 where
  "KLLM_MAX_PROMPT_SIZE = 64 * 1024"

definition KLLM_RING_BYTES :: u64 where
  "KLLM_RING_BYTES = push_bit 9 4096"

text \<open>The ioctl numbers, built as \<open>_IOW\<close> and \<open>_IO\<close> build them (direction, size, type, number).\<close>

definition KLLM_IOC_EMIT_TOKENS :: u32 where
  "KLLM_IOC_EMIT_TOKENS = push_bit 30 1 OR push_bit 16 (4 + 4 * 256) OR push_bit 8 0x4B OR 1"

definition KLLM_IOC_EOS :: u32 where
  "KLLM_IOC_EOS = push_bit 8 0x4B OR 2"

definition EOS_SENTINEL :: u32 where
  "EOS_SENTINEL = 0xFFFFFFFF"

section \<open>Device state\<close>

record kllm_device =
  dev_registered :: bool
  dev_token_ring :: "kllm_ring_hdr option"
  dev_resp_ring :: "u32 list option"
  dev_resp_head :: u32
  dev_resp_tail :: u32
  dev_resp_mask :: u32

definition kllm_dev0 :: kllm_device where
  "kllm_dev0 = \<lparr>dev_registered = False, dev_token_ring = None, dev_resp_ring = None,
     dev_resp_head = 0, dev_resp_tail = 0, dev_resp_mask = 0\<rparr>"

section \<open>Response ring helpers\<close>

definition CIRC_CNT :: "u32 \<Rightarrow> u32 \<Rightarrow> u32 \<Rightarrow> u32" where
  "CIRC_CNT head tail sz = (head - tail) AND (sz - 1)"

definition CIRC_SPACE :: "u32 \<Rightarrow> u32 \<Rightarrow> u32 \<Rightarrow> u32" where
  "CIRC_SPACE head tail sz = CIRC_CNT tail (head + 1) sz"

definition resp_ring_count :: "kllm_device \<Rightarrow> u32" where
  "resp_ring_count dev = CIRC_CNT (dev_resp_head dev) (dev_resp_tail dev) (dev_resp_mask dev + 1)"

definition resp_ring_space :: "kllm_device \<Rightarrow> u32" where
  "resp_ring_space dev = CIRC_SPACE (dev_resp_head dev) (dev_resp_tail dev) (dev_resp_mask dev + 1)"

definition kllm_resp_produce :: "kllm_device \<Rightarrow> u32 \<Rightarrow> kllm_device option" where
  "kllm_resp_produce dev token_id =
     (if resp_ring_space dev > 0 then do {
        ring \<leftarrow> dev_resp_ring dev;
        ring' \<leftarrow> arr_set ring (unat (dev_resp_head dev)) token_id;
        Some (dev\<lparr>dev_resp_ring := Some ring',
                  dev_resp_head := (dev_resp_head dev + 1) AND dev_resp_mask dev\<rparr>) }
      else Some dev)"

section \<open>File operations\<close>

text \<open>\<open>write()\<close>: the prompt is accepted, the device state is not touched.\<close>

definition kllm_write :: "bool \<Rightarrow> bool \<Rightarrow> u64 \<Rightarrow> int" where
  "kllm_write kvmalloc_ok copy_from_user_ok count =
     (if count = 0 then 0
      else if count > KLLM_MAX_PROMPT_SIZE then - EFBIG
      else if \<not> kvmalloc_ok then - ENOMEM
      else if \<not> copy_from_user_ok then - EFAULT
      else sint count)"

text \<open>
  \<open>read()\<close> in the pieces between which it takes and drops the lock: the number of tokens to
  copy and how the copy is split is planned under the lock, the copy itself runs without it,
  the tail is advanced under the lock again.
\<close>

datatype copy_plan = Straight u32 | Wrapped u32 u32

fun plan_len :: "copy_plan \<Rightarrow> u32" where
  "plan_len (Straight to_copy) = to_copy"
| "plan_len (Wrapped fst_part snd_part) = fst_part + snd_part"

definition read_plan :: "kllm_device \<Rightarrow> u64 \<Rightarrow> copy_plan" where
  "read_plan dev count =
     (let avail = resp_ring_count dev;
          to_copy = min avail (ucast (count div 4))
      in if dev_resp_tail dev + to_copy \<le> dev_resp_mask dev + 1 then Straight to_copy
         else let fst_part = dev_resp_mask dev + 1 - dev_resp_tail dev
              in Wrapped fst_part (to_copy - fst_part))"

definition copy_to_user :: "bool \<Rightarrow> u32 list \<Rightarrow> nat \<Rightarrow> nat \<Rightarrow> (bool \<times> u32 list) option" where
  "copy_to_user ok ring from n =
     (if from + n \<le> length ring
      then Some (ok, if ok then take n (drop from ring) else []) else None)"

text \<open>
  The result says whether the copies succeeded, and which tokens reached the user buffer. A
  failing \<open>copy_to_user\<close> may leave part of its tokens there; they are not counted.
\<close>

fun read_copy :: "bool \<Rightarrow> bool \<Rightarrow> kllm_device \<Rightarrow> copy_plan \<Rightarrow> (bool \<times> u32 list) option" where
  "read_copy ok1 ok2 dev (Straight to_copy) = do {
     ring \<leftarrow> dev_resp_ring dev;
     copy_to_user ok1 ring (unat (dev_resp_tail dev)) (unat to_copy) }"
| "read_copy ok1 ok2 dev (Wrapped fst_part snd_part) = do {
     ring \<leftarrow> dev_resp_ring dev;
     (r1, xs) \<leftarrow> copy_to_user ok1 ring (unat (dev_resp_tail dev)) (unat fst_part);
     if \<not> r1 then Some (False, xs)
     else do {
       (r2, ys) \<leftarrow> copy_to_user ok2 ring 0 (unat snd_part);
       Some (r2, xs @ ys) } }"

definition read_commit :: "kllm_device \<Rightarrow> u32 \<Rightarrow> kllm_device" where
  "read_commit dev to_copy =
     dev\<lparr>dev_resp_tail := (dev_resp_tail dev + to_copy) AND dev_resp_mask dev\<rparr>"

text \<open>
  \<open>wait_event\<close> is how a blocking wait ends: the return code of
  \<open>wait_event_interruptible\<close> and the device at that time.
\<close>

definition kllm_read :: "(kllm_device \<Rightarrow> int \<times> kllm_device) \<Rightarrow> bool \<Rightarrow> bool \<Rightarrow> bool \<Rightarrow> u64 \<Rightarrow>
    kllm_device \<Rightarrow> (int \<times> u32 list \<times> kllm_device) option" where
  "kllm_read wait_event ok1 ok2 nonblock count0 dev0 =
     (let count = count0 AND NOT 3
      in if count = 0 then Some (0, [], dev0)
         else if resp_ring_count dev0 = 0 \<and> nonblock then Some (- EAGAIN, [], dev0)
         else let (ret, dev) = (if resp_ring_count dev0 = 0 then wait_event dev0 else (0, dev0))
              in if ret \<noteq> 0 then Some (ret, [], dev)
                 else let plan = read_plan dev count
                      in do {
                        (ok, xs) \<leftarrow> read_copy ok1 ok2 dev plan;
                        if \<not> ok then Some (- EFAULT, xs, dev)
                        else Some (4 * uint (plan_len plan), xs,
                                   read_commit dev (plan_len plan)) })"

definition EPOLL_READ :: u32 where "EPOLL_READ = 0x001 OR 0x040"
definition EPOLL_WRITE :: u32 where "EPOLL_WRITE = 0x004 OR 0x100"

definition kllm_poll :: "kllm_device \<Rightarrow> u32" where
  "kllm_poll dev = (if resp_ring_count dev > 0 then EPOLL_READ else 0) OR EPOLL_WRITE"

record vm_area =
  vm_start :: u64
  vm_end :: u64
  vm_pgoff :: u64
  vm_flags :: u64

definition VM_WRITE :: u64 where "VM_WRITE = 0x2"
definition VM_DONTEXPAND :: u64 where "VM_DONTEXPAND = 0x00040000"
definition VM_DONTDUMP :: u64 where "VM_DONTDUMP = 0x04000000"

text \<open>\<open>remap\<close> is the result of \<open>remap_pfn_range\<close>.\<close>

definition kllm_mmap :: "int \<Rightarrow> vm_area \<Rightarrow> int \<times> vm_area" where
  "kllm_mmap remap vma =
     (let sz = vm_end vma - vm_start vma
      in if sz > KLLM_RING_BYTES then (- EINVAL, vma)
         else if vm_pgoff vma \<noteq> 0 then (- EINVAL, vma)
         else (remap, vma\<lparr>vm_flags := vm_flags vma OR (VM_DONTEXPAND OR VM_DONTDUMP)\<rparr>))"

record kllm_emit_cmd =
  emit_count :: u32
  emit_tokens :: "u32 list"

fun emit_loop :: "kllm_device \<Rightarrow> u32 list \<Rightarrow> nat \<Rightarrow> nat \<Rightarrow> kllm_device option" where
  "emit_loop dev tokens i 0 = Some dev"
| "emit_loop dev tokens i (Suc k) = do {
     t \<leftarrow> arr_get tokens i;
     dev' \<leftarrow> kllm_resp_produce dev t;
     emit_loop dev' tokens (Suc i) k }"

text \<open>\<open>arg\<close> is the user's command structure, \<open>None\<close> when \<open>copy_from_user\<close> fails.\<close>

definition kllm_ioctl :: "kllm_device \<Rightarrow> u32 \<Rightarrow> kllm_emit_cmd option \<Rightarrow> (int \<times> kllm_device) option" where
  "kllm_ioctl dev cmd arg =
     (if cmd = KLLM_IOC_EMIT_TOKENS then
        (case arg of
           None \<Rightarrow> Some (- EFAULT, dev)
         | Some emit \<Rightarrow>
             if emit_count emit > 256 then Some (- EINVAL, dev)
             else do {
               dev' \<leftarrow> emit_loop dev (emit_tokens emit) 0 (unat (emit_count emit));
               Some (0, dev') })
      else if cmd = KLLM_IOC_EOS then do {
        dev' \<leftarrow> kllm_resp_produce dev EOS_SENTINEL;
        Some (0, dev') }
      else Some (- ENOTTY, dev))"

section \<open>Module life cycle\<close>

text \<open>The kernel's \<open>rounddown_pow_of_two\<close>: the largest power of two not above \<open>n\<close>.\<close>

fun rounddown_pow_of_two :: "nat \<Rightarrow> nat" where
  "rounddown_pow_of_two n = (if n < 2 then 1 else 2 * rounddown_pow_of_two (n div 2))"

declare rounddown_pow_of_two.simps [simp del]


text \<open>
  \<open>dev_token_ring\<close> stands for \<open>ring_page\<close> and \<open>token_ring\<close>, which are set and cleared together, and
  \<open>dev_resp_ring\<close> for the memory of the response ring: it is \<open>None\<close> after \<open>kvfree\<close>, although the C
  pointer keeps its old value then.
\<close>

definition kllm_free_token_ring :: "kllm_device \<Rightarrow> kllm_device" where
  "kllm_free_token_ring dev =
     (if dev_token_ring dev \<noteq> None then dev\<lparr>dev_token_ring := None\<rparr> else dev)"


definition kllm_exit :: "kllm_device \<Rightarrow> kllm_device" where
  "kllm_exit dev = kllm_free_token_ring (dev\<lparr>dev_registered := False, dev_resp_ring := None\<rparr>)"

section \<open>The response ring as a ring\<close>

text \<open>
  The response ring is the same circular buffer as the token ring, with the mask stored
  instead of the slot count; \<open>resp_view\<close> reads it as one, so that the lemmas about
  \<open>kllm_ring_produce\<close> and the window apply.
\<close>

definition resp_view :: "kllm_device \<Rightarrow> kllm_ring_hdr" where
  "resp_view dev = \<lparr>rh_magic = 0, rh_version = 0, rh_slot_count = dev_resp_mask dev + 1,
     rh_head = dev_resp_head dev, rh_tail = dev_resp_tail dev, rh_seq_id = 0,
     rh_slots = (case dev_resp_ring dev of None \<Rightarrow> [] | Some ring \<Rightarrow> ring)\<rparr>"

definition resp_wf :: "kllm_device \<Rightarrow> bool" where
  "resp_wf dev \<longleftrightarrow> dev_resp_ring dev \<noteq> None \<and> ring_wf (resp_view dev)"

definition resp_contents :: "kllm_device \<Rightarrow> u32 list" where
  "resp_contents dev = ring_contents (resp_view dev)"

definition resp_room :: "kllm_device \<Rightarrow> nat" where
  "resp_room dev = ring_room (resp_view dev)"

lemma resp_count_view: "resp_ring_count dev = kllm_ring_available (resp_view dev)"
  by (simp add: resp_ring_count_def CIRC_CNT_def kllm_ring_available_def kllm_ring_mask_def
      resp_view_def)

lemma resp_space_view: "resp_ring_space dev = kllm_ring_free (resp_view dev)"
  by (simp add: resp_ring_space_def CIRC_SPACE_def CIRC_CNT_def kllm_ring_free_def
      kllm_ring_mask_def resp_view_def diff_diff_eq)

lemma unat_resp_count: "unat (resp_ring_count dev) = length (resp_contents dev)"
  by (simp add: resp_count_view resp_contents_def length_ring_contents)

lemma resp_produce_view:
  assumes "resp_wf dev"
  shows "\<exists>dev'. kllm_resp_produce dev x = Some dev' \<and> ring_put x (resp_view dev) = Some (resp_view dev') \<and>
    dev_resp_ring dev' \<noteq> None \<and> dev_resp_mask dev' = dev_resp_mask dev \<and>
    dev_resp_tail dev' = dev_resp_tail dev \<and> dev_token_ring dev' = dev_token_ring dev \<and>
    dev_registered dev' = dev_registered dev"
proof -
  obtain ring where ring: "dev_resp_ring dev = Some ring"
    using assms by (auto simp: resp_wf_def)
  have wf: "ring_wf (resp_view dev)" using assms by (simp add: resp_wf_def)
  then have h: "unat (dev_resp_head dev) < length ring"
    using ring_wfD[OF wf] ring by (simp add: resp_view_def)
  have sp: "resp_ring_space dev > 0 \<longleftrightarrow> ring_room (resp_view dev) \<noteq> 0"
    using unat_ring_free[OF wf] by (simp add: resp_space_view word_gt_0 unat_eq_0[symmetric] del: unat_eq_0)
  show ?thesis
  proof (cases "ring_room (resp_view dev) = 0")
    case True
    with sp produce_full[OF wf True] ring show ?thesis
      by (simp add: kllm_resp_produce_def ring_put_def)
  next
    case False
    then have "(rh_head (resp_view dev) + 1) AND kllm_ring_mask (resp_view dev) \<noteq> rh_tail (resp_view dev)"
      by (simp add: full_iff[OF wf])
    with False sp ring h show ?thesis
      by (simp add: kllm_resp_produce_def ring_put_def kllm_ring_produce_def resp_view_def
          kllm_ring_mask_def fault_simps Let_def)
  qed
qed

lemma resp_put_spec:
  assumes "resp_wf dev"
  shows "\<exists>dev'. kllm_resp_produce dev x = Some dev' \<and> resp_wf dev' \<and> resp_room dev' = resp_room dev - 1 \<and>
    resp_contents dev' = resp_contents dev @ (if resp_room dev = 0 then [] else [x])"
proof -
  obtain dev' where d: "kllm_resp_produce dev x = Some dev'"
    "ring_put x (resp_view dev) = Some (resp_view dev')" "dev_resp_ring dev' \<noteq> None"
    using resp_produce_view[OF assms] by blast
  have "ring_wf (resp_view dev)" using assms by (simp add: resp_wf_def)
  from ring_put_spec[OF this, of x] d show ?thesis
    by (auto simp: resp_wf_def resp_room_def resp_contents_def)
qed

section \<open>What a read delivers\<close>

lemma align_u32: "(count AND NOT 3) div 4 = count div (4 :: u64)"
proof -
  have "drop_bit 2 (count AND NOT (mask 2)) = drop_bit 2 count"
    by (rule bit_word_eqI) (auto simp: bit_simps dest: bit_imp_le_length)
  then show ?thesis by (simp add: drop_bit_eq_div mask_eq_exp_minus_1)
qed

lemma align_u32_zero: "count AND NOT 3 = 0 \<longleftrightarrow> count < (4 :: u64)"
proof
  assume "count AND NOT 3 = 0"
  then have "count div 4 = 0" using align_u32[of count] by simp
  then have "unat (count div 4) = 0" by simp
  then have "unat count div 4 = 0" by (simp add: unat_div)
  then show "count < 4" by (simp add: word_less_nat_alt)
next
  assume "count < 4"
  then have "unat count < 4" by (simp add: word_less_nat_alt)
  then have "unat count = 0 \<or> unat count = 1 \<or> unat count = 2 \<or> unat count = 3" by arith
  then have "count = of_nat 0 \<or> count = of_nat 1 \<or> count = of_nat 2 \<or> count = of_nat 3"
    by (metis of_nat_unat_id)
  then show "count AND NOT 3 = 0" by auto
qed

lemma read_plan_len:
  assumes "resp_wf dev"
  shows "unat (plan_len (read_plan dev count)) =
    min (length (resp_contents dev)) (unat (ucast (count div 4) :: u32))"
  by (simp add: read_plan_def Let_def unat_resp_count[symmetric] min_def word_le_nat_alt)

lemma resp_no_wrap:
  assumes "resp_wf dev"
  shows "unat (dev_resp_tail dev) < unat (dev_resp_mask dev + 1)"
    and "unat (dev_resp_mask dev + 1) \<le> 2 ^ 31"
    and "length (resp_contents dev) < unat (dev_resp_mask dev + 1)"
proof -
  have wf: "ring_wf (resp_view dev)" using assms by (simp add: resp_wf_def)
  show "unat (dev_resp_tail dev) < unat (dev_resp_mask dev + 1)"
    using ring_wfD(5)[OF wf] by (simp add: resp_view_def)
  show "length (resp_contents dev) < unat (dev_resp_mask dev + 1)"
    using available_less[OF wf] by (simp add: resp_contents_def length_ring_contents resp_view_def)
  have "pow2 (dev_resp_mask dev + 1)" using ring_wfD(1)[OF wf] by (simp add: resp_view_def)
  then obtain k where k: "k < LENGTH(32)" "unat (dev_resp_mask dev + 1) = 2 ^ k" by (rule pow2_unat)
  have "(2::nat) ^ k \<le> 2 ^ 31" by (rule power_increasing) (use k(1) in auto)
  with k(2) show "unat (dev_resp_mask dev + 1) \<le> 2 ^ 31" by (simp only:)
qed

lemma read_copy_window:
  assumes "resp_wf dev"
  shows "read_copy True True dev (read_plan dev count) =
    Some (True, take (unat (plan_len (read_plan dev count))) (resp_contents dev))"
proof -
  let ?n = "unat (dev_resp_mask dev + 1)" and ?t = "unat (dev_resp_tail dev)"
  define tc where "tc = min (resp_ring_count dev) (ucast (count div 4))"
  obtain ring where ring: "dev_resp_ring dev = Some ring"
    using assms by (auto simp: resp_wf_def)
  have len: "?n \<le> length ring"
    using assms ring ring_wfD(3)[of "resp_view dev"] by (simp add: resp_wf_def resp_view_def)
  note B = resp_no_wrap[OF assms]
  have c: "unat tc \<le> length (resp_contents dev)"
    by (simp add: tc_def unat_resp_count[symmetric] min_def word_le_nat_alt)
  have sum: "unat (dev_resp_tail dev + tc) = ?t + unat tc"
    using B c by (simp add: unat_word_ariths)
  have q: "take (unat tc) (resp_contents dev) = window ?n ring ?t (unat tc)"
    using c ring by (simp add: resp_contents_def ring_contents_def take_window length_ring_contents)
       (simp add: resp_view_def)
  show ?thesis
  proof (cases "?t + unat tc \<le> ?n")
    case True
    then have "read_plan dev count = Straight tc"
      using sum by (simp add: read_plan_def Let_def tc_def word_le_nat_alt)
    with True ring len q show ?thesis
      by (simp add: copy_to_user_def window_straight)
  next
    case False
    define f where "f = dev_resp_mask dev + 1 - dev_resp_tail dev"
    have f: "unat f = ?n - ?t" using B(1) by (simp add: f_def unat_sub word_le_nat_alt)
    have s: "unat (tc - f) = unat tc - (?n - ?t)"
      using False f by (simp add: unat_sub word_le_nat_alt)
    have "read_plan dev count = Wrapped f (tc - f)"
      using False sum by (simp add: read_plan_def Let_def tc_def f_def word_le_nat_alt)
    moreover have "window ?n ring ?t (unat tc) =
        take (?n - ?t) (drop ?t ring) @ take (unat tc - (?n - ?t)) ring"
    proof -
      have "unat tc = (?n - ?t) + (unat tc - (?n - ?t))" using False by simp
      then have "window ?n ring ?t (unat tc) =
          window ?n ring ?t (?n - ?t) @ window ?n ring (?t + (?n - ?t)) (unat tc - (?n - ?t))"
        using window_append by metis
      moreover have "window ?n ring (?t + (?n - ?t)) (unat tc - (?n - ?t)) =
          window ?n ring 0 (unat tc - (?n - ?t))"
        using B(1) window_mod[of ?n ring ?n] by simp
      ultimately show ?thesis using B c len by (simp add: window_straight)
    qed
    ultimately show ?thesis using False ring len B c q f s
      by (simp add: copy_to_user_def)
  qed
qed

text \<open>Both copies, whichever fails: the second one takes part only when the tokens wrap around.\<close>

lemma read_copy_cases:
  fixes count :: u64
  assumes "resp_wf dev"
  defines "k \<equiv> unat (plan_len (read_plan dev count))"
    and "n \<equiv> unat (dev_resp_mask dev + 1)" and "t \<equiv> unat (dev_resp_tail dev)"
  shows "read_copy ok1 ok2 dev (read_plan dev count) =
    Some (if ok1 \<and> (n < t + k \<longrightarrow> ok2) then (True, take k (resp_contents dev))
      else (False, if ok1 then take (n - t) (resp_contents dev) else []))"
proof -
  have full: "read_copy True True dev (read_plan dev count) = Some (True, take k (resp_contents dev))"
    unfolding k_def by (rule read_copy_window[OF assms(1)])
  obtain ring where ring: "dev_resp_ring dev = Some ring" using assms(1) by (auto simp: resp_wf_def)
  note B = resp_no_wrap[OF assms(1), folded n_def t_def]
  have k: "k \<le> length (resp_contents dev)" using read_plan_len[OF assms(1), of count] by (simp add: k_def)
  show ?thesis
  proof (cases "read_plan dev count")
    case (Straight tc)
    then have tc: "k = unat tc" by (simp add: k_def)
    then have "unat (dev_resp_tail dev + tc) = t + k" using B k by (simp add: unat_word_ariths t_def)
    then have "\<not> n < t + k"
      using Straight by (auto simp: read_plan_def Let_def n_def word_le_nat_alt split: if_splits)
    then show ?thesis using full ring Straight by (auto simp: copy_to_user_def split: if_splits)
  next
    case (Wrapped f s)
    then have f: "f = dev_resp_mask dev + 1 - dev_resp_tail dev" "k = unat (f + s)"
      "\<not> dev_resp_tail dev + (f + s) \<le> dev_resp_mask dev + 1"
      by (auto simp: read_plan_def Let_def k_def split: if_splits)
    have "unat (dev_resp_tail dev + (f + s)) = t + k" using B k f(2) by (simp add: unat_word_ariths t_def)
    then have lt: "n < t + k" using f(3) by (simp add: n_def word_le_nat_alt)
    have uf: "unat f = n - t" using B(1) f(1) by (simp add: unat_sub word_le_nat_alt n_def t_def)
    obtain xs ys where c: "copy_to_user True ring t (n - t) = Some (True, xs)" "length xs = n - t"
      "copy_to_user True ring 0 (unat s) = Some (True, ys)" "xs @ ys = take k (resp_contents dev)"
      using full ring Wrapped uf by (auto simp: copy_to_user_def t_def split: if_splits)
    have "xs = take (n - t) (xs @ ys)" using c(2) by simp
    then have xs: "xs = take (n - t) (resp_contents dev)" using lt unfolding c(4) by (simp add: min_def)
    have "copy_to_user False ring t (n - t) = Some (False, [])" "copy_to_user False ring 0 (unat s) = Some (False, [])"
      using c(1,3) by (auto simp: copy_to_user_def split: if_splits)
    then show ?thesis using c ring Wrapped uf lt xs
      by (cases ok1; cases ok2) (simp_all add: t_def[symmetric])
  qed
qed

lemma read_copy_total:
  assumes "read_copy True True dev plan = Some (True, xs)"
  shows "\<exists>ok ys. read_copy ok1 ok2 dev plan = Some (ok, ys) \<and> (\<not> ok1 \<longrightarrow> \<not> ok \<and> ys = [])"
  using assms
  by (cases plan; cases "dev_resp_ring dev"; cases ok1; cases ok2)
    (auto simp: copy_to_user_def split: if_splits)

lemma read_commit_drops:
  assumes "resp_wf dev" and "unat n \<le> length (resp_contents dev)"
  shows "resp_wf (read_commit dev n)"
    and "resp_contents (read_commit dev n) = drop (unat n) (resp_contents dev)"
    and "resp_room (read_commit dev n) = resp_room dev + unat n"
proof -
  have wf: "ring_wf (resp_view dev)" using assms by (simp add: resp_wf_def)
  have v: "resp_view (read_commit dev n) = (resp_view dev)
      \<lparr>rh_tail := (rh_tail (resp_view dev) + n) AND kllm_ring_mask (resp_view dev)\<rparr>"
    by (simp add: resp_view_def read_commit_def kllm_ring_mask_def)
  obtain r' where r': "r' = (resp_view dev)
      \<lparr>rh_tail := (rh_tail (resp_view dev) + n) AND kllm_ring_mask (resp_view dev)\<rparr>"
    "ring_wf r'" "ring_contents r' = drop (unat n) (ring_contents (resp_view dev))"
  proof -
    let ?out = "replicate (unat n) 0"
    have c: "min (unat n) (length (ring_contents (resp_view dev))) = unat n"
      using assms(2) by (simp add: resp_contents_def)
    obtain r' where b: "kllm_ring_consume_batch (resp_view dev) ?out n =
        Some (of_nat (unat n), take (unat n) (ring_contents (resp_view dev)) @ drop (unat n) ?out, r')"
      "ring_wf r'" "ring_contents r' = drop (unat n) (ring_contents (resp_view dev))"
      using consume_batch_takes[OF wf, of n ?out] unfolding c by auto
    then show thesis
      by (intro that[of r']) (auto simp: kllm_ring_consume_batch_def Let_def bind_eq_Some_conv)
  qed
  from r' v show "resp_wf (read_commit dev n)"
    and "resp_contents (read_commit dev n) = drop (unat n) (resp_contents dev)"
    using assms(1) by (auto simp: resp_wf_def resp_contents_def read_commit_def)
  then show "resp_room (read_commit dev n) = resp_room dev + unat n"
    using assms(2) available_less[OF wf]
    by (simp add: resp_room_def ring_room_def resp_contents_def length_ring_contents[symmetric])
       (simp add: resp_view_def read_commit_def)
qed

lemma read_delivers:
  assumes wf: "resp_wf dev" and "4 \<le> count" and ne: "resp_contents dev \<noteq> []"
  defines "k \<equiv> min (length (resp_contents dev)) (unat (ucast (count div 4) :: u32))"
  obtains dev' where
    "kllm_read w True True nonblock count dev = Some (4 * int k, take k (resp_contents dev), dev')"
    and "resp_wf dev'" and "resp_contents dev' = drop k (resp_contents dev)"
    and "resp_room dev' = resp_room dev + k"
proof -
  let ?pl = "plan_len (read_plan dev (count AND NOT 3))"
  have k: "unat ?pl = k"
    using read_plan_len[OF wf, of "count AND NOT 3"] unfolding align_u32 k_def .
  have nz: "count AND NOT 3 \<noteq> 0" using assms(2) align_u32_zero[of count] by (simp only: not_less)
  have "resp_ring_count dev \<noteq> 0"
    using ne unat_resp_count[of dev] by (auto simp: unat_eq_0[symmetric] simp del: unat_eq_0)
  with nz have "kllm_read w True True nonblock count dev =
      Some (4 * int k, take k (resp_contents dev), read_commit dev ?pl)"
    using read_copy_window[OF wf, of "count AND NOT 3"] k
    by (simp add: kllm_read_def Let_def uint_nat)
  moreover have "unat ?pl \<le> length (resp_contents dev)" using k by (simp add: k_def)
  ultimately show thesis
    using that read_commit_drops[OF wf, of ?pl] k by simp
qed

text \<open>A non-blocking read of \<open>n\<close> tokens (at most \<open>2 ^ 31\<close>, more than the ring can hold).\<close>

definition resp_get :: "nat \<Rightarrow> kllm_device \<Rightarrow> (u32 list \<times> kllm_device) option" where
  "resp_get n dev = map_option snd
     (kllm_read (\<lambda>d. (0, d)) True True True (of_nat (4 * min n (2 ^ 31))) dev)"

lemma resp_get_spec:
  assumes wf: "resp_wf dev"
  shows "\<exists>dev'. resp_get n dev = Some (take n (resp_contents dev), dev') \<and> resp_wf dev' \<and>
    resp_contents dev' = drop n (resp_contents dev) \<and>
    resp_room dev' = resp_room dev + length (take n (resp_contents dev))"
proof -
  let ?m = "min n (2 ^ 31)" and ?q = "resp_contents dev"
  let ?c = "of_nat (4 * ?m) :: u64"
  have "4 * ?m < 2 ^ LENGTH(64)" by simp
  then have uc: "unat ?c = 4 * ?m" by (simp only: unat_of_nat mod_less)
  then have "unat (?c div 4) = ?m" by (simp add: unat_div)
  then have "unat (ucast (?c div 4) :: u32) = ?m"
    by (simp add: unsigned_ucast_eq take_bit_nat_eq_self)
  moreover have "length ?q < 2 ^ 31" using resp_no_wrap(2,3)[OF wf] by simp
  ultimately have k: "min (length ?q) (unat (ucast (?c div 4) :: u32)) = min n (length ?q)" by auto
  consider "n = 0" | "?q = []" "0 < n" | "?q \<noteq> []" "0 < n" by blast
  then show ?thesis
  proof cases
    case 1
    with wf show ?thesis by (simp add: resp_get_def kllm_read_def)
  next
    case 2
    then have "resp_ring_count dev = 0" using unat_resp_count[of dev] by (simp add: unat_eq_0)
    with 2 wf show ?thesis by (simp add: resp_get_def kllm_read_def Let_def)
  next
    case 3
    then have "4 \<le> ?c" using uc by (simp add: word_le_nat_alt)
    with wf obtain dev' where "kllm_read (\<lambda>d. (0, d)) True True True ?c dev =
        Some (4 * int (min n (length ?q)), take (min n (length ?q)) ?q, dev')"
      "resp_wf dev'" "resp_contents dev' = drop (min n (length ?q)) ?q"
      "resp_room dev' = resp_room dev + min n (length ?q)"
      using read_delivers[OF wf _ 3(1), of ?c] unfolding k by blast
    then show ?thesis by (auto simp: resp_get_def min_def)
  qed
qed

interpretation resp_fifo: bounded_fifo resp_wf resp_contents resp_room
  "\<lambda>x dev. kllm_resp_produce dev x" resp_get
  by unfold_locales (rule resp_put_spec, assumption, rule resp_get_spec)

section \<open>Emitting tokens\<close>

lemma emit_loop_put_all:
  "i + k \<le> length tokens \<Longrightarrow>
   emit_loop dev tokens i k = put_all (\<lambda>x d. kllm_resp_produce d x) (take k (drop i tokens)) dev"
proof (induction k arbitrary: i dev)
  case 0
  then show ?case by simp
next
  case (Suc k)
  then have "take (Suc k) (drop i tokens) = tokens ! i # take k (drop (Suc i) tokens)"
    by (simp add: Cons_nth_drop_Suc[symmetric])
  with Suc show ?case by (simp add: fault_simps)
qed

lemma emit_appends:
  assumes "resp_wf dev" and "emit_count e \<le> 256" and "length (emit_tokens e) = 256"
  obtains dev' where "kllm_ioctl dev KLLM_IOC_EMIT_TOKENS (Some e) = Some (0, dev')"
    and "resp_wf dev'"
    and "resp_contents dev' =
      resp_contents dev @ take (resp_room dev) (take (unat (emit_count e)) (emit_tokens e))"
    and "resp_room dev' = resp_room dev - unat (emit_count e)"
proof -
  have n: "unat (emit_count e) \<le> 256" using assms(2) by (simp add: word_le_nat_alt)
  moreover have "\<not> emit_count e > 256" using assms(2) by (simp add: not_less)
  ultimately have "kllm_ioctl dev KLLM_IOC_EMIT_TOKENS (Some e) =
      map_option (Pair 0) (put_all (\<lambda>x d. kllm_resp_produce d x)
        (take (unat (emit_count e)) (emit_tokens e)) dev)"
    using assms(3) by (simp add: kllm_ioctl_def emit_loop_put_all map_option_case Option.bind_def
        split: option.split)
  moreover have "length (take (unat (emit_count e)) (emit_tokens e)) = unat (emit_count e)"
    using n assms(3) by simp
  ultimately show thesis
    using resp_fifo.put_all_appends[OF assms(1), of "take (unat (emit_count e)) (emit_tokens e)"] that
    by auto
qed

lemma eos_appends:
  assumes "resp_wf dev"
  obtains dev' where "kllm_ioctl dev KLLM_IOC_EOS arg = Some (0, dev')" and "resp_wf dev'"
    and "resp_contents dev' = resp_contents dev @ take (resp_room dev) [EOS_SENTINEL]"
    and "resp_room dev' = resp_room dev - 1"
proof -
  have "KLLM_IOC_EOS \<noteq> KLLM_IOC_EMIT_TOKENS"
    by (simp add: KLLM_IOC_EOS_def KLLM_IOC_EMIT_TOKENS_def)
  then show thesis
    using resp_put_spec[OF assms, of EOS_SENTINEL] that
    by (cases "resp_room dev") (auto simp: kllm_ioctl_def)
qed

section \<open>Initialisation\<close>

lemma rounddown_bounds:
  "0 < n \<Longrightarrow> rounddown_pow_of_two n \<le> n \<and> n < 2 * rounddown_pow_of_two n"
proof (induction n rule: rounddown_pow_of_two.induct)
  case (1 n)
  show ?case
  proof (cases "n < 2")
    case True
    with "1.prems" show ?thesis by (subst (1 2) rounddown_pow_of_two.simps) simp
  next
    case False
    with "1.IH" have "rounddown_pow_of_two (n div 2) \<le> n div 2 \<and>
        n div 2 < 2 * rounddown_pow_of_two (n div 2)" by simp
    moreover have "rounddown_pow_of_two n = 2 * rounddown_pow_of_two (n div 2)"
      using False by (simp add: rounddown_pow_of_two.simps[of n])
    ultimately show ?thesis by arith
  qed
qed

lemma rounddown_exp: "\<exists>k. rounddown_pow_of_two n = 2 ^ k"
proof (induction n rule: rounddown_pow_of_two.induct)
  case (1 n)
  then show ?case
    by (cases "n < 2") (auto simp: rounddown_pow_of_two.simps[of n] intro: exI[of _ 0] exI[of _ "Suc _"])
qed





section \<open>Properties\<close>

definition sample_dev :: kllm_device where
  "sample_dev = kllm_dev0\<lparr>dev_resp_ring := Some [11, 0, 0, 10], dev_resp_head := 1,
     dev_resp_tail := 3, dev_resp_mask := 3\<rparr>"

lemma sample_dev_wf: "resp_wf sample_dev"
  by (simp add: resp_wf_def resp_view_def ring_wf_def pow2_def sample_dev_def kllm_dev0_def)

lemma sample_dev_contents: "resp_contents sample_dev = [10, 11]" "resp_room sample_dev = 1"
  by code_simp+

text \<open>
  C2: the response path is a bounded FIFO: for every sequence of token pushes by the reactor
  and non-blocking reads on a well-formed response ring, nothing outside the ring is touched
  and the tokens read, followed by those still queued, are the tokens queued before followed
  by the accepted pushes in order; a push is dropped exactly when \<open>resp_mask\<close> tokens wait.
\<close>

theorem response_ring_history:
  assumes "resp_wf dev"
  shows "\<exists>out dev'. fifo_run (\<lambda>x d. kllm_resp_produce d x) resp_get ops dev = Some (out, dev') \<and>
    resp_wf dev' \<and>
    out @ resp_contents dev' =
      resp_contents dev @ aq_accepted (unat (dev_resp_mask dev)) ops (resp_contents dev)"
proof -
  have "0 < unat (dev_resp_mask dev + 1)" using resp_no_wrap(1)[OF assms] by simp
  then have "dev_resp_mask dev + 1 \<noteq> 0" by (simp add: unat_gt_0)
  then have "unat (dev_resp_mask dev + 1 - 1) = unat (dev_resp_mask dev + 1) - 1"
    by (rule unat_minus_one)
  then have "resp_fifo.capacity dev = unat (dev_resp_mask dev)"
    using resp_no_wrap(3)[OF assms]
    by (simp add: resp_fifo.capacity_def resp_room_def ring_room_def resp_contents_def)
       (simp add: resp_view_def)
  then show ?thesis using resp_fifo.run_history[OF assms, of ops] by auto
qed

theorem response_ring_history_witness:
  "resp_wf sample_dev \<and>
   (\<exists>out dev'. fifo_run (\<lambda>x d. kllm_resp_produce d x) resp_get [Put 12, Put 13, Get 1] sample_dev =
      Some (out, dev') \<and> resp_wf dev' \<and> out @ resp_contents dev' = [10, 11, 12])"
proof -
  have "dev_resp_mask sample_dev = 3" by (simp add: sample_dev_def)
  then show ?thesis
    using response_ring_history[OF sample_dev_wf, of "[Put 12, Put 13, Get 1]"] sample_dev_wf
    by (simp add: sample_dev_contents aq_put_def)
qed

text \<open>
  C14: \<open>kllm_ioctl\<close> on every branch: an unreadable argument and a count above 256 are errors
  that change nothing, an unknown command is \<open>-ENOTTY\<close>, an accepted emit appends the first
  \<open>count\<close> tokens as far as the ring has room, and end-of-sequence appends the sentinel if there
  is room. The call returns 0 also when tokens (or the sentinel) did not fit.
\<close>

theorem kllm_ioctl_correct:
  assumes "resp_wf dev" and "\<And>e. arg = Some e \<Longrightarrow> length (emit_tokens e) = 256"
  shows "\<exists>ret dev'. kllm_ioctl dev cmd arg = Some (ret, dev') \<and> resp_wf dev' \<and>
    (ret, resp_contents dev') =
      (if cmd = KLLM_IOC_EMIT_TOKENS then
         (case arg of
            None \<Rightarrow> (- EFAULT, resp_contents dev)
          | Some e \<Rightarrow>
              if emit_count e > 256 then (- EINVAL, resp_contents dev)
              else (0, resp_contents dev @
                take (resp_room dev) (take (unat (emit_count e)) (emit_tokens e))))
       else if cmd = KLLM_IOC_EOS then (0, resp_contents dev @ take (resp_room dev) [EOS_SENTINEL])
       else (- ENOTTY, resp_contents dev))"
proof (cases "cmd = KLLM_IOC_EMIT_TOKENS")
  case True
  show ?thesis
  proof (cases arg)
    case None
    with True assms(1) show ?thesis by (simp add: kllm_ioctl_def)
  next
    case (Some e)
    show ?thesis
    proof (cases "emit_count e > 256")
      case big: True
      with True Some assms(1) show ?thesis by (simp add: kllm_ioctl_def)
    next
      case False
      then have "emit_count e \<le> 256" by (simp add: not_less)
      from emit_appends[OF assms(1) this assms(2)[OF Some]] True Some False show ?thesis by fastforce
    qed
  qed
next
  case False
  show ?thesis
  proof (cases "cmd = KLLM_IOC_EOS")
    case True
    then show ?thesis using eos_appends[OF assms(1), of arg] False by fastforce
  next
    case eos: False
    with False assms(1) show ?thesis by (simp add: kllm_ioctl_def)
  qed
qed

definition sample_emit :: kllm_emit_cmd where
  "sample_emit = \<lparr>emit_count = 2, emit_tokens = [12, 13] @ replicate 254 0\<rparr>"

theorem kllm_ioctl_correct_witness:
  "resp_wf sample_dev \<and> length (emit_tokens sample_emit) = 256 \<and>
   (\<exists>dev'. kllm_ioctl sample_dev KLLM_IOC_EMIT_TOKENS (Some sample_emit) = Some (0, dev') \<and>
      resp_contents dev' = [10, 11, 12])"
  using kllm_ioctl_correct[OF sample_dev_wf, of "Some sample_emit" KLLM_IOC_EMIT_TOKENS] sample_dev_wf
  by (auto simp: sample_emit_def sample_dev_contents)

text \<open>
  C15: \<open>read()\<close> on every path that does not sleep: fewer than four bytes deliver nothing; an
  empty ring is \<open>-EAGAIN\<close> for a non-blocking reader. Otherwise \<open>k = min (waiting, count / 4)\<close> tokens
  are due, in two copies if they wrap around the end of the ring. If the copies succeed, the
  oldest \<open>k\<close> tokens are delivered in order, removed, and their size in bytes returned. If the first
  copy fails, or the second one of a wrapped read, the result is \<open>-EFAULT\<close> and every token stays in
  the ring, also those the first copy delivered.
\<close>

theorem kllm_read_correct:
  assumes "resp_wf dev"
  shows "if count < 4 then kllm_read w okA okB nonblock count dev = Some (0, [], dev)
     else if resp_contents dev = [] then
       kllm_read w okA okB True count dev = Some (- EAGAIN, [], dev)
     else
       let k = min (length (resp_contents dev)) (unat (ucast (count div 4) :: u32));
           wrapped = unat (dev_resp_mask dev + 1) < unat (dev_resp_tail dev) + k
       in if okA \<and> (wrapped \<longrightarrow> okB)
          then \<exists>dev'. kllm_read w okA okB nonblock count dev =
              Some (4 * int k, take k (resp_contents dev), dev') \<and>
            resp_wf dev' \<and> resp_contents dev' = drop k (resp_contents dev)
          else kllm_read w okA okB nonblock count dev = Some (- EFAULT,
            if okA then take (unat (dev_resp_mask dev + 1) - unat (dev_resp_tail dev)) (resp_contents dev) else [], dev)"
proof (cases "count < 4")
  case True
  then have "count AND NOT 3 = 0" unfolding align_u32_zero .
  with True show ?thesis by (simp add: kllm_read_def)
next
  case False
  then have nz: "count AND NOT 3 \<noteq> 0" unfolding align_u32_zero .
  show ?thesis
  proof (cases "resp_contents dev = []")
    case True
    then have "resp_ring_count dev = 0" using unat_resp_count[of dev] by (simp add: unat_eq_0)
    with nz False True show ?thesis by (simp add: kllm_read_def Let_def)
  next
    case ne: False
    then have c: "resp_ring_count dev \<noteq> 0"
      using unat_resp_count[of dev] by (auto simp: unat_eq_0[symmetric] simp del: unat_eq_0)
    define k where "k = min (length (resp_contents dev)) (unat (ucast (count div 4) :: u32))"
    let ?pl = "plan_len (read_plan dev (count AND NOT 3))"
    have k: "unat ?pl = k" using read_plan_len[OF assms, of "count AND NOT 3"] unfolding align_u32 k_def .
    then have "unat ?pl \<le> length (resp_contents dev)" by (simp add: k_def)
    note commit = read_commit_drops[OF assms this, unfolded k]
    have u: "4 * uint ?pl = 4 * int k" using k by (simp add: uint_nat)
    have rd: "kllm_read w okA okB nonblock count dev =
        (if okA \<and> (unat (dev_resp_mask dev + 1) < unat (dev_resp_tail dev) + k \<longrightarrow> okB)
         then Some (4 * int k, take k (resp_contents dev), read_commit dev ?pl)
         else Some (- EFAULT, if okA then take (unat (dev_resp_mask dev + 1) - unat (dev_resp_tail dev)) (resp_contents dev)
           else [], dev))"
      using nz c u read_copy_cases[OF assms, of okA okB "count AND NOT 3", unfolded k]
      by (auto simp: kllm_read_def Let_def)
    show ?thesis unfolding k_def[symmetric] Let_def rd using False ne commit(1,2) by auto
  qed
qed

theorem kllm_read_correct_witness:
  "resp_wf sample_dev \<and>
   (\<exists>dev'. kllm_read (\<lambda>d. (0, d)) True True False 4 sample_dev = Some (4, [10], dev') \<and>
     resp_contents dev' = [11]) \<and>
   kllm_read (\<lambda>d. (0, d)) True False False 8 sample_dev = Some (- EFAULT, [10], sample_dev)"
proof -
  have t: "dev_resp_tail sample_dev = 3" "dev_resp_mask sample_dev = 3" by (simp_all add: sample_dev_def)
  show ?thesis
    using sample_dev_wf kllm_read_correct
        [OF sample_dev_wf, where count = 4 and w = "\<lambda>d. (0, d)" and nonblock = False and okA = True and okB = True]
      kllm_read_correct
        [OF sample_dev_wf, where count = 8 and w = "\<lambda>d. (0, d)" and nonblock = False and okA = True and okB = False]
    by (auto simp: sample_dev_contents Let_def t)
qed

text \<open>
  C32: a reader never sees end of file. For every request of at least four bytes (and less than
  16 GiB), whether the read blocks or not and whichever copy fails, \<open>read()\<close> returns a negative
  error or a positive byte count, never 0. End of sequence is therefore visible only as the
  in-band sentinel token. The hypothesis on \<open>w\<close> is the documented contract of
  \<open>wait_event_interruptible\<close>: a negative error, or 0 with the awaited condition true.
\<close>

theorem kllm_read_never_eof:
  assumes "resp_wf dev" and "4 \<le> count" and "count < 2 ^ 34"
    and "fst (w dev) < 0 \<or> fst (w dev) = 0 \<and> resp_wf (snd (w dev)) \<and> resp_contents (snd (w dev)) \<noteq> []"
  shows "\<exists>ret xs dev'. kllm_read w ok1 ok2 nonblock count dev = Some (ret, xs, dev') \<and> ret \<noteq> 0"
proof -
  define c where "c = count AND NOT 3"
  have nz: "c \<noteq> 0"
    using assms(2) align_u32_zero[of count] by (simp only: c_def not_less)
  have quarter: "c div 4 = count div 4" by (simp only: c_def align_u32)
  have "unat (count div 4) < 2 ^ 32" "0 < unat (count div 4)"
    using assms(2,3) by (simp_all add: unat_div word_less_nat_alt word_le_nat_alt div_greater_zero_iff)
  then have pos: "0 < unat (ucast (count div 4) :: u32)"
    by (simp add: unsigned_ucast_eq take_bit_nat_eq_self)
  have fin: "\<exists>ret xs dev'. (do {
        (ok, xs) \<leftarrow> read_copy ok1 ok2 d (read_plan d c);
        if \<not> ok then Some (- EFAULT, xs, d)
        else Some (4 * uint (plan_len (read_plan d c)), xs,
          read_commit d (plan_len (read_plan d c))) }) = Some (ret, xs, dev') \<and> ret \<noteq> 0"
    if wfd: "resp_wf d" and ned: "resp_contents d \<noteq> []" for d
  proof -
    have "unat (plan_len (read_plan d c)) \<noteq> 0"
      using ned pos read_plan_len[OF wfd, of c] unfolding quarter
      by (simp only: min_def) (auto split: if_splits)
    then have "plan_len (read_plan d c) \<noteq> 0" by auto
    then have "4 * uint (plan_len (read_plan d c)) \<noteq> 0" by (simp add: uint_0_iff)
    moreover obtain ok ys where "read_copy ok1 ok2 d (read_plan d c) = Some (ok, ys)"
      using read_copy_total[OF read_copy_window[OF wfd]] by blast
    ultimately show ?thesis by (auto simp: EFAULT_def)
  qed
  show ?thesis
  proof (cases "resp_ring_count dev = 0")
    case True
    obtain ret d where w: "w dev = (ret, d)" by fastforce
    show ?thesis
    proof (cases "ret = 0")
      case z: True
      with assms(4) w have "resp_wf d" "resp_contents d \<noteq> []" by auto
      from fin[OF this] True w z nz show ?thesis
        unfolding kllm_read_def c_def[symmetric] by (auto simp: Let_def EAGAIN_def)
    next
      case False
      with True w nz show ?thesis
        unfolding kllm_read_def c_def[symmetric] by (auto simp: Let_def EAGAIN_def)
    qed
  next
    case False
    then have "resp_contents dev \<noteq> []" using unat_resp_count[of dev] by (auto simp: unat_eq_0)
    from fin[OF assms(1) this] False nz show ?thesis
      unfolding kllm_read_def c_def[symmetric] by (auto simp: Let_def)
  qed
qed

theorem kllm_read_never_eof_witness:
  "resp_wf sample_dev \<and> (4::u64) \<le> 8 \<and> (8::u64) < 2 ^ 34 \<and>
   (\<exists>ret xs dev'. kllm_read (\<lambda>d. (0, d)) True False False 8 sample_dev = Some (ret, xs, dev') \<and> ret \<noteq> 0)"
proof -
  have "fst (0 :: int, sample_dev) < 0 \<or> fst (0 :: int, sample_dev) = 0 \<and>
      resp_wf (snd (0 :: int, sample_dev)) \<and> resp_contents (snd (0 :: int, sample_dev)) \<noteq> []"
    using sample_dev_wf by (simp add: sample_dev_contents)
  then show ?thesis
    using kllm_read_never_eof[OF sample_dev_wf, of 8 "\<lambda>d. (0, d)" True False False] sample_dev_wf by simp
qed

text \<open>
  \<open>mmap()\<close> accepts exactly the mappings of at most 2 MiB at offset 0, and an accepted
  mapping keeps whatever write permission it came with: the flags it adds never clear
  \<open>VM_WRITE\<close>, so the comment that writable mappings are not allowed is not enforced.
\<close>

theorem kllm_mmap_permissions:
  "fst (kllm_mmap remap vma) =
     (if vm_end vma - vm_start vma \<le> 2097152 \<and> vm_pgoff vma = 0 then remap else - EINVAL) \<and>
   vm_flags (snd (kllm_mmap remap vma)) AND VM_WRITE = vm_flags vma AND VM_WRITE"
proof -
  have "(f OR (VM_DONTEXPAND OR VM_DONTDUMP)) AND VM_WRITE = f AND VM_WRITE" for f
  proof -
    have "(VM_DONTEXPAND OR VM_DONTDUMP) AND VM_WRITE = 0"
      by (simp add: VM_DONTEXPAND_def VM_DONTDUMP_def VM_WRITE_def)
    then show ?thesis by (simp add: bit.conj_disj_distrib2)
  qed
  then show ?thesis by (auto simp: kllm_mmap_def Let_def KLLM_RING_BYTES_def)
qed



end
