(* ===== verification/Resp_Concurrency.thy ===== *)
theory Resp_Concurrency
  imports Chardev
begin

text \<open>
  Interleavings of \<open>kllm_read\<close> with itself and with \<open>kllm_resp_produce\<close>
  (\<open>kernel/chardev/llm_prompt.c\<close>). The producer runs under the lock and is one step. A reader
  holds the lock while it plans and while it advances the tail, and drops it for the copy, so
  its steps are: plan, evaluate the source address of the copy, copy one token after the
  other, advance the tail. \<open>R\<close> is the set of threads that read.
\<close>

datatype reader_pc =
    RIdle
  | RPlanned copy_plan
  | RCopying copy_plan u32 "u32 list"

record rsys =
  rs_dev :: kllm_device
  rs_pc :: "nat \<Rightarrow> reader_pc"
  rs_accepted :: "u32 list"
  rs_delivered :: "u32 list"

text \<open>The ring cell from which the \<open>k\<close>-th token of a plan is copied.\<close>

fun plan_cell :: "copy_plan \<Rightarrow> nat \<Rightarrow> nat \<Rightarrow> nat" where
  "plan_cell (Straight n) base k = base + k"
| "plan_cell (Wrapped f s) base k = (if k < unat f then base + k else k - unat f)"

inductive rstep :: "nat set \<Rightarrow> rsys \<Rightarrow> rsys \<Rightarrow> bool" for R where
  rs_produce: "kllm_resp_produce (rs_dev s) x = Some dev' \<Longrightarrow>
     rstep R s (s\<lparr>rs_dev := dev',
       rs_accepted := rs_accepted s @ (if resp_ring_space (rs_dev s) > 0 then [x] else [])\<rparr>)"
| rs_plan: "i \<in> R \<Longrightarrow> rs_pc s i = RIdle \<Longrightarrow>
     rstep R s (s\<lparr>rs_pc := (rs_pc s)(i := RPlanned (read_plan (rs_dev s) count))\<rparr>)"
| rs_start: "i \<in> R \<Longrightarrow> rs_pc s i = RPlanned p \<Longrightarrow>
     rstep R s (s\<lparr>rs_pc := (rs_pc s)(i := RCopying p (dev_resp_tail (rs_dev s)) [])\<rparr>)"
| rs_copy: "i \<in> R \<Longrightarrow> rs_pc s i = RCopying p base xs \<Longrightarrow> length xs < unat (plan_len p) \<Longrightarrow>
     dev_resp_ring (rs_dev s) = Some ring \<Longrightarrow>
     arr_get ring (plan_cell p (unat base) (length xs)) = Some x \<Longrightarrow>
     rstep R s (s\<lparr>rs_pc := (rs_pc s)(i := RCopying p base (xs @ [x]))\<rparr>)"
| rs_fail: "i \<in> R \<Longrightarrow> rs_pc s i = RCopying p base xs \<Longrightarrow>
     rstep R s (s\<lparr>rs_pc := (rs_pc s)(i := RIdle)\<rparr>)"
| rs_commit: "i \<in> R \<Longrightarrow> rs_pc s i = RCopying p base xs \<Longrightarrow> length xs = unat (plan_len p) \<Longrightarrow>
     rstep R s (s\<lparr>rs_dev := read_commit (rs_dev s) (plan_len p),
       rs_pc := (rs_pc s)(i := RIdle), rs_delivered := rs_delivered s @ xs\<rparr>)"

definition rsys_init :: "kllm_device \<Rightarrow> rsys" where
  "rsys_init dev = \<lparr>rs_dev = dev, rs_pc = (\<lambda>_. RIdle), rs_accepted = [], rs_delivered = []\<rparr>"

inductive rreach :: "nat set \<Rightarrow> kllm_device \<Rightarrow> rsys \<Rightarrow> bool" for R dev where
  rr_init: "rreach R dev (rsys_init dev)"
| rr_step: "rreach R dev s \<Longrightarrow> rstep R s t \<Longrightarrow> rreach R dev t"

section \<open>One reader\<close>

definition plan_ok :: "kllm_device \<Rightarrow> copy_plan \<Rightarrow> bool" where
  "plan_ok dev p \<longleftrightarrow> unat (plan_len p) \<le> length (resp_contents dev) \<and>
     (\<forall>k < unat (plan_len p). plan_cell p (unat (dev_resp_tail dev)) k =
        (unat (dev_resp_tail dev) + k) mod unat (dev_resp_mask dev + 1))"

definition pc_ok :: "kllm_device \<Rightarrow> reader_pc \<Rightarrow> bool" where
  "pc_ok dev pc = (case pc of
      RIdle \<Rightarrow> True
    | RPlanned p \<Rightarrow> plan_ok dev p
    | RCopying p base xs \<Rightarrow> plan_ok dev p \<and> base = dev_resp_tail dev \<and>
        length xs \<le> unat (plan_len p) \<and> xs = take (length xs) (resp_contents dev))"

definition one_reader_inv :: "nat \<Rightarrow> rsys \<Rightarrow> bool" where
  "one_reader_inv r s \<longleftrightarrow> resp_wf (rs_dev s) \<and> pc_ok (rs_dev s) (rs_pc s r) \<and>
     rs_delivered s @ resp_contents (rs_dev s) = rs_accepted s"

lemma contents_nth:
  assumes "resp_wf dev" and "dev_resp_ring dev = Some ring" and "k < length (resp_contents dev)"
  shows "resp_contents dev ! k = ring ! ((unat (dev_resp_tail dev) + k) mod unat (dev_resp_mask dev + 1))"
  using assms by (simp add: resp_contents_def ring_contents_def) (simp add: resp_view_def)

lemma read_plan_ok:
  assumes "resp_wf dev"
  shows "plan_ok dev (read_plan dev count)"
proof -
  let ?n = "unat (dev_resp_mask dev + 1)" and ?t = "unat (dev_resp_tail dev)"
  define tc where "tc = min (resp_ring_count dev) (ucast (count div 4))"
  note B = resp_no_wrap[OF assms]
  have c: "unat tc \<le> length (resp_contents dev)"
    by (simp add: tc_def unat_resp_count[symmetric] min_def word_le_nat_alt)
  have sum: "unat (dev_resp_tail dev + tc) = ?t + unat tc"
    using B c by (simp add: unat_word_ariths)
  show ?thesis
  proof (cases "?t + unat tc \<le> ?n")
    case True
    then have "read_plan dev count = Straight tc"
      using sum by (simp add: read_plan_def Let_def tc_def word_le_nat_alt)
    with True c show ?thesis by (simp add: plan_ok_def)
  next
    case False
    define f where "f = dev_resp_mask dev + 1 - dev_resp_tail dev"
    have f: "unat f = ?n - ?t" using B(1) by (simp add: f_def unat_sub word_le_nat_alt)
    have p: "read_plan dev count = Wrapped f (tc - f)"
      using False sum by (simp add: read_plan_def Let_def tc_def f_def word_le_nat_alt)
    have "plan_cell (Wrapped f (tc - f)) ?t k = (?t + k) mod ?n" if "k < unat tc" for k
    proof (cases "k < ?n - ?t")
      case False
      then have "?n \<le> ?t + k" and "?t + k - ?n < ?n" using that c B by simp_all
      then have "(?t + k) mod ?n = ?t + k - ?n" by (simp add: le_mod_geq)
      with False f B(1) show ?thesis by simp
    qed (use f in simp)
    with p c show ?thesis by (simp add: plan_ok_def)
  qed
qed

lemma produce_keeps_pc:
  assumes "resp_contents dev' = resp_contents dev @ ys" and "dev_resp_tail dev' = dev_resp_tail dev"
    and "dev_resp_mask dev' = dev_resp_mask dev" and "pc_ok dev pc"
  shows "pc_ok dev' pc"
  using assms by (auto simp: pc_ok_def plan_ok_def split: reader_pc.splits)

lemma space_room:
  assumes "resp_wf dev"
  shows "resp_ring_space dev > 0 \<longleftrightarrow> resp_room dev \<noteq> 0"
  using unat_ring_free[of "resp_view dev"] assms
  by (simp add: resp_wf_def resp_room_def resp_space_view word_gt_0 unat_eq_0[symmetric] del: unat_eq_0)

lemma rstep_one_reader:
  assumes "rstep {r} s t" and "one_reader_inv r s"
  shows "one_reader_inv r t"
  using assms
proof (induction rule: rstep.induct)
  case (rs_produce s x dev')
  then have wf: "resp_wf (rs_dev s)" and pc: "pc_ok (rs_dev s) (rs_pc s r)"
    by (simp_all add: one_reader_inv_def)
  from resp_put_spec[OF wf, of x] resp_produce_view[OF wf, of x] rs_produce(1)
  have d: "resp_wf dev'" "resp_contents dev' = resp_contents (rs_dev s) @
      (if resp_room (rs_dev s) = 0 then [] else [x])"
    "dev_resp_tail dev' = dev_resp_tail (rs_dev s)" "dev_resp_mask dev' = dev_resp_mask (rs_dev s)"
    by auto
  have "pc_ok dev' (rs_pc s r)" using d(2-4) pc by (rule produce_keeps_pc)
  with d rs_produce show ?case by (auto simp: one_reader_inv_def space_room[OF wf])
next
  case (rs_plan i s count)
  then show ?case by (auto simp: one_reader_inv_def pc_ok_def read_plan_ok)
next
  case (rs_start i s p)
  then show ?case by (auto simp: one_reader_inv_def pc_ok_def)
next
  case (rs_copy i s p base xs ring x)
  then have wf: "resp_wf (rs_dev s)" and k: "length xs < length (resp_contents (rs_dev s))"
    and cell: "x = ring ! ((unat (dev_resp_tail (rs_dev s)) + length xs) mod unat (dev_resp_mask (rs_dev s) + 1))"
    by (auto simp: one_reader_inv_def pc_ok_def plan_ok_def dest!: arr_get_SomeD)
  have "x = resp_contents (rs_dev s) ! length xs"
    using contents_nth[OF wf rs_copy(4) k] cell by simp
  with k rs_copy show ?case
    by (auto simp: one_reader_inv_def pc_ok_def take_Suc_conv_app_nth)
next
  case (rs_fail i s p base xs)
  then show ?case by (auto simp: one_reader_inv_def pc_ok_def)
next
  case (rs_commit i s p base xs)
  then have wf: "resp_wf (rs_dev s)" and len: "unat (plan_len p) \<le> length (resp_contents (rs_dev s))"
    and xs: "xs = take (unat (plan_len p)) (resp_contents (rs_dev s))"
    by (auto simp: one_reader_inv_def pc_ok_def plan_ok_def)
  have "rs_delivered s @ xs @ drop (unat (plan_len p)) (resp_contents (rs_dev s)) = rs_accepted s"
    using rs_commit xs by (simp add: one_reader_inv_def)
  with rs_commit read_commit_drops[OF wf len] show ?case
    by (simp add: one_reader_inv_def pc_ok_def)
qed

lemma one_reader_reachable:
  assumes "rreach {r} dev s" and "resp_wf dev" and "resp_contents dev = []"
  shows "one_reader_inv r s"
  using assms
proof (induction rule: rreach.induct)
  case rr_init
  then show ?case by (simp add: one_reader_inv_def rsys_init_def pc_ok_def)
next
  case (rr_step s t)
  then show ?case using rstep_one_reader by blast
qed

section \<open>Scheduled runs\<close>

text \<open>A schedule names the thread that moves next; running one gives a reachable state.\<close>

datatype ract = AProduce u32 | APlan nat u64 | AStart nat | ACopy nat | ACommit nat

fun exec_act :: "ract \<Rightarrow> rsys \<Rightarrow> rsys option" where
  "exec_act (AProduce x) s = do {
     dev' \<leftarrow> kllm_resp_produce (rs_dev s) x;
     Some (s\<lparr>rs_dev := dev',
       rs_accepted := rs_accepted s @ (if resp_ring_space (rs_dev s) > 0 then [x] else [])\<rparr>) }"
| "exec_act (APlan i count) s = (case rs_pc s i of
     RIdle \<Rightarrow> Some (s\<lparr>rs_pc := (rs_pc s)(i := RPlanned (read_plan (rs_dev s) count))\<rparr>)
   | _ \<Rightarrow> None)"
| "exec_act (AStart i) s = (case rs_pc s i of
     RPlanned p \<Rightarrow> Some (s\<lparr>rs_pc := (rs_pc s)(i := RCopying p (dev_resp_tail (rs_dev s)) [])\<rparr>)
   | _ \<Rightarrow> None)"
| "exec_act (ACopy i) s = (case rs_pc s i of
     RCopying p base xs \<Rightarrow> if length xs < unat (plan_len p) then do {
       ring \<leftarrow> dev_resp_ring (rs_dev s);
       x \<leftarrow> arr_get ring (plan_cell p (unat base) (length xs));
       Some (s\<lparr>rs_pc := (rs_pc s)(i := RCopying p base (xs @ [x]))\<rparr>) } else None
   | _ \<Rightarrow> None)"
| "exec_act (ACommit i) s = (case rs_pc s i of
     RCopying p base xs \<Rightarrow> if length xs = unat (plan_len p) then
       Some (s\<lparr>rs_dev := read_commit (rs_dev s) (plan_len p),
         rs_pc := (rs_pc s)(i := RIdle), rs_delivered := rs_delivered s @ xs\<rparr>) else None
   | _ \<Rightarrow> None)"

fun act_reader :: "ract \<Rightarrow> nat set" where
  "act_reader (AProduce x) = {}"
| "act_reader (APlan i c) = {i}"
| "act_reader (AStart i) = {i}"
| "act_reader (ACopy i) = {i}"
| "act_reader (ACommit i) = {i}"

lemma exec_act_rstep:
  assumes "exec_act a s = Some t" and "act_reader a \<subseteq> R"
  shows "rstep R s t"
proof (cases a)
  case (AProduce x)
  with assms obtain dev' where "kllm_resp_produce (rs_dev s) x = Some dev'"
    and "t = s\<lparr>rs_dev := dev',
      rs_accepted := rs_accepted s @ (if resp_ring_space (rs_dev s) > 0 then [x] else [])\<rparr>"
    by (auto split: bind_splits simp del: append_Nil2)
  then show ?thesis using rs_produce by blast
qed (use assms in \<open>auto intro: rstep.intros split: reader_pc.splits if_splits bind_splits
      simp del: fun_upd_apply\<close>)

fun exec_acts :: "ract list \<Rightarrow> rsys \<Rightarrow> rsys option" where
  "exec_acts [] s = Some s"
| "exec_acts (a # as) s = exec_act a s \<bind> exec_acts as"

lemma exec_acts_rreach:
  assumes "exec_acts as s = Some t" and "rreach R dev s" and "(\<Union>a \<in> set as. act_reader a) \<subseteq> R"
  shows "rreach R dev t"
  using assms
proof (induction as arbitrary: s)
  case (Cons a as)
  then obtain u where u: "exec_act a s = Some u" "exec_acts as u = Some t"
    by (auto split: bind_splits)
  have "rreach R dev u"
    using Cons.prems by (intro rr_step[OF _ exec_act_rstep[OF u(1)]]) auto
  with Cons u show ?case by simp
qed simp

definition four_cells :: kllm_device where
  "four_cells = kllm_dev0\<lparr>dev_resp_ring := Some [0, 0, 0, 0], dev_resp_mask := 3\<rparr>"

definition one_read :: "ract list" where
  "one_read = [AProduce 10, APlan 0 8, AStart 0, AProduce 11, ACopy 0, ACommit 0]"

definition two_reads :: "ract list" where
  "two_reads = [AProduce 10, APlan 0 4, APlan 1 4, AStart 0, AStart 1, ACopy 0, ACopy 1,
     ACommit 0, ACommit 1]"

lemma four_cells_wf: "resp_wf four_cells" "resp_contents four_cells = []"
  by (simp add: resp_wf_def resp_view_def ring_wf_def pow2_def four_cells_def kllm_dev0_def)
    code_simp

section \<open>Properties\<close>

text \<open>C3: with a single reading thread, in every interleaving of \<open>kllm_read\<close> with the
  response producer, whose copy runs without the lock and token by token, the tokens the
  reads have delivered followed by the tokens still in the ring are exactly the tokens the
  producer stored, in order: none is lost, duplicated or torn by a concurrent wrap.\<close>

theorem single_reader_fifo:
  assumes "resp_wf dev" and "resp_contents dev = []" and "rreach {r} dev s"
  shows "rs_delivered s @ resp_contents (rs_dev s) = rs_accepted s"
  using one_reader_reachable[OF assms(3,1,2)] by (simp add: one_reader_inv_def)

theorem single_reader_fifo_witness:
  "\<exists>s. rreach {0} four_cells s \<and> rs_delivered s = [10] \<and> rs_accepted s = [10, 11] \<and>
     resp_contents (rs_dev s) = [11]"
proof -
  have "map_option (\<lambda>s. (rs_delivered s, rs_accepted s)) (exec_acts one_read (rsys_init four_cells)) =
      Some ([10], [10, 11])"
    by code_simp
  then obtain s where s: "exec_acts one_read (rsys_init four_cells) = Some s"
    "rs_delivered s = [10]" "rs_accepted s = [10, 11]" by auto
  have r: "rreach {0} four_cells s"
    by (rule exec_acts_rreach[OF s(1) rr_init]) (simp add: one_read_def)
  from single_reader_fifo[OF four_cells_wf r] s r show ?thesis by auto
qed

text \<open>C34: two threads reading the same device break the queue. Both may plan on the same tail
  while the lock is dropped for the copy: from the empty ring there is an interleaving after
  which one accepted token has been delivered twice and the tail has moved past the head, so
  that the device reports \<open>resp_mask\<close> waiting tokens that nobody produced.\<close>

theorem two_readers_duplicate:
  "\<exists>s. rreach {0, 1} four_cells s \<and> rs_accepted s = [10] \<and> rs_delivered s = [10, 10] \<and>
     resp_ring_count (rs_dev s) = 3"
proof -
  have "map_option (\<lambda>s. (rs_accepted s, rs_delivered s, resp_ring_count (rs_dev s)))
      (exec_acts two_reads (rsys_init four_cells)) = Some ([10], [10, 10], 3)"
    by code_simp
  then obtain s where s: "exec_acts two_reads (rsys_init four_cells) = Some s"
    "rs_accepted s = [10]" "rs_delivered s = [10, 10]" "resp_ring_count (rs_dev s) = 3" by auto
  have "rreach {0, 1} four_cells s"
    by (rule exec_acts_rreach[OF s(1) rr_init]) (simp add: two_reads_def)
  with s show ?thesis by blast
qed

end
