(* ===== verification/Block_Format.thy ===== *)
theory Block_Format
  imports Kllm_Prelude
begin

text \<open>
  The layout of a KV-cache block (\<open>userspace/kvcache/block_format.h\<close>): header, then for every
  layer its K and its V tensor in BF16, then one FP8 scale per eight elements. All sizes are
  computed in 64-bit unsigned arithmetic, so each function is proved equal to its exact value
  for the configurations whose exact block size fits 64 bits.
\<close>

section \<open>The size and accessor functions\<close>

record kllm_model_config =
  num_layers :: u32
  num_kv_heads :: u32
  head_dim :: u32
  tokens_per_block :: u32

text \<open>
  \<open>struct kllm_block_hdr\<close>: the 120 bytes of its fields, rounded up to its alignment of 64.
\<close>

definition block_hdr_fields :: "nat list" where
  "block_hdr_fields = [4, 4, 4, 4, 32, 4, 4, 4, 4, 8, 4, 4, 4, 4, 32]"

definition sizeof_block_hdr :: u64 where
  "sizeof_block_hdr = of_nat ((sum_list block_hdr_fields + 63) div 64 * 64)"

definition elems_per_layer :: "kllm_model_config \<Rightarrow> u64" where
  "elems_per_layer cfg = ucast (tokens_per_block cfg) * ucast (num_kv_heads cfg) * ucast (head_dim cfg)"

definition kllm_block_kv_bytes :: "kllm_model_config \<Rightarrow> u64" where
  "kllm_block_kv_bytes cfg = ucast (num_layers cfg) * elems_per_layer cfg * 2 * 2"

definition kllm_block_scale_bytes :: "kllm_model_config \<Rightarrow> u64" where
  "kllm_block_scale_bytes cfg =
    (let total_elems = ucast (num_layers cfg) * ucast (tokens_per_block cfg) *
       ucast (num_kv_heads cfg) * ucast (head_dim cfg) * 2
     in (total_elems + 7) div 8)"

definition kllm_block_total_bytes :: "kllm_model_config \<Rightarrow> u64" where
  "kllm_block_total_bytes cfg =
    sizeof_block_hdr + kllm_block_kv_bytes cfg + kllm_block_scale_bytes cfg"

definition kllm_block_key :: "u64 \<Rightarrow> kllm_model_config \<Rightarrow> u32 \<Rightarrow> u64" where
  "kllm_block_key block cfg layer =
    (let data = block + sizeof_block_hdr;
         layer_stride = elems_per_layer cfg * 2 * 2
     in data + ucast layer * layer_stride)"

definition kllm_block_value :: "u64 \<Rightarrow> kllm_model_config \<Rightarrow> u32 \<Rightarrow> u64" where
  "kllm_block_value block cfg layer =
    (let data = block + sizeof_block_hdr;
         layer_stride = elems_per_layer cfg * 2 * 2;
         k_size = elems_per_layer cfg * 2
     in data + ucast layer * layer_stride + k_size)"

section \<open>Exact sizes\<close>

definition elems_exact :: "kllm_model_config \<Rightarrow> nat" where
  "elems_exact cfg = unat (tokens_per_block cfg) * unat (num_kv_heads cfg) * unat (head_dim cfg)"

definition kv_exact :: "kllm_model_config \<Rightarrow> nat" where
  "kv_exact cfg = unat (num_layers cfg) * elems_exact cfg * 4"

definition scale_exact :: "kllm_model_config \<Rightarrow> nat" where
  "scale_exact cfg = (unat (num_layers cfg) * elems_exact cfg * 2 + 7) div 8"

definition total_exact :: "kllm_model_config \<Rightarrow> nat" where
  "total_exact cfg = 128 + kv_exact cfg + scale_exact cfg"

lemma sizeof_block_hdr_128 [simp]: "sizeof_block_hdr = 128"
  by (simp add: sizeof_block_hdr_def block_hdr_fields_def)

lemma ucast_of_nat_unat: "(ucast (x :: u32) :: u64) = of_nat (unat x)"
  by (simp add: of_nat_unat)

lemma unat_of_nat64: "n < 2 ^ 64 \<Longrightarrow> unat (of_nat n :: u64) = n"
  by (simp add: unsigned_of_nat take_bit_nat_eq_self)

lemma elems_per_layer_exact: "elems_per_layer cfg = of_nat (elems_exact cfg)"
  by (simp add: elems_per_layer_def elems_exact_def ucast_of_nat_unat del: of_nat_unat)

lemma kv_bytes_of_nat: "kllm_block_kv_bytes cfg = of_nat (kv_exact cfg)"
  by (simp add: kllm_block_kv_bytes_def kv_exact_def elems_per_layer_exact ucast_of_nat_unat
      del: of_nat_unat)

lemma block_key_of_nat:
  "kllm_block_key block cfg layer = of_nat (unat block + 128 + unat layer * (elems_exact cfg * 4))"
  by (simp add: kllm_block_key_def elems_per_layer_exact ucast_of_nat_unat[of layer] del: of_nat_unat)
     (simp add: of_nat_unat_id)

lemma block_value_of_nat:
  "kllm_block_value block cfg layer =
     of_nat (unat block + 128 + unat layer * (elems_exact cfg * 4) + elems_exact cfg * 2)"
  by (simp add: kllm_block_value_def elems_per_layer_exact ucast_of_nat_unat[of layer] del: of_nat_unat)
     (simp add: of_nat_unat_id)

lemma scale_bytes_exact:
  assumes "total_exact cfg < 2 ^ 64"
  shows "unat (kllm_block_scale_bytes cfg) = scale_exact cfg"
proof -
  let ?n = "unat (num_layers cfg) * elems_exact cfg * 2 + 7"
  have "kllm_block_scale_bytes cfg = of_nat ?n div 8"
    by (simp add: kllm_block_scale_bytes_def elems_exact_def ucast_of_nat_unat mult.assoc
        del: of_nat_unat)
  moreover have "?n < 2 ^ 64"
    using assms by (simp add: total_exact_def kv_exact_def)
  ultimately show ?thesis by (simp only: unat_div unat_of_nat64 scale_exact_def) simp
qed

lemma total_bytes_exact:
  assumes "total_exact cfg < 2 ^ 64"
  shows "unat (kllm_block_total_bytes cfg) = total_exact cfg"
proof -
  have kv: "unat (kllm_block_kv_bytes cfg) = kv_exact cfg"
    using assms by (simp add: kv_bytes_of_nat unat_of_nat64 total_exact_def)
  show ?thesis
    using assms
    by (simp add: kllm_block_total_bytes_def total_exact_def unat_word_ariths kv scale_bytes_exact)
qed

section \<open>The tensors of a block\<close>

text \<open>Byte ranges of the K and V tensors of a layer.\<close>

definition key_range :: "u64 \<Rightarrow> kllm_model_config \<Rightarrow> u32 \<Rightarrow> nat set" where
  "key_range block cfg l = {unat (kllm_block_key block cfg l) ..<
     unat (kllm_block_key block cfg l) + 2 * elems_exact cfg}"

definition value_range :: "u64 \<Rightarrow> kllm_model_config \<Rightarrow> u32 \<Rightarrow> nat set" where
  "value_range block cfg l = {unat (kllm_block_value block cfg l) ..<
     unat (kllm_block_value block cfg l) + 2 * elems_exact cfg}"

lemma layer_end:
  assumes "l < num_layers cfg"
  shows "unat l * (elems_exact cfg * 4) + elems_exact cfg * 4 \<le> kv_exact cfg"
proof -
  have "Suc (unat l) \<le> unat (num_layers cfg)" using assms by (simp add: word_less_nat_alt)
  then have "Suc (unat l) * (elems_exact cfg * 4) \<le> unat (num_layers cfg) * (elems_exact cfg * 4)"
    by (rule mult_le_mono1)
  then show ?thesis by (simp add: kv_exact_def algebra_simps)
qed

lemma key_value_unat:
  assumes "unat block + total_exact cfg < 2 ^ 64" and "l < num_layers cfg"
  shows "unat (kllm_block_key block cfg l) = unat block + 128 + unat l * (elems_exact cfg * 4)"
    and "unat (kllm_block_value block cfg l) =
      unat block + 128 + unat l * (elems_exact cfg * 4) + elems_exact cfg * 2"
proof -
  have "unat block + 128 + unat l * (elems_exact cfg * 4) + elems_exact cfg * 2 < 2 ^ 64"
    using layer_end[OF assms(2)] assms(1) by (simp add: total_exact_def)
  then show "unat (kllm_block_key block cfg l) = unat block + 128 + unat l * (elems_exact cfg * 4)"
    and "unat (kllm_block_value block cfg l) =
      unat block + 128 + unat l * (elems_exact cfg * 4) + elems_exact cfg * 2"
    by (simp_all only: block_key_of_nat block_value_of_nat unat_of_nat64)
qed

lemma layer_ranges:
  assumes "unat block + total_exact cfg < 2 ^ 64" and "l < num_layers cfg"
  shows "key_range block cfg l \<union> value_range block cfg l =
     {unat block + 128 + unat l * (elems_exact cfg * 4) ..<
      unat block + 128 + (unat l + 1) * (elems_exact cfg * 4)}"
    and "key_range block cfg l \<inter> value_range block cfg l = {}"
  by (auto simp: key_range_def value_range_def key_value_unat[OF assms] algebra_simps)

lemma multiple_ranges_disjoint:
  fixes a b c w :: nat
  assumes "a \<noteq> b"
  shows "{c + a * w ..< c + (a + 1) * w} \<inter> {c + b * w ..< c + (b + 1) * w} = {}"
proof -
  have "(a + 1) * w \<le> b * w \<or> (b + 1) * w \<le> a * w"
    using assms by (metis Suc_eq_plus1 Suc_leI mult_le_mono1 nat_neq_iff)
  then show ?thesis by auto
qed

lemma distinct_layers_disjoint:
  assumes "unat block + total_exact cfg < 2 ^ 64" and "l < num_layers cfg" and "m < num_layers cfg"
    and "l \<noteq> m"
  shows "(key_range block cfg l \<union> value_range block cfg l) \<inter>
     (key_range block cfg m \<union> value_range block cfg m) = {}"
  unfolding layer_ranges(1)[OF assms(1,2)] layer_ranges(1)[OF assms(1,3)]
  by (rule multiple_ranges_disjoint) (use assms(4) in \<open>simp add: unsigned_word_eqI word_unat_eq_iff\<close>)

section \<open>Properties\<close>

text \<open>C16: the tensors of a block do not overlap: for every configuration whose block fits
  64-bit addressing, the K and V tensors of a layer lie side by side inside the area between
  header and scales, K before V, and the tensors of two layers are disjoint; the computed
  block size is header, tensors and scales with no wrap-around.\<close>

theorem block_tensors_disjoint:
  assumes "unat block + total_exact cfg < 2 ^ 64" and "l < num_layers cfg" and "m < num_layers cfg"
  shows "key_range block cfg l \<inter> value_range block cfg m = {} \<and>
    (l \<noteq> m \<longrightarrow> key_range block cfg l \<inter> key_range block cfg m = {} \<and>
              value_range block cfg l \<inter> value_range block cfg m = {}) \<and>
    key_range block cfg l \<union> value_range block cfg l \<subseteq>
      {unat block + 128 ..< unat block + unat (kllm_block_total_bytes cfg) - unat (kllm_block_scale_bytes cfg)} \<and>
    unat (kllm_block_total_bytes cfg) = total_exact cfg"
proof -
  have fits: "total_exact cfg < 2 ^ 64" using assms(1) by simp
  have "key_range block cfg l \<union> value_range block cfg l \<subseteq>
      {unat block + 128 ..< unat block + total_exact cfg - scale_exact cfg}"
    unfolding layer_ranges(1)[OF assms(1,2)] using layer_end[OF assms(2)]
    by (auto simp: total_exact_def algebra_simps)
  moreover have "key_range block cfg l \<inter> value_range block cfg m = {}"
    using layer_ranges(2)[OF assms(1,2)] distinct_layers_disjoint[OF assms] by (cases "l = m") auto
  ultimately show ?thesis
    using distinct_layers_disjoint[OF assms]
    by (auto simp: total_bytes_exact[OF fits] scale_bytes_exact[OF fits])
qed

definition sample_model :: kllm_model_config where
  "sample_model = \<lparr>num_layers = 32, num_kv_heads = 8, head_dim = 128, tokens_per_block = 16\<rparr>"

theorem block_tensors_disjoint_witness:
  "key_range 4096 sample_model 3 \<inter> value_range 4096 sample_model 5 = {} \<and>
   unat (kllm_block_total_bytes sample_model) = 2228352"
  using block_tensors_disjoint[of 4096 sample_model 3 5]
  by (simp add: sample_model_def total_exact_def kv_exact_def scale_exact_def elems_exact_def)

end
