(* ===== verification/Slot_Spec.thy ===== *)
theory Slot_Spec
  imports Kllm_Prelude
begin

text \<open>
  What an allocator of numbered slots promises: it hands out the lowest free slot, fails
  exactly when none is free, and a released slot is free again. The client's view is the list
  of slots it holds; \<open>spec_slots\<close> is the reference allocator over that list alone.
\<close>

datatype slot_op = Take | Give nat

text \<open>\<open>Give k\<close> releases the \<open>k\<close>-th held slot, and does nothing when fewer are held.\<close>

definition unheld :: "nat \<Rightarrow> nat list \<Rightarrow> nat set" where
  "unheld n held = {..<n} - set held"

fun spec_step :: "nat \<Rightarrow> slot_op \<Rightarrow> nat list \<Rightarrow> nat list" where
  "spec_step n Take held = (if unheld n held = {} then held else held @ [Min (unheld n held)])"
| "spec_step n (Give k) held = take k held @ drop (Suc k) held"

definition spec_slots :: "nat \<Rightarrow> slot_op list \<Rightarrow> nat list \<Rightarrow> nat list" where
  "spec_slots n ops held = fold (spec_step n) ops held"

fun slot_step :: "('s \<Rightarrow> (nat option \<times> 's) option) \<Rightarrow> (nat \<Rightarrow> 's \<Rightarrow> 's option) \<Rightarrow>
    slot_op \<Rightarrow> nat list \<times> 's \<Rightarrow> (nat list \<times> 's) option" where
  "slot_step tk gv Take (held, s) = do {
     (r, s') \<leftarrow> tk s;
     Some (case r of None \<Rightarrow> held | Some i \<Rightarrow> held @ [i], s') }"
| "slot_step tk gv (Give k) (held, s) =
     (if k < length held
      then do { s' \<leftarrow> gv (held ! k) s; Some (take k held @ drop (Suc k) held, s') }
      else Some (held, s))"

fun slot_run :: "('s \<Rightarrow> (nat option \<times> 's) option) \<Rightarrow> (nat \<Rightarrow> 's \<Rightarrow> 's option) \<Rightarrow>
    slot_op list \<Rightarrow> nat list \<times> 's \<Rightarrow> (nat list \<times> 's) option" where
  "slot_run tk gv [] st = Some st"
| "slot_run tk gv (p # ps) st = slot_step tk gv p st \<bind> slot_run tk gv ps"

lemma spec_step_good:
  assumes "distinct held" and "set held \<subseteq> {..<n}"
  shows "distinct (spec_step n p held) \<and> set (spec_step n p held) \<subseteq> {..<n}"
proof (cases p)
  case Take
  have "Min (unheld n held) \<in> unheld n held" if "unheld n held \<noteq> {}"
    using that by (intro Min_in) (simp_all add: unheld_def)
  with Take assms show ?thesis by (auto simp: unheld_def)
next
  case (Give k)
  have "distinct (take k held @ drop (Suc k) held)"
    using assms(1) by (auto simp: set_take_disj_set_drop_if_distinct dest: in_set_takeD in_set_dropD)
  moreover have "set (take k held @ drop (Suc k) held) \<subseteq> {..<n}"
    using assms(2) by (auto dest: in_set_takeD in_set_dropD)
  ultimately show ?thesis using Give by simp
qed

lemma set_drop_one:
  assumes "distinct held" and "k < length held"
  shows "set (take k held @ drop (Suc k) held) = set held - {held ! k}"
proof -
  have "held = take k held @ held ! k # drop (Suc k) held" using assms(2) by (rule id_take_nth_drop)
  then have "distinct (take k held @ held ! k # drop (Suc k) held)"
    and "set held = set (take k held @ held ! k # drop (Suc k) held)"
    using assms(1) by simp_all
  then show ?thesis by auto
qed

locale slot_allocator =
  fixes wf :: "'s \<Rightarrow> bool"
    and slots :: "'s \<Rightarrow> nat"
    and avail :: "'s \<Rightarrow> nat set"
    and tk :: "'s \<Rightarrow> (nat option \<times> 's) option"
    and gv :: "nat \<Rightarrow> 's \<Rightarrow> 's option"
  assumes avail_range: "wf s \<Longrightarrow> avail s \<subseteq> {..<slots s}"
    and take_full: "wf s \<Longrightarrow> avail s = {} \<Longrightarrow> tk s = Some (None, s)"
    and take_lowest: "wf s \<Longrightarrow> avail s \<noteq> {} \<Longrightarrow>
      \<exists>s'. tk s = Some (Some (Min (avail s)), s') \<and> wf s' \<and> slots s' = slots s \<and>
        avail s' = avail s - {Min (avail s)}"
    and give_back: "wf s \<Longrightarrow> i < slots s \<Longrightarrow> i \<notin> avail s \<Longrightarrow>
      \<exists>s'. gv i s = Some s' \<and> wf s' \<and> slots s' = slots s \<and> avail s' = insert i (avail s)"
begin

definition consistent :: "nat list \<Rightarrow> 's \<Rightarrow> bool" where
  "consistent held s \<longleftrightarrow> wf s \<and> distinct held \<and> set held \<subseteq> {..<slots s} \<and>
     avail s = unheld (slots s) held"

lemma step_refines:
  assumes "consistent held s"
  shows "\<exists>s'. slot_step tk gv p (held, s) = Some (spec_step (slots s) p held, s') \<and>
     slots s' = slots s \<and> consistent (spec_step (slots s) p held) s'"
proof (cases p)
  case Take
  note c = assms[unfolded consistent_def]
  show ?thesis
  proof (cases "avail s = {}")
    case True
    with Take c assms take_full[of s] show ?thesis by auto
  next
    case False
    with c take_lowest[of s] obtain s' where
      "tk s = Some (Some (Min (avail s)), s')" "wf s'" "slots s' = slots s"
      "avail s' = avail s - {Min (avail s)}" by blast
    moreover have "distinct (spec_step (slots s) p held) \<and> set (spec_step (slots s) p held) \<subseteq> {..<slots s}"
      using c by (intro spec_step_good) auto
    ultimately show ?thesis using Take c False
      by (auto simp: consistent_def unheld_def)
  qed
next
  case (Give k)
  note c = assms[unfolded consistent_def]
  have good: "distinct (spec_step (slots s) p held) \<and> set (spec_step (slots s) p held) \<subseteq> {..<slots s}"
    using c by (intro spec_step_good) auto
  show ?thesis
  proof (cases "k < length held")
    case True
    then have "held ! k \<in> set held" by simp
    with c have k: "held ! k < slots s" "held ! k \<notin> avail s"
      by (blast, simp add: unheld_def)
    obtain s' where s': "gv (held ! k) s = Some s'" "wf s'" "slots s' = slots s"
      "avail s' = insert (held ! k) (avail s)"
      using give_back[OF _ k] c by blast
    have "avail s' = unheld (slots s) (take k held @ drop (Suc k) held)"
      using s'(4) c k(1) set_drop_one[of held k] True by (auto simp: unheld_def)
    with Give True s' good show ?thesis by (simp add: consistent_def)
  next
    case False
    with Give assms show ?thesis by simp
  qed
qed

lemma run_refines_slots:
  assumes "consistent held s"
  shows "\<exists>s'. slot_run tk gv ops (held, s) = Some (spec_slots (slots s) ops held, s') \<and>
     slots s' = slots s \<and> consistent (spec_slots (slots s) ops held) s'"
  using assms
proof (induction ops arbitrary: held s)
  case (Cons p ps)
  from step_refines[OF Cons.prems, of p] obtain s1 where
    s1: "slot_step tk gv p (held, s) = Some (spec_step (slots s) p held, s1)" "slots s1 = slots s"
    "consistent (spec_step (slots s) p held) s1" by blast
  from Cons.IH[OF s1(3)] s1 show ?case by (simp add: spec_slots_def)
qed (simp add: spec_slots_def)

end

end
