(* ===== verification/Arena.thy ===== *)
theory Arena
  imports Block_Format Slot_Spec
begin

text \<open>
  The slab allocator of KV-cache blocks (\<open>userspace/kvcache/arena_alloc.c\<close>): a mapped region
  cut into equal slots and a bitmap with one bit per free slot. Pointers are 64-bit addresses,
  \<open>NULL\<close> is 0. \<open>mmap\<close> is a parameter (call number, length, flags), a failing \<open>calloc\<close> a
  boolean. Outer \<open>None\<close> is an access outside the bitmap, a division by zero or an undefined
  shift. \<open>kllm_arena_create\<close> and \<open>kllm_arena_destroy\<close> also return the resources they hold.
\<close>

section \<open>State\<close>

record kllm_arena_config =
  acfg_total_bytes :: u64
  acfg_hugepage_size_mb :: u32
  acfg_numa_node :: "32 word"
  acfg_model :: kllm_model_config

record kllm_arena_stats =
  st_total_slots :: u64
  st_used_slots :: u64
  st_alloc_count :: u64
  st_free_count :: u64
  st_eviction_count :: u64

record kllm_arena =
  ar_magic :: u32
  ar_base :: u64
  ar_region_bytes :: u64
  ar_slot_size :: u64
  ar_total_slots :: u64
  ar_numa_node :: "32 word"
  ar_bitmap :: "u64 list"
  ar_bitmap_words :: u64
  ar_hint :: u64
  ar_stats :: kllm_arena_stats
  ar_model :: kllm_model_config

datatype arena_res = ResArena | ResMap u64 u64 | ResBitmap

definition KLLM_ARENA_MAGIC :: u32 where
  "KLLM_ARENA_MAGIC = 0x41524E41"

section \<open>Creation and destruction\<close>

definition align_up :: "u64 \<Rightarrow> u64 \<Rightarrow> u64" where
  "align_up val align = (val + align - 1) AND NOT (align - 1)"

text \<open>\<open>MAP_PRIVATE | MAP_ANONYMOUS | MAP_POPULATE\<close>, and the huge-page bits of the two sizes.\<close>

definition MAP_PLAIN :: u32 where
  "MAP_PLAIN = 0x2 OR 0x20 OR 0x8000"

definition mmap_flags :: "kllm_arena_config \<Rightarrow> u32" where
  "mmap_flags cfg =
    (if acfg_hugepage_size_mb cfg = 1024 then MAP_PLAIN OR (0x40000 OR push_bit 26 30)
     else if acfg_hugepage_size_mb cfg = 2 then MAP_PLAIN OR (0x40000 OR push_bit 26 21)
     else MAP_PLAIN)"

definition map_region :: "(nat \<Rightarrow> u64 \<Rightarrow> u32 \<Rightarrow> u64 option) \<Rightarrow> kllm_arena_config \<Rightarrow> u64 option" where
  "map_region mmap cfg =
    (case mmap 0 (acfg_total_bytes cfg) (mmap_flags cfg) of
       Some base \<Rightarrow> Some base
     | None \<Rightarrow> mmap 1 (acfg_total_bytes cfg) MAP_PLAIN)"

fun fill_ones :: "nat list \<Rightarrow> u64 list \<Rightarrow> u64 list option" where
  "fill_ones [] bm = Some bm"
| "fill_ones (i # is) bm = arr_set bm i (NOT 0) \<bind> fill_ones is"

definition init_bitmap :: "u64 \<Rightarrow> u64 list option" where
  "init_bitmap total_slots =
    (let bitmap_bytes = align_up ((total_slots + 63) div 64 * 8) 64;
         bitmap_words = (total_slots + 63) div 64;
         remainder = total_slots mod 64
     in do {
       bm \<leftarrow> fill_ones [0 ..< unat bitmap_words] (replicate (unat bitmap_bytes div 8) 0);
       if remainder > 0
       then arr_set bm (unat (bitmap_words - 1)) (push_bit (unat remainder) 1 - 1)
       else Some bm })"

definition kllm_arena_create ::
  "bool \<Rightarrow> bool \<Rightarrow> (nat \<Rightarrow> u64 \<Rightarrow> u32 \<Rightarrow> u64 option) \<Rightarrow> kllm_arena_config \<Rightarrow>
    (kllm_arena option \<times> arena_res list) option" where
  "kllm_arena_create calloc_arena calloc_bitmap mmap cfg =
    (if \<not> calloc_arena then Some (None, []) else
     let slot_size = align_up (kllm_block_total_bytes (acfg_model cfg)) 4096 in
     if slot_size = 0 then None else
     let total_slots = acfg_total_bytes cfg div slot_size in
     if total_slots = 0 then Some (None, remove1 ResArena [ResArena]) else
     case map_region mmap cfg of
       None \<Rightarrow> Some (None, remove1 ResArena [ResArena])
     | Some base \<Rightarrow>
        if 64 \<le> sint (acfg_numa_node cfg) then None else
        let region = ResMap base (acfg_total_bytes cfg) in
        if \<not> calloc_bitmap then Some (None, remove1 ResArena (remove1 region [region, ResArena])) else
        do {
          bm \<leftarrow> init_bitmap total_slots;
          Some (Some \<lparr>ar_magic = KLLM_ARENA_MAGIC, ar_base = base,
              ar_region_bytes = acfg_total_bytes cfg, ar_slot_size = slot_size,
              ar_total_slots = total_slots, ar_numa_node = acfg_numa_node cfg, ar_bitmap = bm,
              ar_bitmap_words = (total_slots + 63) div 64, ar_hint = 0,
              ar_stats = \<lparr>st_total_slots = total_slots, st_used_slots = 0, st_alloc_count = 0,
                st_free_count = 0, st_eviction_count = 0\<rparr>,
              ar_model = acfg_model cfg\<rparr>,
            [ResBitmap, region, ResArena]) })"

definition kllm_arena_destroy :: "kllm_arena option \<Rightarrow> arena_res list \<Rightarrow> arena_res list" where
  "kllm_arena_destroy arena held =
    (case arena of
       None \<Rightarrow> held
     | Some a \<Rightarrow>
        let held = (if ar_base a \<noteq> 0 then remove1 (ResMap (ar_base a) (ar_region_bytes a)) held
                    else held)
        in remove1 ResArena (remove1 ResBitmap held))"

section \<open>Allocation\<close>

text \<open>\<open>__builtin_ctzll\<close>: the index of the lowest set bit, undefined for 0.\<close>

definition ctzll :: "u64 \<Rightarrow> nat" where
  "ctzll x = hd (filter (bit x) [0..<64])"

datatype scan = ScanEnd | ScanNull | ScanGot nat

fun alloc_scan :: "kllm_arena \<Rightarrow> nat list \<Rightarrow> scan option" where
  "alloc_scan a [] = Some ScanEnd"
| "alloc_scan a (w # ws) = do {
     bw \<leftarrow> arr_get (ar_bitmap a) w;
     if bw = 0 then alloc_scan a ws
     else if of_nat w * 64 + of_nat (ctzll bw) \<ge> ar_total_slots a then Some ScanNull
     else Some (ScanGot w) }"

definition alloc_claim :: "kllm_arena \<Rightarrow> nat \<Rightarrow> (u64 \<times> kllm_arena) option" where
  "alloc_claim a w = do {
     bw \<leftarrow> arr_get (ar_bitmap a) w;
     bm \<leftarrow> arr_set (ar_bitmap a) w (bw AND NOT (push_bit (ctzll bw) 1));
     Some (ar_base a + (of_nat w * 64 + of_nat (ctzll bw)) * ar_slot_size a,
       a\<lparr>ar_bitmap := bm, ar_hint := of_nat w,
         ar_stats := (ar_stats a)\<lparr>st_used_slots := st_used_slots (ar_stats a) + 1,
           st_alloc_count := st_alloc_count (ar_stats a) + 1\<rparr>\<rparr>) }"

definition kllm_arena_alloc :: "kllm_arena \<Rightarrow> (u64 \<times> kllm_arena) option" where
  "kllm_arena_alloc a = do {
     r \<leftarrow> alloc_scan a [unat (ar_hint a) ..< unat (ar_bitmap_words a)];
     case r of
       ScanGot w \<Rightarrow> alloc_claim a w
     | ScanNull \<Rightarrow> Some (0, a)
     | ScanEnd \<Rightarrow> do {
         r' \<leftarrow> alloc_scan a [0 ..< unat (ar_hint a)];
         case r' of ScanGot w \<Rightarrow> alloc_claim a w | _ \<Rightarrow> Some (0, a) } }"

definition kllm_arena_free :: "kllm_arena \<Rightarrow> u64 \<Rightarrow> kllm_arena option" where
  "kllm_arena_free a block =
    (if ar_slot_size a = 0 then None else
     let offset = block - ar_base a;
         slot = offset div ar_slot_size a;
         w = slot div 64;
         b = slot mod 64
     in do {
       bw \<leftarrow> arr_get (ar_bitmap a) (unat w);
       bm \<leftarrow> arr_set (ar_bitmap a) (unat w) (bw OR push_bit (unat b) 1);
       Some (a\<lparr>ar_bitmap := bm,
         ar_stats := (ar_stats a)\<lparr>st_used_slots := st_used_slots (ar_stats a) - 1,
           st_free_count := st_free_count (ar_stats a) + 1\<rparr>,
         ar_hint := if w < ar_hint a then w else ar_hint a\<rparr>) })"

definition kllm_arena_slot_index :: "kllm_arena \<Rightarrow> u64 \<Rightarrow> u32 option" where
  "kllm_arena_slot_index a block =
    (if ar_slot_size a = 0 then None else Some (ucast ((block - ar_base a) div ar_slot_size a)))"

definition kllm_arena_slot_ptr :: "kllm_arena \<Rightarrow> u32 \<Rightarrow> u64" where
  "kllm_arena_slot_ptr a index =
    (if ucast index \<ge> ar_total_slots a then 0 else ar_base a + ucast index * ar_slot_size a)"

definition kllm_arena_get_stats :: "kllm_arena \<Rightarrow> kllm_arena_stats" where
  "kllm_arena_get_stats a = ar_stats a"

definition kllm_arena_phys_addr :: "kllm_arena \<Rightarrow> u64 \<Rightarrow> u64" where
  "kllm_arena_phys_addr a block = 0"

section \<open>Well-formed arenas\<close>

definition slot_bit :: "u64 list \<Rightarrow> nat \<Rightarrow> bool" where
  "slot_bit bm i = bit (bm ! (i div 64)) (i mod 64)"

definition free_slots :: "kllm_arena \<Rightarrow> nat set" where
  "free_slots a = {i. i < unat (ar_total_slots a) \<and> slot_bit (ar_bitmap a) i}"

definition slot_addr :: "kllm_arena \<Rightarrow> nat \<Rightarrow> u64" where
  "slot_addr a i = ar_base a + of_nat i * ar_slot_size a"

text \<open>
  \<open>bitmap_wf\<close>: the bitmap has a word for every slot, no bit beyond the last slot, and no bit
  below the hint. \<open>region_wf\<close>: the slots lie inside the mapped region.
\<close>

definition bitmap_wf :: "kllm_arena \<Rightarrow> bool" where
  "bitmap_wf a \<longleftrightarrow>
     unat (ar_bitmap_words a) = (unat (ar_total_slots a) + 63) div 64 \<and>
     unat (ar_bitmap_words a) \<le> length (ar_bitmap a) \<and>
     (\<forall>i. unat (ar_total_slots a) \<le> i \<and> i < 64 * unat (ar_bitmap_words a) \<longrightarrow> \<not> slot_bit (ar_bitmap a) i) \<and>
     ar_hint a \<le> ar_bitmap_words a \<and>
     (\<forall>i < 64 * unat (ar_hint a). \<not> slot_bit (ar_bitmap a) i)"

definition region_wf :: "kllm_arena \<Rightarrow> bool" where
  "region_wf a \<longleftrightarrow> ar_base a \<noteq> 0 \<and> 4096 \<le> ar_slot_size a \<and>
     unat (ar_total_slots a) * unat (ar_slot_size a) \<le> unat (ar_region_bytes a) \<and>
     unat (ar_base a) + unat (ar_region_bytes a) < 2 ^ 64"

definition arena_wf :: "kllm_arena \<Rightarrow> bool" where
  "arena_wf a \<longleftrightarrow> region_wf a \<and> bitmap_wf a \<and>
     unat (st_used_slots (ar_stats a)) + card (free_slots a) = unat (ar_total_slots a)"

section \<open>The bitmap\<close>

declare push_bit_of_1 [simp del]

lemma ctzll_lowest:
  assumes "bit x b" and "b < 64" and "\<And>j. j < b \<Longrightarrow> \<not> bit x j"
  shows "ctzll x = b"
proof -
  have "[0..<64] = [0..<b] @ b # [Suc b..<64]"
    using assms(2) by (metis less_imp_le_nat upt_add_eq_append upt_conv_Cons le0 le_add_diff_inverse)
  moreover have "filter (bit x) [0..<b] = []" using assms(3) by (simp add: filter_empty_conv)
  ultimately show ?thesis using assms(1) by (simp only: ctzll_def filter_append) simp
qed

lemma bit_lt64: "bit (x :: u64) b \<Longrightarrow> b < 64"
  using bit_imp_le_length[of x b] by simp

lemma nonzero_word_bit:
  assumes "(x :: u64) \<noteq> 0"
  obtains b where "b < 64" and "bit x b"
proof -
  from assms obtain b where "bit x b" by (auto simp: bit_eq_iff)
  with bit_lt64 that show ?thesis by blast
qed

lemma slot_bit_word:
  assumes "b < 64"
  shows "slot_bit bm (64 * w + b) = bit (bm ! w) b"
  using assms by (simp add: slot_bit_def)

lemma slot_bit_update:
  assumes "w < length bm"
  shows "slot_bit (bm[w := v]) i = (if i div 64 = w then bit v (i mod 64) else slot_bit bm i)"
  using assms by (simp add: slot_bit_def)

lemma slot_bit_clear:
  assumes "i div 64 < length bm"
  shows "slot_bit (bm[i div 64 := bm ! (i div 64) AND NOT (push_bit (i mod 64) 1)]) j =
    (slot_bit bm j \<and> j \<noteq> i)"
proof -
  have "j = i \<longleftrightarrow> j div 64 = i div 64 \<and> j mod 64 = i mod 64" by (metis div_mult_mod_eq)
  moreover have "j mod 64 < 64" by simp
  ultimately show ?thesis
    unfolding slot_bit_update[OF assms]
    by (cases "j div 64 = i div 64") (auto simp: slot_bit_def bit_simps)
qed

lemma slot_bit_set:
  assumes "i div 64 < length bm"
  shows "slot_bit (bm[i div 64 := bm ! (i div 64) OR push_bit (i mod 64) 1]) j =
    (slot_bit bm j \<or> j = i)"
proof -
  have "j = i \<longleftrightarrow> j div 64 = i div 64 \<and> j mod 64 = i mod 64" by (metis div_mult_mod_eq)
  moreover have "j mod 64 < 64" by simp
  ultimately show ?thesis
    unfolding slot_bit_update[OF assms]
    by (cases "j div 64 = i div 64") (auto simp: slot_bit_def bit_simps)
qed

lemma scan_zero_words:
  assumes "\<forall>w \<in> set us. w < length (ar_bitmap a) \<and> ar_bitmap a ! w = 0"
  shows "alloc_scan a (us @ ws) = alloc_scan a ws"
  using assms by (induction us) (simp_all add: arr_get_in)

lemma scan_all_zero:
  assumes "\<forall>w \<in> set ws. w < length (ar_bitmap a) \<and> ar_bitmap a ! w = 0"
  shows "alloc_scan a ws = Some ScanEnd"
  using scan_zero_words[OF assms, of "[]"] by simp

lemma word_zero_iff: "bm ! w = 0 \<longleftrightarrow> (\<forall>i. i div 64 = w \<longrightarrow> \<not> slot_bit bm i)"
proof
  assume r: "\<forall>i. i div 64 = w \<longrightarrow> \<not> slot_bit bm i"
  show "bm ! w = 0"
  proof (rule ccontr)
    assume "bm ! w \<noteq> 0"
    then obtain b where "b < 64" "bit (bm ! w) b" by (rule nonzero_word_bit)
    with r[rule_format, of "64 * w + b"] show False by (simp add: slot_bit_word)
  qed
qed (auto simp: slot_bit_def)

section \<open>Allocation takes the lowest free slot\<close>

lemma finite_free_slots [simp]: "finite (free_slots a)"
  by (simp add: free_slots_def)

lemma total_slots_bound:
  assumes "region_wf a"
  shows "unat (ar_total_slots a) < 2 ^ 52"
proof -
  have "unat (ar_total_slots a) * 4096 \<le> unat (ar_total_slots a) * unat (ar_slot_size a)"
    using assms by (intro mult_le_mono2) (simp add: region_wf_def word_le_nat_alt)
  moreover have "unat (ar_total_slots a) * unat (ar_slot_size a) < 2 ^ 64"
    using assms by (simp add: region_wf_def)
  ultimately have "unat (ar_total_slots a) * 4096 < 2 ^ 64" by (rule le_less_trans)
  then show ?thesis by simp
qed

lemma slot_word:
  assumes "bitmap_wf a" and "i < unat (ar_total_slots a)"
  shows "i div 64 < unat (ar_bitmap_words a)" and "i div 64 < length (ar_bitmap a)"
proof -
  show w: "i div 64 < unat (ar_bitmap_words a)"
    using assms by (simp add: bitmap_wf_def div_less_iff_less_mult)
  then show "i div 64 < length (ar_bitmap a)" using assms(1) by (simp add: bitmap_wf_def)
qed

lemma unfree_word_zero:
  assumes "bitmap_wf a" and "w < unat (ar_bitmap_words a)"
    and "\<And>i. i div 64 = w \<Longrightarrow> i \<notin> free_slots a"
  shows "ar_bitmap a ! w = 0"
  unfolding word_zero_iff
proof (intro allI impI notI)
  fix i assume i: "i div 64 = w" and b: "slot_bit (ar_bitmap a) i"
  from i assms(2) have "i < 64 * unat (ar_bitmap_words a)"
    by (metis div_less_iff_less_mult mult.commute zero_less_numeral)
  with b assms(1) have "i < unat (ar_total_slots a)" by (auto simp: bitmap_wf_def not_less)
  with b assms(3)[OF i] show False by (simp add: free_slots_def)
qed

lemma alloc_full:
  assumes "arena_wf a" and "free_slots a = {}"
  shows "kllm_arena_alloc a = Some (0, a)"
proof -
  have wf: "bitmap_wf a" using assms by (simp add: arena_wf_def)
  then have h: "unat (ar_hint a) \<le> unat (ar_bitmap_words a)"
    and l: "unat (ar_bitmap_words a) \<le> length (ar_bitmap a)"
    by (simp_all add: bitmap_wf_def word_le_nat_alt)
  have z: "ar_bitmap a ! w = 0" if "w < unat (ar_bitmap_words a)" for w
    using unfree_word_zero[OF wf that] assms(2) by simp
  have "alloc_scan a [unat (ar_hint a) ..< unat (ar_bitmap_words a)] = Some ScanEnd"
    and "alloc_scan a [0 ..< unat (ar_hint a)] = Some ScanEnd"
    by (rule scan_all_zero; use h l z in auto)+
  then show ?thesis by (simp add: kllm_arena_alloc_def)
qed

definition claimed :: "kllm_arena \<Rightarrow> nat \<Rightarrow> kllm_arena" where
  "claimed a m = a\<lparr>ar_bitmap := (ar_bitmap a)[m div 64 := ar_bitmap a ! (m div 64) AND NOT (push_bit (m mod 64) 1)],
     ar_hint := of_nat (m div 64),
     ar_stats := (ar_stats a)\<lparr>st_used_slots := st_used_slots (ar_stats a) + 1,
       st_alloc_count := st_alloc_count (ar_stats a) + 1\<rparr>\<rparr>"

lemma lowest_free:
  assumes "bitmap_wf a" and "free_slots a \<noteq> {}"
  defines "m \<equiv> Min (free_slots a)"
  shows "m < unat (ar_total_slots a)" and "ctzll (ar_bitmap a ! (m div 64)) = m mod 64"
    and "ar_bitmap a ! (m div 64) \<noteq> 0" and "unat (ar_hint a) \<le> m div 64"
    and "w < m div 64 \<Longrightarrow> ar_bitmap a ! w = 0"
proof -
  have m: "m \<in> free_slots a" using assms(2) by (simp add: m_def)
  have least: "i \<notin> free_slots a" if "i < m" for i
    using that Min_le[OF finite_free_slots, of i a] unfolding m_def by linarith
  show mt: "m < unat (ar_total_slots a)" using m by (simp add: free_slots_def)
  have b: "bit (ar_bitmap a ! (m div 64)) (m mod 64)" using m by (simp add: free_slots_def slot_bit_def)
  then show "ar_bitmap a ! (m div 64) \<noteq> 0" by auto
  show "ctzll (ar_bitmap a ! (m div 64)) = m mod 64"
  proof (rule ctzll_lowest[OF b])
    fix j assume j: "j < m mod 64"
    then have "64 * (m div 64) + j < m" and "j < 64" by (auto simp: minus_mod_eq_mult_div[symmetric])
    with least[of "64 * (m div 64) + j"] mt show "\<not> bit (ar_bitmap a ! (m div 64)) j"
      by (simp add: free_slots_def slot_bit_word)
  qed simp
  have "\<not> m < 64 * unat (ar_hint a)"
    using assms(1) m by (auto simp: bitmap_wf_def free_slots_def)
  then show "unat (ar_hint a) \<le> m div 64" by simp
  show "ar_bitmap a ! w = 0" if "w < m div 64"
  proof (rule unfree_word_zero[OF assms(1)])
    show "w < unat (ar_bitmap_words a)" using that slot_word(1)[OF assms(1) mt] by simp
    show "i \<notin> free_slots a" if "i div 64 = w" for i
      using that \<open>w < m div 64\<close> by (intro least) (metis div_le_mono not_less)
  qed
qed

lemma alloc_lowest:
  assumes "arena_wf a" and "free_slots a \<noteq> {}"
  defines "m \<equiv> Min (free_slots a)"
  shows "kllm_arena_alloc a = Some (slot_addr a m, claimed a m)"
proof -
  have wf: "bitmap_wf a" and rw: "region_wf a" using assms(1) by (simp_all add: arena_wf_def)
  note low = lowest_free[OF wf assms(2), folded m_def]
  let ?w = "m div 64" and ?n = "unat (ar_bitmap_words a)"
  note sw = slot_word[OF wf low(1)]
  have slot: "of_nat ?w * 64 + of_nat (m mod 64) = (of_nat m :: u64)"
    by (metis div_mult_mod_eq of_nat_add of_nat_mult of_nat_numeral)
  have lt: "(of_nat m :: u64) < ar_total_slots a"
    using low(1) total_slots_bound[OF rw] by (simp add: word_less_nat_alt unat_of_nat64)
  have "[unat (ar_hint a) ..< ?n] = [unat (ar_hint a) ..< ?w] @ ?w # [Suc ?w ..< ?n]"
    using low(4) sw(1) by (metis le_add_diff_inverse less_imp_le_nat upt_add_eq_append upt_conv_Cons)
  moreover have "alloc_scan a ([unat (ar_hint a) ..< ?w] @ ?w # [Suc ?w ..< ?n]) =
      alloc_scan a (?w # [Suc ?w ..< ?n])"
    by (rule scan_zero_words) (use low(5) sw in auto)
  moreover have "alloc_scan a (?w # [Suc ?w ..< ?n]) = Some (ScanGot ?w)"
    using sw(2) low(2,3) lt by (simp add: arr_get_in slot not_le)
  ultimately have "alloc_scan a [unat (ar_hint a) ..< ?n] = Some (ScanGot ?w)" by simp
  then show ?thesis
    using sw(2) by (simp add: kllm_arena_alloc_def alloc_claim_def fault_simps low(2) slot
        slot_addr_def claimed_def)
qed

lemma claimed_free:
  assumes "bitmap_wf a" and "m < unat (ar_total_slots a)"
  shows "free_slots (claimed a m) = free_slots a - {m}"
  using slot_bit_clear[OF slot_word(2)[OF assms]] by (auto simp: free_slots_def claimed_def)

lemma claimed_wf:
  assumes "arena_wf a" and "free_slots a \<noteq> {}"
  defines "m \<equiv> Min (free_slots a)"
  shows "arena_wf (claimed a m)"
proof -
  have wf: "bitmap_wf a" and rw: "region_wf a" using assms(1) by (simp_all add: arena_wf_def)
  note low = lowest_free[OF wf assms(2), folded m_def]
  note sw = slot_word[OF wf low(1)]
  have m: "m \<in> free_slots a" using assms(2) by (simp add: m_def)
  have hint: "unat (of_nat (m div 64) :: u64) = m div 64"
    using low(1) total_slots_bound[OF rw] by (intro unat_of_nat64) simp
  have below: "\<not> slot_bit (ar_bitmap a) i" if "i < 64 * (m div 64)" for i
  proof -
    have "i div 64 < m div 64" using that by (simp add: div_less_iff_less_mult mult.commute)
    from low(5)[OF this] show ?thesis by (simp add: slot_bit_def)
  qed
  have "\<forall>i < 64 * unat (ar_hint (claimed a m)). \<not> slot_bit (ar_bitmap (claimed a m)) i"
    by (simp add: claimed_def slot_bit_clear[OF sw(2)] hint below)
  then have bw: "bitmap_wf (claimed a m)"
    using wf sw hint by (simp add: bitmap_wf_def claimed_def slot_bit_clear[OF sw(2)] word_le_nat_alt)
  have "card (free_slots a) = Suc (card (free_slots a - {m}))"
    using m by (simp only: card.remove[OF finite_free_slots])
  moreover have "unat (st_used_slots (ar_stats a)) + card (free_slots a) = unat (ar_total_slots a)"
    using assms(1) by (simp add: arena_wf_def)
  moreover from this total_slots_bound[OF rw]
  have "unat (st_used_slots (ar_stats a) + 1) = unat (st_used_slots (ar_stats a)) + 1"
    by (simp add: unat_word_ariths(1))
  ultimately have "unat (st_used_slots (ar_stats a) + 1) + card (free_slots a - {m}) = unat (ar_total_slots a)"
    by linarith
  with bw show ?thesis
    using rw claimed_free[OF wf low(1)]
    by (simp add: arena_wf_def region_wf_def claimed_def)
qed

section \<open>Slots and addresses\<close>

lemma slot_offset:
  assumes "region_wf a" and "i < unat (ar_total_slots a)"
  shows "(slot_addr a i - ar_base a) div ar_slot_size a = of_nat i"
    and "unat (slot_addr a i) = unat (ar_base a) + i * unat (ar_slot_size a)"
proof -
  have "i * unat (ar_slot_size a) \<le> unat (ar_total_slots a) * unat (ar_slot_size a)"
    using assms(2) by (intro mult_le_mono1) simp
  then have fit: "unat (ar_base a) + i * unat (ar_slot_size a) < 2 ^ 64"
    using assms(1) unfolding region_wf_def by linarith
  have i64: "i < 2 ^ 64" using assms(2) total_slots_bound[OF assms(1)] by simp
  have p: "unat (of_nat i * ar_slot_size a) = i * unat (ar_slot_size a)"
    using fit i64 by (simp add: unat_word_ariths unat_of_nat64)
  have nz: "unat (ar_slot_size a) \<noteq> 0" using assms(1) by (auto simp: region_wf_def word_le_nat_alt)
  have "unat ((slot_addr a i - ar_base a) div ar_slot_size a) = unat (of_nat i :: u64)"
    using nz i64 by (simp add: slot_addr_def unat_div p unat_of_nat64)
  then show "(slot_addr a i - ar_base a) div ar_slot_size a = of_nat i"
    by (simp only: word_unat_eq_iff)
  show "unat (slot_addr a i) = unat (ar_base a) + i * unat (ar_slot_size a)"
    using fit by (simp add: slot_addr_def unat_word_ariths(1) p)
qed

definition freed :: "kllm_arena \<Rightarrow> nat \<Rightarrow> kllm_arena" where
  "freed a i = a\<lparr>ar_bitmap := (ar_bitmap a)[i div 64 := ar_bitmap a ! (i div 64) OR push_bit (i mod 64) 1],
     ar_stats := (ar_stats a)\<lparr>st_used_slots := st_used_slots (ar_stats a) - 1,
       st_free_count := st_free_count (ar_stats a) + 1\<rparr>,
     ar_hint := if i div 64 < unat (ar_hint a) then of_nat (i div 64) else ar_hint a\<rparr>"

lemma free_slot:
  assumes "region_wf a" and "bitmap_wf a" and "i < unat (ar_total_slots a)"
  shows "kllm_arena_free a (slot_addr a i) = Some (freed a i)"
proof -
  have i64: "i < 2 ^ 64" using assms(3) total_slots_bound[OF assms(1)] by simp
  have w: "unat ((of_nat i :: u64) div 64) = i div 64" and b: "unat ((of_nat i :: u64) mod 64) = i mod 64"
    using i64 by (simp_all add: unat_div unat_mod unat_of_nat64)
  have "(of_nat i :: u64) div 64 = of_nat (i div 64)"
    using arg_cong[OF w, of "of_nat :: nat \<Rightarrow> u64"] by simp
  moreover have "ar_slot_size a \<noteq> 0" using assms(1) by (auto simp: region_wf_def)
  ultimately show ?thesis
    using slot_word[OF assms(2,3)] w
    by (simp add: kllm_arena_free_def slot_offset(1)[OF assms(1,3)] Let_def w b fault_simps
        freed_def word_less_nat_alt)
qed

lemma freed_free:
  assumes "bitmap_wf a" and "i < unat (ar_total_slots a)"
  shows "free_slots (freed a i) = insert i (free_slots a)"
  using assms slot_bit_set[OF slot_word(2)[OF assms]] by (auto simp: free_slots_def freed_def)

lemma freed_wf:
  assumes "arena_wf a" and "i < unat (ar_total_slots a)" and "i \<notin> free_slots a"
  shows "arena_wf (freed a i)"
proof -
  have wf: "bitmap_wf a" and rw: "region_wf a" using assms(1) by (simp_all add: arena_wf_def)
  note sw = slot_word[OF wf assms(2)]
  have hint: "unat (of_nat (i div 64) :: u64) = i div 64"
    using assms(2) total_slots_bound[OF rw] by (intro unat_of_nat64) simp
  have bw: "bitmap_wf (freed a i)"
  proof -
    have "\<not> slot_bit (ar_bitmap (freed a i)) j"
      if "unat (ar_total_slots a) \<le> j" "j < 64 * unat (ar_bitmap_words a)" for j
      using that wf assms(2) by (simp add: bitmap_wf_def freed_def slot_bit_set[OF sw(2)])
    moreover have "\<not> slot_bit (ar_bitmap (freed a i)) j" if "j < 64 * unat (ar_hint (freed a i))" for j
    proof -
      have "j div 64 < unat (ar_hint (freed a i))"
        using that by (simp add: div_less_iff_less_mult mult.commute)
      then have "j div 64 \<noteq> i div 64" "j div 64 < unat (ar_hint a)"
        by (simp_all add: freed_def hint split: if_splits)
      then have "j \<noteq> i" "j < 64 * unat (ar_hint a)"
        by (auto simp: div_less_iff_less_mult mult.commute)
      then show ?thesis using wf by (simp add: bitmap_wf_def freed_def slot_bit_set[OF sw(2)])
    qed
    ultimately show ?thesis
      using wf hint by (simp add: bitmap_wf_def freed_def word_le_nat_alt)
  qed
  have used: "unat (st_used_slots (ar_stats a)) + card (free_slots a) = unat (ar_total_slots a)"
    using assms(1) by (simp add: arena_wf_def)
  have "insert i (free_slots a) \<subseteq> {..<unat (ar_total_slots a)}"
    using assms(2) by (auto simp: free_slots_def)
  from card_mono[OF finite_lessThan this]
  have "card (insert i (free_slots a)) \<le> unat (ar_total_slots a)" by simp
  then have "0 < unat (st_used_slots (ar_stats a))" using used assms(3) by simp
  then have "unat (st_used_slots (ar_stats a) - 1) = unat (st_used_slots (ar_stats a)) - 1"
    by (intro unat_minus_one) auto
  moreover have "card (insert i (free_slots a)) = Suc (card (free_slots a))"
    using assms(3) by simp
  ultimately have "unat (st_used_slots (ar_stats a) - 1) + card (insert i (free_slots a)) = unat (ar_total_slots a)"
    using used \<open>0 < unat (st_used_slots (ar_stats a))\<close> by linarith
  with bw show ?thesis
    using rw freed_free[OF wf assms(2)]
    by (simp add: arena_wf_def region_wf_def freed_def)
qed

section \<open>The slot interface\<close>

definition arena_take :: "kllm_arena \<Rightarrow> (nat option \<times> kllm_arena) option" where
  "arena_take a = do {
     (p, a') \<leftarrow> kllm_arena_alloc a;
     Some (if p = 0 then None else Some (unat ((p - ar_base a) div ar_slot_size a)), a') }"

definition arena_give :: "nat \<Rightarrow> kllm_arena \<Rightarrow> kllm_arena option" where
  "arena_give i a = kllm_arena_free a (slot_addr a i)"

lemma slot_addr_nonnull:
  assumes "region_wf a" and "i < unat (ar_total_slots a)"
  shows "slot_addr a i \<noteq> 0"
proof
  assume "slot_addr a i = 0"
  then have "unat (ar_base a) = 0" using slot_offset(2)[OF assms] by simp
  then have "ar_base a = 0" by (simp only: unat_eq_0)
  then show False using assms(1) by (simp add: region_wf_def)
qed

lemma slot_of_addr:
  assumes "region_wf a" and "i < unat (ar_total_slots a)"
  shows "unat ((slot_addr a i - ar_base a) div ar_slot_size a) = i"
  using slot_offset(1)[OF assms] assms(2) total_slots_bound[OF assms(1)] by (simp add: unat_of_nat64)

lemma slot_index_addr:
  assumes "region_wf a" and "i < unat (ar_total_slots a)"
  shows "kllm_arena_slot_index a (slot_addr a i) = Some (of_nat i)"
proof -
  have "unat (of_nat i :: u64) = i"
    using assms(2) total_slots_bound[OF assms(1)] by (intro unat_of_nat64) simp
  then have "(ucast (of_nat i :: u64) :: u32) = of_nat i"
    by (simp add: word_unat_eq_iff unsigned_ucast_eq unsigned_of_nat)
  moreover have "ar_slot_size a \<noteq> 0" using assms(1) by (auto simp: region_wf_def)
  ultimately show ?thesis using slot_offset(1)[OF assms] by (simp add: kllm_arena_slot_index_def)
qed

lemma slot_ptr_addr:
  assumes "region_wf a" and "i < unat (ar_total_slots a)" and "unat (ar_total_slots a) \<le> 2 ^ 32"
  shows "kllm_arena_slot_ptr a (of_nat i) = slot_addr a i"
proof -
  have "unat (of_nat i :: u32) = i"
    using assms(2,3) by (simp add: unsigned_of_nat take_bit_nat_eq_self)
  then have c: "(ucast (of_nat i :: u32) :: u64) = of_nat i"
    by (simp add: ucast_of_nat_unat del: of_nat_unat)
  have "unat (of_nat i :: u64) = i"
    using assms(2) total_slots_bound[OF assms(1)] by (intro unat_of_nat64) simp
  then show ?thesis
    using assms(2) by (simp add: kllm_arena_slot_ptr_def c word_le_nat_alt) (simp add: slot_addr_def)
qed

lemma arena_take_lowest:
  assumes "arena_wf a" and "free_slots a \<noteq> {}"
  shows "\<exists>a'. arena_take a = Some (Some (Min (free_slots a)), a') \<and> arena_wf a' \<and>
    unat (ar_total_slots a') = unat (ar_total_slots a) \<and> free_slots a' = free_slots a - {Min (free_slots a)}"
proof -
  have wf: "bitmap_wf a" and rw: "region_wf a" using assms(1) by (simp_all add: arena_wf_def)
  note low = lowest_free(1)[OF wf assms(2)]
  show ?thesis
    using alloc_lowest[OF assms] claimed_wf[OF assms] claimed_free[OF wf low]
      slot_addr_nonnull[OF rw low] slot_of_addr[OF rw low]
    by (simp add: arena_take_def) (simp add: claimed_def)
qed

interpretation arena_slots: slot_allocator arena_wf "\<lambda>a. unat (ar_total_slots a)" free_slots
  arena_take arena_give
proof unfold_locales
  fix a :: kllm_arena
  show "free_slots a \<subseteq> {..<unat (ar_total_slots a)}" by (auto simp: free_slots_def)
next
  fix a :: kllm_arena
  assume "arena_wf a" and "free_slots a = {}"
  then show "arena_take a = Some (None, a)" by (simp add: arena_take_def alloc_full)
next
  fix a :: kllm_arena
  assume "arena_wf a" and "free_slots a \<noteq> {}"
  then show "\<exists>a'. arena_take a = Some (Some (Min (free_slots a)), a') \<and> arena_wf a' \<and>
    unat (ar_total_slots a') = unat (ar_total_slots a) \<and> free_slots a' = free_slots a - {Min (free_slots a)}"
    by (rule arena_take_lowest)
next
  fix a :: kllm_arena and i
  assume wf: "arena_wf a" and i: "i < unat (ar_total_slots a)" "i \<notin> free_slots a"
  then show "\<exists>a'. arena_give i a = Some a' \<and> arena_wf a' \<and>
    unat (ar_total_slots a') = unat (ar_total_slots a) \<and> free_slots a' = insert i (free_slots a)"
    using freed_wf[OF wf i] freed_free[of a i] free_slot[of a i]
    by (simp add: arena_wf_def arena_give_def) (simp add: freed_def)
qed

section \<open>Creation\<close>

lemma and_not_mask:
  assumes "pow2 (n :: 'a::len word)"
  shows "unat (x AND NOT (n - 1)) = unat x div unat n * unat n"
proof -
  have "(x AND (n - 1)) + (x AND NOT (n - 1)) = (x AND (n - 1)) OR (x AND NOT (n - 1))"
    by (rule disjunctive_add) (auto simp: bit_simps)
  also have "\<dots> = x" by (rule bit_eqI) (auto simp: bit_simps)
  finally have "x AND NOT (n - 1) = x - (x AND (n - 1))" by (simp add: algebra_simps)
  moreover have "unat (x AND (n - 1)) \<le> unat x" by (simp add: unat_and_mask[OF assms])
  ultimately have "unat (x AND NOT (n - 1)) = unat x - unat x mod unat n"
    by (simp add: unat_sub word_le_nat_alt unat_and_mask[OF assms])
  then show ?thesis by (simp add: minus_mod_eq_div_mult)
qed

lemma fill_ones_spec:
  assumes "\<forall>i \<in> set is. i < length bm"
  shows "\<exists>bm'. fill_ones is bm = Some bm' \<and> length bm' = length bm \<and>
    (\<forall>j < length bm. bm' ! j = (if j \<in> set is then NOT 0 else bm ! j))"
  using assms
proof (induction "is" arbitrary: bm)
  case (Cons i "is")
  then show ?case
    using Cons.IH[of "bm[i := NOT 0]"] by (auto simp: arr_set_in nth_list_update)
qed simp

lemma bitmap_words_exact:
  assumes "unat (t :: u64) < 2 ^ 52"
  shows "unat ((t + 63) div 64) = (unat t + 63) div 64"
  using assms by (simp add: unat_div unat_word_ariths(1))

lemma round_up_div: "(x + 63) div 64 = (if x mod 64 = 0 then x div 64 else Suc (x div 64))" for x :: nat
proof -
  have "(x mod 64 + 63) div 64 = (if x mod 64 = 0 then 0 else 1)"
    by (auto intro!: div_nat_eqI simp: mod_less_divisor less_imp_le)
  then show ?thesis using div_add1_eq[of x 63 64] by simp
qed

lemma same_word_less: "j div 64 = x div 64 \<Longrightarrow> (j mod 64 < x mod 64) = (j < x)" for j x :: nat
  using div_mult_mod_eq[of j 64] div_mult_mod_eq[of x 64] by linarith

lemma lower_word_less: "j div 64 < x div 64 \<Longrightarrow> j < x" for j x :: nat
  using div_le_mono[of x j 64] by linarith

lemma round_up_words: "n \<le> (n * 8 + 63) div 64 * 64 div 8" for n :: nat
proof -
  have "n * 8 \<le> (n * 8 + 63) div 64 * 64"
    using div_mult_mod_eq[of "n * 8 + 63" 64] mod_less_divisor[of 64 "n * 8 + 63"] by linarith
  from div_le_mono[OF this, of 8] show ?thesis by simp
qed

lemma bitmap_bytes_cover:
  assumes "unat t < 2 ^ 52"
  shows "(unat t + 63) div 64 \<le> unat (align_up ((t + 63) div 64 * 8) 64) div 8"
proof -
  define n where "n = (unat t + 63) div 64"
  have n: "n < 2 ^ 50" using assms by (simp add: n_def)
  have w: "unat ((t + 63) div 64) = n" by (simp add: n_def bitmap_words_exact[OF assms])
  have "unat ((t + 63) div 64 * 8) = n * 8" using n by (simp add: unat_word_ariths(2) w)
  then have "unat ((t + 63) div 64 * 8 + 63) = n * 8 + 63" using n by (simp add: unat_word_ariths(1))
  moreover have "align_up ((t + 63) div 64 * 8) 64 = ((t + 63) div 64 * 8 + 63) AND NOT (64 - 1)"
    by (simp add: align_up_def add.commute)
  moreover have "pow2 (64 :: u64)" by (simp add: pow2_def)
  ultimately have "unat (align_up ((t + 63) div 64 * 8) 64) = (n * 8 + 63) div 64 * 64"
    by (simp only: and_not_mask) simp
  then show ?thesis using round_up_words[of n] by (simp only: n_def)
qed

lemma remainder_word_bits:
  "bit (push_bit (unat ((t :: u64) mod 64)) 1 - 1 :: u64) j = (j < unat t mod 64)"
proof -
  have "push_bit (unat (t mod 64)) 1 - 1 = (mask (unat t mod 64) :: u64)"
    by (simp add: push_bit_of_1 mask_eq_exp_minus_1 unat_mod)
  moreover have "unat t mod 64 \<le> 64" by simp
  ultimately show ?thesis by (auto simp: bit_mask_iff)
qed

lemma init_bitmap_spec:
  assumes "unat t < 2 ^ 52"
  shows "\<exists>bm. init_bitmap t = Some bm \<and> (unat t + 63) div 64 \<le> length bm \<and>
    (\<forall>i < 64 * ((unat t + 63) div 64). slot_bit bm i = (i < unat t))"
proof -
  define n where "n = (unat t + 63) div 64"
  define k where "k = unat (align_up ((t + 63) div 64 * 8) 64) div 8"
  have w: "unat ((t + 63) div 64) = n" by (simp add: n_def bitmap_words_exact[OF assms])
  have len: "n \<le> k" using bitmap_bytes_cover[OF assms] by (simp add: n_def k_def)
  from fill_ones_spec[of "[0..<n]" "replicate k 0"] len
  obtain bm where bm: "fill_ones [0..<n] (replicate k 0) = Some bm"
    "length bm = k" "\<forall>j < n. bm ! j = NOT 0" by auto
  have ones: "slot_bit bm i" if "i < 64 * n" for i
  proof -
    have "i div 64 < n" using that by (simp add: div_less_iff_less_mult mult.commute)
    with bm(3) show ?thesis by (simp add: slot_bit_def)
  qed
  show ?thesis
  proof (cases "unat t mod 64 = 0")
    case True
    then have "64 * n = unat t" using round_up_div[of "unat t"] by (auto simp: n_def)
    moreover have "\<not> 0 < t mod 64" using True by (simp add: word_less_nat_alt unat_mod)
    ultimately show ?thesis
      using bm len ones w by (simp add: init_bitmap_def Let_def k_def[symmetric] n_def[symmetric])
  next
    case False
    let ?v = "push_bit (unat (t mod 64)) 1 - 1 :: u64"
    have n: "n = Suc (unat t div 64)" using False round_up_div[of "unat t"] by (simp add: n_def)
    then have "(t + 63) div 64 \<noteq> 0" using w by auto
    then have u: "unat ((t + 63) div 64 - 1) = unat t div 64" using w n by (simp add: unat_minus_one)
    have l: "unat t div 64 < length bm" using n len bm(2) by simp
    have "0 < t mod 64" using False by (simp add: word_less_nat_alt unat_mod)
    then have i: "init_bitmap t = Some (bm[unat t div 64 := ?v])"
      using bm(1) l by (simp add: init_bitmap_def Let_def u w arr_set_in k_def[symmetric])
    have "slot_bit (bm[unat t div 64 := ?v]) j = (j < unat t)" if "j < 64 * n" for j
    proof (cases "j div 64 = unat t div 64")
      case True
      then show ?thesis by (simp add: slot_bit_update[OF l] remainder_word_bits same_word_less)
    next
      case False
      moreover have "j div 64 < n" using that by (simp add: div_less_iff_less_mult mult.commute)
      ultimately have "j div 64 < unat t div 64" using n by simp
      then have "j < unat t" by (rule lower_word_less)
      with False ones[OF that] show ?thesis by (simp add: slot_bit_update[OF l])
    qed
    with i len bm(2) show ?thesis by (simp add: n_def[symmetric])
  qed
qed

lemma align_up_page:
  assumes "align_up v 4096 \<noteq> 0"
  shows "4096 \<le> align_up v 4096"
proof -
  define c where "c = v + 4096 - 1"
  have u: "unat (align_up v 4096) = unat c div 4096 * 4096"
    using and_not_mask[of "4096 :: u64" c] by (simp add: align_up_def pow2_def c_def[symmetric])
  have "unat (align_up v 4096) \<noteq> 0" using assms by (simp only: unat_eq_0) simp
  with u have "4096 \<le> unat (align_up v 4096)" by (cases "unat c div 4096") auto
  then show ?thesis by (simp add: word_le_nat_alt)
qed

lemma create_wf:
  assumes "kllm_arena_create True True mmap cfg = Some (Some a, held)"
    and "ar_base a \<noteq> 0" and "unat (ar_base a) + unat (acfg_total_bytes cfg) < 2 ^ 64"
  shows "arena_wf a \<and> free_slots a = {..<unat (ar_total_slots a)}"
proof -
  define sz where "sz = align_up (kllm_block_total_bytes (acfg_model cfg)) 4096"
  define t where "t = acfg_total_bytes cfg div sz"
  from assms(1) obtain bm where bm: "init_bitmap t = Some bm" and sz: "sz \<noteq> 0"
    and a: "ar_slot_size a = sz" "ar_total_slots a = t" "ar_region_bytes a = acfg_total_bytes cfg"
      "ar_bitmap a = bm" "ar_bitmap_words a = (t + 63) div 64" "ar_hint a = 0"
      "st_used_slots (ar_stats a) = 0"
    by (auto simp: kllm_arena_create_def Let_def sz_def[symmetric] t_def[symmetric]
        split: if_splits option.splits bind_splits)
  have rw: "region_wf a"
    using assms(2,3) sz align_up_page[of "kllm_block_total_bytes (acfg_model cfg)"] a
    by (simp add: region_wf_def sz_def t_def unat_div)
  from total_slots_bound[OF rw] a have t52: "unat t < 2 ^ 52" by simp
  from init_bitmap_spec[OF t52] bm
  have l: "(unat t + 63) div 64 \<le> length bm"
    and s: "\<forall>i < 64 * ((unat t + 63) div 64). slot_bit bm i = (i < unat t)" by auto
  have "unat t \<le> 64 * ((unat t + 63) div 64)"
    using div_mult_mod_eq[of "unat t + 63" 64] mod_less_divisor[of 64 "unat t + 63"] by linarith
  then have f: "free_slots a = {..<unat t}" using s a by (auto simp: free_slots_def)
  have "bitmap_wf a" using a l s bitmap_words_exact[OF t52] by (auto simp: bitmap_wf_def)
  with rw f a show ?thesis by (simp add: arena_wf_def)
qed

lemma align_up_covers:
  assumes "unat v + 4096 < 2 ^ 64"
  shows "unat v \<le> unat (align_up v 4096)" and "v \<noteq> 0 \<Longrightarrow> align_up v 4096 \<noteq> 0"
proof -
  define c where "c = v + 4096 - 1"
  have "c = v + 4095" by (simp add: c_def)
  then have c: "unat c = unat v + 4095" using assms by (simp add: unat_word_ariths(1))
  have "unat (align_up v 4096) = unat c div 4096 * 4096"
    using and_not_mask[of "4096 :: u64" c] by (simp add: align_up_def pow2_def c_def[symmetric])
  then show le: "unat v \<le> unat (align_up v 4096)"
    using c div_mult_mod_eq[of "unat c" 4096] mod_less_divisor[of 4096 "unat c"] by linarith
  show "align_up v 4096 \<noteq> 0" if "v \<noteq> 0"
  proof
    assume "align_up v 4096 = 0"
    with le have "unat v = 0" by simp
    with that show False by (simp only: unat_eq_0)
  qed
qed

text \<open>What \<open>mmap\<close> documents: a mapping is not at address 0 and lies inside the address space.\<close>

definition mmap_ok :: "(nat \<Rightarrow> u64 \<Rightarrow> u32 \<Rightarrow> u64 option) \<Rightarrow> bool" where
  "mmap_ok mmap \<longleftrightarrow> (\<forall>k len fl b. mmap k len fl = Some b \<longrightarrow> b \<noteq> 0 \<and> unat b + unat len < 2 ^ 64)"

lemma create_defined:
  assumes "total_exact (acfg_model cfg) + 4096 < 2 ^ 64" and "sint (acfg_numa_node cfg) < 64"
    and "mmap_ok mmap"
  shows "\<exists>r held. kllm_arena_create ca cb mmap cfg = Some (r, held) \<and>
     (r = None \<longrightarrow> held = []) \<and>
     (\<forall>a. r = Some a \<longrightarrow> ca \<and> cb \<and> ar_base a \<noteq> 0 \<and> 0 < unat (ar_total_slots a) \<and>
       unat (ar_base a) + unat (acfg_total_bytes cfg) < 2 ^ 64 \<and>
       ar_slot_size a = align_up (kllm_block_total_bytes (acfg_model cfg)) 4096 \<and>
       held = [ResBitmap, ResMap (ar_base a) (ar_region_bytes a), ResArena])"
proof -
  define sz where "sz = align_up (kllm_block_total_bytes (acfg_model cfg)) 4096"
  define t where "t = acfg_total_bytes cfg div sz"
  have tb: "unat (kllm_block_total_bytes (acfg_model cfg)) = total_exact (acfg_model cfg)"
    using assms(1) by (simp add: total_bytes_exact)
  then have "kllm_block_total_bytes (acfg_model cfg) \<noteq> 0" by (auto simp: total_exact_def)
  then have sz: "sz \<noteq> 0" using align_up_covers(2) assms(1) tb by (simp add: sz_def)
  note defs = kllm_arena_create_def Let_def sz_def[symmetric] t_def[symmetric]
  show ?thesis
  proof (cases "ca \<and> t \<noteq> 0")
    case True
    note hyp = this
    show ?thesis
    proof (cases "map_region mmap cfg")
      case None
      with hyp sz show ?thesis by (simp add: defs)
    next
      case (Some b)
      then have b: "b \<noteq> 0 \<and> unat b + unat (acfg_total_bytes cfg) < 2 ^ 64"
        using assms(3) unfolding map_region_def mmap_ok_def by (metis option.case_eq_if option.collapse)
      have "unat t * 4096 \<le> unat t * unat sz"
        using align_up_page[of "kllm_block_total_bytes (acfg_model cfg)"] sz
        by (intro mult_le_mono2) (simp add: sz_def word_le_nat_alt)
      also have "\<dots> \<le> unat (acfg_total_bytes cfg)" by (simp add: t_def unat_div)
      also have "unat (acfg_total_bytes cfg) < 2 ^ LENGTH(64)" by (rule unsigned_less)
      finally have "unat t < 2 ^ 52" by simp
      from init_bitmap_spec[OF this] obtain bm where "init_bitmap t = Some bm" by blast
      with hyp Some sz b assms(2) show ?thesis by (simp add: defs unat_gt_0)
    qed
  qed (use sz in \<open>auto simp: defs\<close>)
qed

section \<open>Properties\<close>

text \<open>C4: over every sequence of allocations and frees of held blocks, the arena hands out
  exactly the slots the reference allocator hands out: always the lowest slot nobody holds,
  none when all are held, never a slot that is still held. No bitmap access leaves the bitmap,
  and the free slots are exactly the slots not held. The hint only skips full words.\<close>

theorem arena_history:
  assumes "arena_wf a" and "distinct held" and "set held = {..<unat (ar_total_slots a)} - free_slots a"
  shows "\<exists>a'. slot_run arena_take arena_give ops (held, a) =
      Some (spec_slots (unat (ar_total_slots a)) ops held, a') \<and> arena_wf a' \<and>
      distinct (spec_slots (unat (ar_total_slots a)) ops held) \<and>
      free_slots a' = {..<unat (ar_total_slots a)} - set (spec_slots (unat (ar_total_slots a)) ops held)"
proof -
  have "free_slots a \<subseteq> {..<unat (ar_total_slots a)}" by (auto simp: free_slots_def)
  with assms have "arena_slots.consistent held a"
    by (auto simp: arena_slots.consistent_def unheld_def)
  from arena_slots.run_refines_slots[OF this, of ops] show ?thesis
    by (auto simp: arena_slots.consistent_def unheld_def)
qed

definition tiny_config :: kllm_arena_config where
  "tiny_config = \<lparr>acfg_total_bytes = 12288, acfg_hugepage_size_mb = 2, acfg_numa_node = - 1,
     acfg_model = \<lparr>num_layers = 1, num_kv_heads = 1, head_dim = 8, tokens_per_block = 4\<rparr>\<rparr>"

definition tiny_mmap :: "nat \<Rightarrow> u64 \<Rightarrow> u32 \<Rightarrow> u64 option" where
  "tiny_mmap k len fl = (if k = 1 \<and> len = 12288 then Some 0x10000 else None)"

definition tiny_arena :: kllm_arena where
  "tiny_arena = \<lparr>ar_magic = KLLM_ARENA_MAGIC, ar_base = 0x10000, ar_region_bytes = 12288,
     ar_slot_size = 4096, ar_total_slots = 3, ar_numa_node = - 1,
     ar_bitmap = [7, 0, 0, 0, 0, 0, 0, 0], ar_bitmap_words = 1, ar_hint = 0,
     ar_stats = \<lparr>st_total_slots = 3, st_used_slots = 0, st_alloc_count = 0, st_free_count = 0,
       st_eviction_count = 0\<rparr>, ar_model = acfg_model tiny_config\<rparr>"

lemma tiny_arena_created: "\<exists>held. kllm_arena_create True True tiny_mmap tiny_config = Some (Some tiny_arena, held)"
proof -
  have "kllm_arena_create True True tiny_mmap tiny_config =
    Some (Some tiny_arena, [ResBitmap, ResMap 0x10000 12288, ResArena])" by code_simp
  then show ?thesis by blast
qed

lemma tiny_arena_wf: "arena_wf tiny_arena" "free_slots tiny_arena = {..<3}"
proof -
  from tiny_arena_created obtain held where
    "kllm_arena_create True True tiny_mmap tiny_config = Some (Some tiny_arena, held)" ..
  from create_wf[OF this] show "arena_wf tiny_arena" "free_slots tiny_arena = {..<3}"
    by (simp_all add: tiny_arena_def tiny_config_def)
qed

theorem arena_history_witness:
  "\<exists>a'. slot_run arena_take arena_give [Take, Take, Give 0, Take, Take, Take] ([], tiny_arena) = Some ([1, 0, 2], a') \<and>
     free_slots a' = {}"
proof -
  have t: "unat (ar_total_slots tiny_arena) = 3" by (simp add: tiny_arena_def)
  have u: "unheld 3 [] = {0, 1, 2}" "unheld 3 [0] = {1, 2}" "unheld 3 [1] = {0, 2}"
    "unheld 3 [1, 0] = {2}" "unheld 3 [1, 0, 2] = {}"
    by (auto simp: unheld_def)
  have "spec_slots 3 [Take, Take, Give 0, Take, Take, Take] [] = [1, 0, 2]"
    by (simp add: spec_slots_def u u[simplified])
  with arena_history[OF tiny_arena_wf(1), of "[]" "[Take, Take, Give 0, Take, Take, Take]"]
  show ?thesis by (auto simp: t tiny_arena_wf(2))
qed

text \<open>C27: the blocks of two different slots never share a byte, every block lies inside the
  mapped region, and slot numbers and block addresses convert into each other without loss as
  long as the slot count fits the 32-bit slot index.\<close>

theorem arena_blocks_disjoint:
  assumes "arena_wf a" and "i < unat (ar_total_slots a)" and "j < unat (ar_total_slots a)"
    and "unat (ar_total_slots a) \<le> 2 ^ 32"
  defines "block \<equiv> \<lambda>k. {unat (slot_addr a k) ..< unat (slot_addr a k) + unat (ar_slot_size a)}"
  shows "(i \<noteq> j \<longrightarrow> block i \<inter> block j = {}) \<and>
    block i \<subseteq> {unat (ar_base a) ..< unat (ar_base a) + unat (ar_region_bytes a)} \<and>
    kllm_arena_slot_index a (slot_addr a i) = Some (of_nat i) \<and>
    kllm_arena_slot_ptr a (of_nat i) = slot_addr a i"
proof -
  have rw: "region_wf a" using assms(1) by (simp add: arena_wf_def)
  note o = slot_offset(2)[OF rw assms(2)] slot_offset(2)[OF rw assms(3)]
  have "block i \<inter> block j = {}" if "i \<noteq> j"
    using multiple_ranges_disjoint[OF that, of "unat (ar_base a)" "unat (ar_slot_size a)"]
    unfolding block_def o by (simp add: algebra_simps)
  moreover have "(i + 1) * unat (ar_slot_size a) \<le> unat (ar_total_slots a) * unat (ar_slot_size a)"
    using assms(2) by (intro mult_le_mono1) simp
  then have "unat (slot_addr a i) + unat (ar_slot_size a) \<le> unat (ar_base a) + unat (ar_region_bytes a)"
    using rw unfolding o region_wf_def by (simp only: distrib_right) linarith
  then have "block i \<subseteq> {unat (ar_base a) ..< unat (ar_base a) + unat (ar_region_bytes a)}"
    unfolding block_def o by auto
  ultimately show ?thesis
    using slot_index_addr[OF rw assms(2)] slot_ptr_addr[OF rw assms(2,4)] by blast
qed

theorem arena_blocks_disjoint_witness:
  "arena_wf tiny_arena \<and>
   {unat (slot_addr tiny_arena 0) ..< unat (slot_addr tiny_arena 0) + 4096} \<inter>
   {unat (slot_addr tiny_arena 2) ..< unat (slot_addr tiny_arena 2) + 4096} = {} \<and>
   kllm_arena_slot_ptr tiny_arena 2 = 0x12000"
proof -
  have "unat (ar_total_slots tiny_arena) = 3" "unat (ar_slot_size tiny_arena) = 4096"
    "slot_addr tiny_arena 2 = 0x12000"
    by (simp_all add: tiny_arena_def slot_addr_def)
  with arena_blocks_disjoint[OF tiny_arena_wf(1), of 0 2]
    arena_blocks_disjoint[OF tiny_arena_wf(1), of 2 2] tiny_arena_wf(1)
  show ?thesis by simp
qed

text \<open>C26: creating the arena, for any block format that fits 64 bits and any behaviour of
  \<open>mmap\<close> and \<open>calloc\<close>: no undefined step is taken; on failure nothing stays allocated; on
  success every slot is free, a slot holds a whole block of the configured model, and
  destroying the arena releases everything that was acquired.\<close>

theorem kllm_arena_create_correct:
  assumes "total_exact (acfg_model cfg) + 4096 < 2 ^ 64" and "sint (acfg_numa_node cfg) < 64"
    and "mmap_ok mmap"
  shows "case kllm_arena_create ca cb mmap cfg of
      None \<Rightarrow> False
    | Some (None, held) \<Rightarrow> held = []
    | Some (Some a, held) \<Rightarrow> arena_wf a \<and> 0 < unat (ar_total_slots a) \<and>
        free_slots a = {..<unat (ar_total_slots a)} \<and>
        total_exact (acfg_model cfg) \<le> unat (ar_slot_size a) \<and> kllm_arena_destroy (Some a) held = []"
proof -
  have tb: "unat (kllm_block_total_bytes (acfg_model cfg)) = total_exact (acfg_model cfg)"
    using assms(1) by (simp add: total_bytes_exact)
  from create_defined[OF assms, where ca = ca and cb = cb] obtain r held where
    r: "kllm_arena_create ca cb mmap cfg = Some (r, held)" "r = None \<longrightarrow> held = []"
    "\<forall>a. r = Some a \<longrightarrow> ca \<and> cb \<and> ar_base a \<noteq> 0 \<and> 0 < unat (ar_total_slots a) \<and>
       unat (ar_base a) + unat (acfg_total_bytes cfg) < 2 ^ 64 \<and>
       ar_slot_size a = align_up (kllm_block_total_bytes (acfg_model cfg)) 4096 \<and>
       held = [ResBitmap, ResMap (ar_base a) (ar_region_bytes a), ResArena]" by blast
  show ?thesis
  proof (cases r)
    case (Some a)
    with r have ab: "ca" "cb" by auto
    from create_wf[of mmap cfg a held] r Some ab
    have "arena_wf a \<and> free_slots a = {..<unat (ar_total_slots a)}" by simp
    moreover have "total_exact (acfg_model cfg) \<le> unat (ar_slot_size a)"
      using align_up_covers(1)[of "kllm_block_total_bytes (acfg_model cfg)"] tb assms(1) r Some by simp
    ultimately show ?thesis using r Some by (simp add: kllm_arena_destroy_def)
  qed (use r in simp)
qed

theorem kllm_arena_create_correct_witness:
  "kllm_arena_create True True tiny_mmap tiny_config =
     Some (Some tiny_arena, [ResBitmap, ResMap 0x10000 12288, ResArena]) \<and>
   kllm_arena_destroy (Some tiny_arena) [ResBitmap, ResMap 0x10000 12288, ResArena] = []"
proof -
  have c: "kllm_arena_create True True tiny_mmap tiny_config =
    Some (Some tiny_arena, [ResBitmap, ResMap 0x10000 12288, ResArena])" by code_simp
  have t: "total_exact (acfg_model tiny_config) + 4096 < 2 ^ 64" "sint (acfg_numa_node tiny_config) < 64"
    by (simp_all add: total_exact_def kv_exact_def scale_exact_def elems_exact_def tiny_config_def)
  have "mmap_ok tiny_mmap" by (simp add: mmap_ok_def tiny_mmap_def)
  from kllm_arena_create_correct[OF t this, where ca = True and cb = True] c show ?thesis by simp
qed

end
