(* ===== verification/Cache_Index.thy ===== *)
theory Cache_Index
  imports Arena
begin

text \<open>
  The content-addressed index of the KV cache (\<open>userspace/kvcache/cache_index.c\<close>): an
  open-addressing hash table with linear probing from 32-byte hashes to arena slots, with LRU
  eviction. The monotonic clock is an argument of every call that reads it. Hashes are lists
  of 32 bytes; \<open>memcpy\<close> of the first four into an integer is read little-endian. Outer
  \<open>None\<close> is an access outside the table or a fault inside the arena.
\<close>

section \<open>State\<close>

record kllm_cache_entry =
  ce_hash :: "u8 list"
  ce_slot_index :: u32
  ce_flags :: u32
  ce_last_access_ns :: u64

record kllm_index_stats =
  is_hits :: u64
  is_misses :: u64
  is_evictions :: u64
  is_insertions :: u64
  is_occupied :: u32
  is_capacity :: u32

record kllm_cache_index =
  ix_entries :: "kllm_cache_entry list"
  ix_capacity :: u32
  ix_mask :: u32
  ix_occupied :: u32
  ix_arena :: kllm_arena
  ix_stats :: kllm_index_stats

definition EMPTY_SLOT :: u32 where
  "EMPTY_SLOT = - 1"

definition entry_empty :: "kllm_cache_entry \<Rightarrow> bool" where
  "entry_empty e \<longleftrightarrow> ce_slot_index e = EMPTY_SLOT"

definition zero_entry :: kllm_cache_entry where
  "zero_entry = \<lparr>ce_hash = replicate 32 0, ce_slot_index = 0, ce_flags = 0, ce_last_access_ns = 0\<rparr>"

definition hash_to_bucket :: "u8 list \<Rightarrow> u32 \<Rightarrow> u32" where
  "hash_to_bucket hash msk =
    (ucast (hash ! 0) OR push_bit 8 (ucast (hash ! 1)) OR push_bit 16 (ucast (hash ! 2)) OR
     push_bit 24 (ucast (hash ! 3))) AND msk"

definition hash_eq :: "u8 list \<Rightarrow> u8 list \<Rightarrow> bool" where
  "hash_eq a b \<longleftrightarrow> take 32 a = take 32 b"

section \<open>Operations\<close>

fun mark_empty :: "nat list \<Rightarrow> kllm_cache_entry list \<Rightarrow> kllm_cache_entry list option" where
  "mark_empty [] es = Some es"
| "mark_empty (i # is) es = do {
     e \<leftarrow> arr_get es i;
     es' \<leftarrow> arr_set es i (e\<lparr>ce_slot_index := EMPTY_SLOT\<rparr>);
     mark_empty is es' }"

definition kllm_index_create :: "bool \<Rightarrow> bool \<Rightarrow> u32 \<Rightarrow> kllm_arena \<Rightarrow> kllm_cache_index option option" where
  "kllm_index_create calloc_idx calloc_entries cap arena =
    (if cap AND (cap - 1) \<noteq> 0 then Some None
     else if \<not> calloc_idx then Some None
     else if \<not> calloc_entries then Some None
     else do {
       es \<leftarrow> mark_empty [0 ..< unat cap] (replicate (unat cap) zero_entry);
       Some (Some \<lparr>ix_entries = es, ix_capacity = cap, ix_mask = cap - 1, ix_occupied = 0,
         ix_arena = arena,
         ix_stats = \<lparr>is_hits = 0, is_misses = 0, is_evictions = 0, is_insertions = 0,
           is_occupied = 0, is_capacity = cap\<rparr>\<rparr>) })"

definition probe_pos :: "kllm_cache_index \<Rightarrow> u8 list \<Rightarrow> nat \<Rightarrow> nat" where
  "probe_pos idx hash i = unat ((hash_to_bucket hash (ix_mask idx) + of_nat i) AND ix_mask idx)"

datatype probe = ProbeEnd | ProbeEmpty nat | ProbeHit nat

text \<open>The loop that \<open>kllm_index_lookup\<close> and \<open>kllm_index_evict\<close> share.\<close>

fun probe_scan :: "kllm_cache_index \<Rightarrow> u8 list \<Rightarrow> nat list \<Rightarrow> probe option" where
  "probe_scan idx hash [] = Some ProbeEnd"
| "probe_scan idx hash (i # is) = do {
     e \<leftarrow> arr_get (ix_entries idx) (probe_pos idx hash i);
     if ce_slot_index e = EMPTY_SLOT then Some (ProbeEmpty (probe_pos idx hash i))
     else if hash_eq (ce_hash e) hash then Some (ProbeHit (probe_pos idx hash i))
     else probe_scan idx hash is }"

definition probe_all :: "kllm_cache_index \<Rightarrow> u8 list \<Rightarrow> probe option" where
  "probe_all idx hash = probe_scan idx hash [0 ..< unat (ix_capacity idx)]"

definition lookup_miss :: "kllm_cache_index \<Rightarrow> kllm_cache_index" where
  "lookup_miss idx = idx\<lparr>ix_stats := (ix_stats idx)\<lparr>is_misses := is_misses (ix_stats idx) + 1\<rparr>\<rparr>"

definition kllm_index_lookup ::
  "u64 \<Rightarrow> kllm_cache_index \<Rightarrow> u8 list \<Rightarrow> (u64 \<times> kllm_cache_index) option" where
  "kllm_index_lookup now_ns idx hash = do {
     r \<leftarrow> probe_all idx hash;
     case r of
       ProbeHit pos \<Rightarrow> do {
         e \<leftarrow> arr_get (ix_entries idx) pos;
         es \<leftarrow> arr_set (ix_entries idx) pos (e\<lparr>ce_last_access_ns := now_ns\<rparr>);
         Some (kllm_arena_slot_ptr (ix_arena idx) (ce_slot_index e),
           idx\<lparr>ix_entries := es,
             ix_stats := (ix_stats idx)\<lparr>is_hits := is_hits (ix_stats idx) + 1\<rparr>\<rparr>) }
     | _ \<Rightarrow> Some (0, lookup_miss idx) }"

fun lru_scan :: "kllm_cache_entry list \<Rightarrow> nat list \<Rightarrow> u64 \<Rightarrow> nat \<Rightarrow> nat option" where
  "lru_scan es [] oldest victim = Some victim"
| "lru_scan es (i # is) oldest victim = do {
     e \<leftarrow> arr_get es i;
     if ce_slot_index e = EMPTY_SLOT then lru_scan es is oldest victim
     else if ce_last_access_ns e < oldest then lru_scan es is (ce_last_access_ns e) i
     else lru_scan es is oldest victim }"

definition find_lru_entry :: "kllm_cache_index \<Rightarrow> nat option" where
  "find_lru_entry idx = lru_scan (ix_entries idx) [0 ..< unat (ix_capacity idx)] (- 1) 0"

text \<open>
  \<open>(double)occupied / capacity >= 0.85\<close>. The double nearest to 0.85 is
  \<open>7656119366529843 / 2 ^ 53\<close>, and dividing by a power of two is exact; \<open>0 / 0\<close> is a NaN and
  compares false.
\<close>

definition over_load_factor :: "u32 \<Rightarrow> u32 \<Rightarrow> bool" where
  "over_load_factor occupied cap \<longleftrightarrow>
     cap \<noteq> 0 \<and> 7656119366529843 * uint cap \<le> uint occupied * 2 ^ 53"

text \<open>Emptying an entry: its arena slot is freed and the counters move.\<close>

definition evict_at :: "kllm_cache_index \<Rightarrow> nat \<Rightarrow> kllm_cache_index option" where
  "evict_at idx pos = do {
     e \<leftarrow> arr_get (ix_entries idx) pos;
     arena \<leftarrow> kllm_arena_free (ix_arena idx) (kllm_arena_slot_ptr (ix_arena idx) (ce_slot_index e));
     es \<leftarrow> arr_set (ix_entries idx) pos (e\<lparr>ce_slot_index := EMPTY_SLOT\<rparr>);
     Some (idx\<lparr>ix_entries := es, ix_occupied := ix_occupied idx - 1, ix_arena := arena,
       ix_stats := (ix_stats idx)\<lparr>is_evictions := is_evictions (ix_stats idx) + 1\<rparr>\<rparr>) }"

fun find_empty :: "kllm_cache_index \<Rightarrow> u8 list \<Rightarrow> nat list \<Rightarrow> nat option option" where
  "find_empty idx hash [] = Some None"
| "find_empty idx hash (i # is) = do {
     e \<leftarrow> arr_get (ix_entries idx) (probe_pos idx hash i);
     if ce_slot_index e = EMPTY_SLOT then Some (Some (probe_pos idx hash i))
     else find_empty idx hash is }"

definition store_at :: "u64 \<Rightarrow> kllm_cache_index \<Rightarrow> u8 list \<Rightarrow> u32 \<Rightarrow> nat \<Rightarrow> kllm_cache_index option" where
  "store_at now_ns idx hash slot pos = do {
     es \<leftarrow> arr_set (ix_entries idx) pos
       \<lparr>ce_hash = take 32 hash, ce_slot_index = slot, ce_flags = 0, ce_last_access_ns = now_ns\<rparr>;
     Some (idx\<lparr>ix_entries := es, ix_occupied := ix_occupied idx + 1,
       ix_stats := (ix_stats idx)\<lparr>is_insertions := is_insertions (ix_stats idx) + 1\<rparr>\<rparr>) }"

definition make_room :: "kllm_cache_index \<Rightarrow> kllm_cache_index option" where
  "make_room idx =
    (if over_load_factor (ix_occupied idx) (ix_capacity idx)
     then find_lru_entry idx \<bind> evict_at idx
     else Some idx)"

definition kllm_index_insert ::
  "u64 \<Rightarrow> kllm_cache_index \<Rightarrow> u8 list \<Rightarrow> (u64 \<times> kllm_cache_index) option" where
  "kllm_index_insert now_ns idx hash = do {
     idx \<leftarrow> make_room idx;
     (block, arena) \<leftarrow> kllm_arena_alloc (ix_arena idx);
     if block = 0 then Some (0, idx\<lparr>ix_arena := arena\<rparr>)
     else do {
       slot \<leftarrow> kllm_arena_slot_index arena block;
       r \<leftarrow> find_empty idx hash [0 ..< unat (ix_capacity idx)];
       case r of
         Some pos \<Rightarrow> do {
           idx \<leftarrow> store_at now_ns (idx\<lparr>ix_arena := arena\<rparr>) hash slot pos;
           Some (block, idx) }
       | None \<Rightarrow> do {
           arena \<leftarrow> kllm_arena_free arena block;
           Some (0, idx\<lparr>ix_arena := arena\<rparr>) } } }"

definition kllm_index_evict :: "kllm_cache_index \<Rightarrow> u8 list \<Rightarrow> (bool \<times> kllm_cache_index) option" where
  "kllm_index_evict idx hash = do {
     r \<leftarrow> probe_all idx hash;
     case r of
       ProbeHit pos \<Rightarrow> do { idx \<leftarrow> evict_at idx pos; Some (True, idx) }
     | _ \<Rightarrow> Some (False, idx) }"

definition kllm_index_get_stats :: "kllm_cache_index \<Rightarrow> kllm_index_stats" where
  "kllm_index_get_stats idx = (ix_stats idx)\<lparr>is_occupied := ix_occupied idx\<rparr>"

section \<open>Well-formed indexes\<close>

definition live :: "kllm_cache_entry list \<Rightarrow> nat set" where
  "live es = {p. p < length es \<and> \<not> entry_empty (es ! p)}"

definition entry_slot :: "kllm_cache_entry list \<Rightarrow> nat \<Rightarrow> nat" where
  "entry_slot es p = unat (ce_slot_index (es ! p))"

text \<open>
  The table has its capacity; \<open>occupied\<close> counts the live entries; live entries own pairwise
  different allocated slots; and no time stamp is the maximal one.
\<close>

definition slots_ok :: "kllm_arena \<Rightarrow> kllm_cache_entry list \<Rightarrow> bool" where
  "slots_ok arena es \<longleftrightarrow> inj_on (entry_slot es) (live es) \<and>
     (\<forall>p \<in> live es. entry_slot es p < unat (ar_total_slots arena) \<and> entry_slot es p \<notin> free_slots arena)"

definition index_wf :: "kllm_cache_index \<Rightarrow> bool" where
  "index_wf idx \<longleftrightarrow> pow2 (ix_capacity idx) \<and> ix_mask idx = ix_capacity idx - 1 \<and>
     length (ix_entries idx) = unat (ix_capacity idx) \<and>
     unat (ix_occupied idx) = card (live (ix_entries idx)) \<and>
     (\<forall>p \<in> live (ix_entries idx). ce_last_access_ns (ix_entries idx ! p) < - 1) \<and>
     arena_wf (ix_arena idx) \<and> unat (ar_total_slots (ix_arena idx)) < 2 ^ 32 \<and>
     slots_ok (ix_arena idx) (ix_entries idx)"

section \<open>Probing\<close>

lemma probe_pos_mod:
  assumes "index_wf idx" and "i < unat (ix_capacity idx)"
  shows "probe_pos idx hash i =
    (unat (hash_to_bucket hash (ix_mask idx)) + i) mod unat (ix_capacity idx)"
proof -
  have "i < 2 ^ LENGTH(32)"
    using assms(2) unsigned_less[of "ix_capacity idx", where ?'a = nat] by (rule less_trans)
  then have "unat (of_nat i :: u32) = i" by (simp add: unsigned_of_nat take_bit_nat_eq_self)
  then show ?thesis
    using assms(1) by (simp add: index_wf_def probe_pos_def unat_add_and_mask)
qed

lemma probe_pos_bound:
  assumes "index_wf idx" and "i < unat (ix_capacity idx)"
  shows "probe_pos idx hash i < length (ix_entries idx)"
  using assms(1,2) by (simp add: probe_pos_mod[OF assms]) (simp add: index_wf_def pow2_pos)

lemma probe_reaches:
  assumes "index_wf idx" and "p < length (ix_entries idx)"
  shows "\<exists>i < unat (ix_capacity idx). probe_pos idx hash i = p"
proof -
  let ?n = "unat (ix_capacity idx)" and ?b = "unat (hash_to_bucket hash (ix_mask idx))"
  have n: "p < ?n" "0 < ?n" using assms by (simp_all add: index_wf_def pow2_pos)
  let ?i = "circ_dist ?n p (?b mod ?n)"
  have i: "?i < ?n" using n by simp
  have "(?b mod ?n + ?i) mod ?n = p" using n by (intro circ_dist_reach) simp_all
  then have "(?b + ?i) mod ?n = p" by (simp add: mod_add_left_eq)
  then have "probe_pos idx hash ?i = p" using probe_pos_mod[OF assms(1) i] by simp
  with i show ?thesis by blast
qed

lemma probe_scan_cases:
  assumes "\<forall>i \<in> set is. probe_pos idx hash i < length (ix_entries idx)"
  defines "E \<equiv> \<lambda>i. ix_entries idx ! probe_pos idx hash i"
  shows "(probe_scan idx hash is = Some ProbeEnd \<and> (\<forall>i \<in> set is. \<not> entry_empty (E i) \<and> \<not> hash_eq (ce_hash (E i)) hash)) \<or>
    (\<exists>us i vs. is = us @ i # vs \<and> (\<forall>j \<in> set us. \<not> entry_empty (E j) \<and> \<not> hash_eq (ce_hash (E j)) hash) \<and>
      (if entry_empty (E i) then probe_scan idx hash is = Some (ProbeEmpty (probe_pos idx hash i))
       else hash_eq (ce_hash (E i)) hash \<and> probe_scan idx hash is = Some (ProbeHit (probe_pos idx hash i))))"
    (is "?end is \<or> ?stop is")
  using assms(1)
proof (induction "is")
  case (Cons k ks)
  then have k: "probe_pos idx hash k < length (ix_entries idx)" by simp
  show ?case
  proof (cases "entry_empty (E k) \<or> hash_eq (ce_hash (E k)) hash")
    case True
    with k have "?stop (k # ks)"
      by (intro exI[of _ "[]"]) (auto simp: E_def entry_empty_def arr_get_in)
    then show ?thesis ..
  next
    case False
    with k have s: "probe_scan idx hash (k # ks) = probe_scan idx hash ks"
      by (simp add: E_def entry_empty_def arr_get_in)
    from Cons consider "?end ks" | "?stop ks" by auto
    then show ?thesis
    proof cases
      case 1
      with False s show ?thesis by simp
    next
      case 2
      then obtain us i vs where u: "ks = us @ i # vs"
        "\<forall>j \<in> set us. \<not> entry_empty (E j) \<and> \<not> hash_eq (ce_hash (E j)) hash"
        "if entry_empty (E i) then probe_scan idx hash ks = Some (ProbeEmpty (probe_pos idx hash i))
         else hash_eq (ce_hash (E i)) hash \<and> probe_scan idx hash ks = Some (ProbeHit (probe_pos idx hash i))"
        by blast
      have "?stop (k # ks)"
        using u False s by (intro exI[of _ "k # us"] exI[of _ i] exI[of _ vs]) auto
      then show ?thesis ..
    qed
  qed
qed simp

lemma find_empty_cases:
  assumes "\<forall>i \<in> set is. probe_pos idx hash i < length (ix_entries idx)"
    and "\<exists>i \<in> set is. entry_empty (ix_entries idx ! probe_pos idx hash i)"
  shows "\<exists>us i vs. is = us @ i # vs \<and> entry_empty (ix_entries idx ! probe_pos idx hash i) \<and>
    (\<forall>j \<in> set us. \<not> entry_empty (ix_entries idx ! probe_pos idx hash j)) \<and>
    find_empty idx hash is = Some (Some (probe_pos idx hash i))"
  using assms
proof (induction "is")
  case (Cons k ks)
  show ?case
  proof (cases "entry_empty (ix_entries idx ! probe_pos idx hash k)")
    case True
    with Cons.prems show ?thesis
      by (intro exI[of _ "[]"] exI[of _ k] exI[of _ ks]) (auto simp: entry_empty_def arr_get_in)
  next
    case False
    with Cons obtain us i vs where "ks = us @ i # vs"
      "entry_empty (ix_entries idx ! probe_pos idx hash i)"
      "\<forall>j \<in> set us. \<not> entry_empty (ix_entries idx ! probe_pos idx hash j)"
      "find_empty idx hash ks = Some (Some (probe_pos idx hash i))" by auto
    with False Cons.prems show ?thesis
      by (intro exI[of _ "k # us"] exI[of _ i] exI[of _ vs]) (simp add: entry_empty_def arr_get_in)
  qed
qed simp

section \<open>The LRU entry\<close>

lemma lru_scan_spec:
  assumes "\<forall>i \<in> set is. i < length es"
  shows "\<exists>r. lru_scan es is oldest v = Some r \<and>
    (if \<exists>i \<in> set is. i \<in> live es \<and> ce_last_access_ns (es ! i) < oldest
     then r \<in> set is \<and> r \<in> live es \<and> ce_last_access_ns (es ! r) < oldest \<and>
       (\<forall>i \<in> set is. i \<in> live es \<longrightarrow> ce_last_access_ns (es ! r) \<le> ce_last_access_ns (es ! i))
     else r = v)"
  using assms
proof (induction "is" arbitrary: oldest v)
  case (Cons k ks)
  let ?t = "\<lambda>i. ce_last_access_ns (es ! i)"
  show ?case
  proof (cases "k \<in> live es \<and> ?t k < oldest")
    case True
    with Cons obtain r where r: "lru_scan es ks (?t k) k = Some r"
      "if \<exists>i \<in> set ks. i \<in> live es \<and> ?t i < ?t k
       then r \<in> set ks \<and> r \<in> live es \<and> ?t r < ?t k \<and> (\<forall>i \<in> set ks. i \<in> live es \<longrightarrow> ?t r \<le> ?t i)
       else r = k" by force
    from True Cons.prems have "lru_scan es (k # ks) oldest v = lru_scan es ks (?t k) k"
      by (simp add: arr_get_in live_def entry_empty_def)
    with r True show ?thesis
      by (cases "\<exists>i \<in> set ks. i \<in> live es \<and> ?t i < ?t k") (auto simp: not_less)
  next
    case False
    with Cons.prems have "lru_scan es (k # ks) oldest v = lru_scan es ks oldest v"
      by (auto simp add: arr_get_in live_def entry_empty_def)
    moreover from Cons obtain r where "lru_scan es ks oldest v = Some r"
      "if \<exists>i \<in> set ks. i \<in> live es \<and> ?t i < oldest
       then r \<in> set ks \<and> r \<in> live es \<and> ?t r < oldest \<and> (\<forall>i \<in> set ks. i \<in> live es \<longrightarrow> ?t r \<le> ?t i)
       else r = v" by force
    ultimately show ?thesis
      using False by (cases "\<exists>i \<in> set ks. i \<in> live es \<and> ?t i < oldest") (auto simp: not_less)
  qed
qed simp

lemma find_lru_spec:
  assumes "index_wf idx" and "live (ix_entries idx) \<noteq> {}"
  shows "\<exists>v. find_lru_entry idx = Some v \<and> v \<in> live (ix_entries idx) \<and>
    (\<forall>p \<in> live (ix_entries idx). ce_last_access_ns (ix_entries idx ! v) \<le> ce_last_access_ns (ix_entries idx ! p))"
proof -
  have l: "length (ix_entries idx) = unat (ix_capacity idx)"
    "\<forall>p \<in> live (ix_entries idx). ce_last_access_ns (ix_entries idx ! p) < - 1"
    using assms(1) by (simp_all add: index_wf_def)
  have sub: "p < unat (ix_capacity idx)" if "p \<in> live (ix_entries idx)" for p
    using that l(1) by (simp add: live_def)
  have "\<exists>i \<in> set [0 ..< unat (ix_capacity idx)]. i \<in> live (ix_entries idx) \<and>
      ce_last_access_ns (ix_entries idx ! i) < - 1"
    using assms(2) sub l(2) by fastforce
  with lru_scan_spec[of "[0 ..< unat (ix_capacity idx)]" "ix_entries idx" "- 1" 0] l(1) sub
  show ?thesis unfolding find_lru_entry_def by auto
qed

section \<open>Evicting and storing an entry\<close>

lemma finite_live [simp]: "finite (live es)"
  by (simp add: live_def)

lemma card_live_le: "card (live es) \<le> length es"
proof -
  have "live es \<subseteq> {..<length es}" by (auto simp: live_def)
  from card_mono[OF finite_lessThan this] show ?thesis by simp
qed

lemma live_clear:
  assumes "p \<in> live es" and "entry_empty e"
  shows "live (es[p := e]) = live es - {p}"
  using assms by (auto simp: live_def nth_list_update)

lemma live_store:
  assumes "p < length es" and "\<not> entry_empty e"
  shows "live (es[p := e]) = insert p (live es)"
  using assms by (auto simp: live_def nth_list_update)

lemma slots_ok_clear:
  assumes "slots_ok arena es" and "p \<in> live es" and "entry_empty e"
    and "ar_total_slots arena' = ar_total_slots arena"
    and "free_slots arena' = insert (entry_slot es p) (free_slots arena)"
  shows "slots_ok arena' (es[p := e])"
proof -
  have same: "entry_slot (es[p := e]) q = entry_slot es q" if "q \<in> live es - {p}" for q
    using that by (simp add: entry_slot_def)
  have "inj_on (entry_slot (es[p := e])) (live es - {p})"
    using assms(1) same by (auto simp: slots_ok_def inj_on_def)
  moreover have "entry_slot es q \<noteq> entry_slot es p" if "q \<in> live es - {p}" for q
    using that assms(1,2) by (auto simp: slots_ok_def dest: inj_onD)
  ultimately show ?thesis
    using assms same unfolding slots_ok_def live_clear[OF assms(2,3)] by auto
qed

lemma evict_at_spec:
  assumes "index_wf idx" and "p \<in> live (ix_entries idx)"
  shows "\<exists>idx'. evict_at idx p = Some idx' \<and> index_wf idx' \<and>
    ix_capacity idx' = ix_capacity idx \<and> live (ix_entries idx') = live (ix_entries idx) - {p} \<and>
    (\<forall>q. q \<noteq> p \<longrightarrow> ix_entries idx' ! q = ix_entries idx ! q) \<and>
    free_slots (ix_arena idx') = insert (entry_slot (ix_entries idx) p) (free_slots (ix_arena idx))"
proof -
  let ?es = "ix_entries idx" and ?a = "ix_arena idx"
  let ?e = "?es ! p" and ?i = "entry_slot (ix_entries idx) p"
  note wf = assms(1)[unfolded index_wf_def]
  have p: "p < length ?es" using assms(2) by (simp add: live_def)
  have i: "?i < unat (ar_total_slots ?a)" "?i \<notin> free_slots ?a"
    using wf assms(2) by (simp_all add: slots_ok_def)
  have rw: "region_wf ?a" "bitmap_wf ?a" using wf by (simp_all add: arena_wf_def)
  have "kllm_arena_slot_ptr ?a (ce_slot_index ?e) = slot_addr ?a ?i"
    using slot_ptr_addr[OF rw(1) i(1)] wf by (simp add: entry_slot_def)
  then have f: "kllm_arena_free ?a (kllm_arena_slot_ptr ?a (ce_slot_index ?e)) = Some (freed ?a ?i)"
    using free_slot[OF rw i(1)] by simp
  have emp: "entry_empty (?e\<lparr>ce_slot_index := EMPTY_SLOT\<rparr>)" by (simp add: entry_empty_def)
  note lv = live_clear[OF assms(2) emp]
  have tot: "ar_total_slots (freed ?a ?i) = ar_total_slots ?a" by (simp add: freed_def)
  have so: "slots_ok (freed ?a ?i) (?es[p := ?e\<lparr>ce_slot_index := EMPTY_SLOT\<rparr>])"
    using wf freed_free[OF rw(2) i(1)] by (intro slots_ok_clear[OF _ assms(2) emp tot]) simp_all
  have "0 < unat (ix_occupied idx)" using wf assms(2) by (auto simp: card_gt_0_iff)
  then have occ: "unat (ix_occupied idx - 1) = card (live ?es - {p})"
    using wf assms(2) by (subst unat_minus_one) auto
  have "arena_wf (freed ?a ?i)" using wf i by (intro freed_wf) simp_all
  with wf p f lv so occ tot freed_free[OF rw(2) i(1)] show ?thesis
    by (auto simp: evict_at_def fault_simps index_wf_def)
qed

lemma slots_ok_store:
  assumes "slots_ok arena es" and "p < length es" and "entry_empty (es ! p)" and "\<not> entry_empty e"
    and "ar_total_slots arena' = ar_total_slots arena" and "m < unat (ar_total_slots arena)"
    and "m \<in> free_slots arena" and "unat (ce_slot_index e) = m"
    and "free_slots arena' = free_slots arena - {m}"
  shows "slots_ok arena' (es[p := e])"
proof -
  have np: "p \<notin> live es" using assms(3) by (simp add: live_def)
  have same: "entry_slot (es[p := e]) q = entry_slot es q" if "q \<in> live es" for q
  proof -
    have "q \<noteq> p" using that np by blast
    then show ?thesis by (simp add: entry_slot_def)
  qed
  have new: "entry_slot (es[p := e]) p = m" using assms(2,8) by (simp add: entry_slot_def)
  have "inj_on (entry_slot (es[p := e])) (insert p (live es))"
  proof -
    have "entry_slot (es[p := e]) ` live es = entry_slot es ` live es"
      using same by (intro image_cong) simp_all
    moreover have "m \<notin> entry_slot es ` live es" using assms(1,7) by (auto simp: slots_ok_def)
    moreover have "inj_on (entry_slot (es[p := e])) (live es)"
      using assms(1) same by (auto simp: slots_ok_def inj_on_def)
    ultimately show ?thesis using np new by simp
  qed
  then show ?thesis
    using assms same new unfolding slots_ok_def live_store[OF assms(2,4)] by auto
qed

lemma store_at_spec:
  fixes hash :: "u8 list"
  assumes "index_wf idx" and "p < length (ix_entries idx)" and "entry_empty (ix_entries idx ! p)"
    and "free_slots (ix_arena idx) \<noteq> {}" and "now_ns < - 1"
  defines "m \<equiv> Min (free_slots (ix_arena idx))"
    and "e \<equiv> \<lparr>ce_hash = take 32 hash, ce_slot_index = of_nat (Min (free_slots (ix_arena idx))),
      ce_flags = 0, ce_last_access_ns = now_ns\<rparr>"
  shows "\<exists>idx'. store_at now_ns (idx\<lparr>ix_arena := claimed (ix_arena idx) m\<rparr>) hash (of_nat m) p = Some idx' \<and>
    index_wf idx' \<and> ix_entries idx' = (ix_entries idx)[p := e] \<and> ix_capacity idx' = ix_capacity idx \<and>
    ix_arena idx' = claimed (ix_arena idx) m \<and> \<not> entry_empty e"
proof -
  let ?a = "ix_arena idx"
  note wf = assms(1)[unfolded index_wf_def]
  have rw: "region_wf ?a" "bitmap_wf ?a" using wf by (simp_all add: arena_wf_def)
  have m: "m \<in> free_slots ?a" using assms(4) by (simp add: m_def)
  then have mt: "m < unat (ar_total_slots ?a)" by (simp add: free_slots_def)
  have small: "m < 2 ^ 32 - 1" using mt wf by simp
  then have um: "unat (of_nat m :: u32) = m" by (simp add: unsigned_of_nat take_bit_nat_eq_self)
  have ne: "\<not> entry_empty e"
  proof
    assume "entry_empty e"
    then have "(of_nat m :: u32) = - 1" by (simp add: entry_empty_def e_def m_def EMPTY_SLOT_def)
    then have "m = unat (- 1 :: u32)" using um by simp
    moreover have "unat (- 1 :: u32) = 2 ^ 32 - 1" by (simp add: unsigned_minus_1_eq_mask mask_eq_exp_minus_1)
    ultimately show False using small by simp
  qed
  have cf: "free_slots (claimed ?a m) = free_slots ?a - {m}" by (rule claimed_free[OF rw(2) mt])
  have ct: "ar_total_slots (claimed ?a m) = ar_total_slots ?a" by (simp add: claimed_def)
  have so: "slots_ok (claimed ?a m) ((ix_entries idx)[p := e])"
    using wf um by (intro slots_ok_store[OF _ assms(2,3) ne ct mt m _ cf]) (simp_all add: e_def m_def)
  have np: "p \<notin> live (ix_entries idx)" using assms(3) by (simp add: live_def)
  have "card (insert p (live (ix_entries idx))) \<le> length (ix_entries idx)"
    using card_live_le[of "(ix_entries idx)[p := e]"] live_store[OF assms(2) ne] by simp
  then have "unat (ix_occupied idx) + 1 \<le> unat (ix_capacity idx)" using wf np by simp
  then have "unat (ix_occupied idx) + 1 < 2 ^ LENGTH(32)"
    using unsigned_less[of "ix_capacity idx", where ?'a = nat] by (rule le_less_trans)
  then have occ: "unat (ix_occupied idx + 1) = card (insert p (live (ix_entries idx)))"
    using wf np by (simp add: unat_word_ariths(1))
  have aw: "arena_wf (claimed ?a m)" using wf assms(4) unfolding m_def by (intro claimed_wf) simp_all
  have "\<forall>q \<in> insert p (live (ix_entries idx)). ce_last_access_ns ((ix_entries idx)[p := e] ! q) < - 1"
    using wf assms(2,5) by (auto simp: e_def nth_list_update)
  with wf assms(2) so occ aw ct ne live_store[OF assms(2) ne] show ?thesis
    by (simp add: store_at_def fault_simps index_wf_def) (simp add: e_def m_def)
qed

section \<open>Insertion\<close>

lemma load_factor_room:
  assumes "index_wf idx"
  shows "over_load_factor (ix_occupied idx) (ix_capacity idx) \<Longrightarrow> live (ix_entries idx) \<noteq> {}"
    and "\<not> over_load_factor (ix_occupied idx) (ix_capacity idx) \<Longrightarrow>
      card (live (ix_entries idx)) < unat (ix_capacity idx)"
proof -
  note wf = assms[unfolded index_wf_def]
  have occ: "unat (ix_occupied idx) = card (live (ix_entries idx))" using wf by blast
  have u: "uint (ix_occupied idx) = int (card (live (ix_entries idx)))"
    "uint (ix_capacity idx) = int (unat (ix_capacity idx))"
    by (simp_all only: uint_nat occ)
  have c: "0 < unat (ix_capacity idx)" using wf by (simp add: pow2_pos)
  then have c0: "ix_capacity idx \<noteq> 0" by auto
  show "live (ix_entries idx) \<noteq> {}" if "over_load_factor (ix_occupied idx) (ix_capacity idx)"
  proof
    assume "live (ix_entries idx) = {}"
    then have "uint (ix_occupied idx) = 0" using u(1) by simp
    moreover have "0 < uint (ix_capacity idx)" using c by (simp only: u(2) of_nat_0_less_iff)
    ultimately show False using that by (simp add: over_load_factor_def)
  qed
  show "card (live (ix_entries idx)) < unat (ix_capacity idx)"
    if n: "\<not> over_load_factor (ix_occupied idx) (ix_capacity idx)"
  proof -
    have "card (live (ix_entries idx)) \<noteq> unat (ix_capacity idx)"
    proof
      assume "card (live (ix_entries idx)) = unat (ix_capacity idx)"
      then have "uint (ix_occupied idx) = uint (ix_capacity idx)" by (simp only: u)
      with n c0 show False by (simp add: over_load_factor_def)
    qed
    moreover have "card (live (ix_entries idx)) \<le> unat (ix_capacity idx)"
      using card_live_le[of "ix_entries idx"] wf by simp
    ultimately show ?thesis by simp
  qed
qed

definition lru_evicted :: "kllm_cache_index \<Rightarrow> kllm_cache_index \<Rightarrow> bool" where
  "lru_evicted idx idx' \<longleftrightarrow> (\<exists>v \<in> live (ix_entries idx).
     (\<forall>p \<in> live (ix_entries idx). ce_last_access_ns (ix_entries idx ! v) \<le> ce_last_access_ns (ix_entries idx ! p)) \<and>
     live (ix_entries idx') = live (ix_entries idx) - {v} \<and>
     (\<forall>q. q \<noteq> v \<longrightarrow> ix_entries idx' ! q = ix_entries idx ! q) \<and>
     free_slots (ix_arena idx') = insert (entry_slot (ix_entries idx) v) (free_slots (ix_arena idx)))"

lemma make_room_spec:
  assumes "index_wf idx"
  shows "\<exists>idx1. make_room idx = Some idx1 \<and> index_wf idx1 \<and> ix_capacity idx1 = ix_capacity idx \<and>
    card (live (ix_entries idx1)) < unat (ix_capacity idx1) \<and>
    (if over_load_factor (ix_occupied idx) (ix_capacity idx) then lru_evicted idx idx1 else idx1 = idx)"
proof (cases "over_load_factor (ix_occupied idx) (ix_capacity idx)")
  case True
  from find_lru_spec[OF assms load_factor_room(1)[OF assms True]] obtain v where
    v: "find_lru_entry idx = Some v" "v \<in> live (ix_entries idx)"
    "\<forall>p \<in> live (ix_entries idx). ce_last_access_ns (ix_entries idx ! v) \<le> ce_last_access_ns (ix_entries idx ! p)"
    by blast
  from evict_at_spec[OF assms v(2)] obtain idx1 where
    e: "evict_at idx v = Some idx1" "index_wf idx1" "ix_capacity idx1 = ix_capacity idx"
    "live (ix_entries idx1) = live (ix_entries idx) - {v}"
    "\<forall>q. q \<noteq> v \<longrightarrow> ix_entries idx1 ! q = ix_entries idx ! q"
    "free_slots (ix_arena idx1) = insert (entry_slot (ix_entries idx) v) (free_slots (ix_arena idx))"
    by blast
  have "card (live (ix_entries idx) - {v}) < card (live (ix_entries idx))"
    using v(2) by (intro psubset_card_mono) auto
  also have "\<dots> \<le> unat (ix_capacity idx)"
    using card_live_le[of "ix_entries idx"] assms by (simp add: index_wf_def)
  finally have "card (live (ix_entries idx1)) < unat (ix_capacity idx1)" using e by simp
  with True v e show ?thesis by (auto simp: make_room_def lru_evicted_def)
next
  case False
  with assms load_factor_room(2)[OF assms] show ?thesis by (simp add: make_room_def)
qed

definition new_entry :: "u64 \<Rightarrow> kllm_arena \<Rightarrow> u8 list \<Rightarrow> kllm_cache_entry" where
  "new_entry now_ns arena hash = \<lparr>ce_hash = take 32 hash, ce_slot_index = of_nat (Min (free_slots arena)),
     ce_flags = 0, ce_last_access_ns = now_ns\<rparr>"

lemma insert_spec:
  assumes "index_wf idx" and "now_ns < - 1" and "make_room idx = Some idx1" and "index_wf idx1"
    and "card (live (ix_entries idx1)) < unat (ix_capacity idx1)"
    and "free_slots (ix_arena idx1) \<noteq> {}"
  shows "\<exists>us i vs idx'. [0 ..< unat (ix_capacity idx1)] = us @ i # vs \<and>
     (\<forall>j \<in> set us. \<not> entry_empty (ix_entries idx1 ! probe_pos idx1 hash j)) \<and>
     entry_empty (ix_entries idx1 ! probe_pos idx1 hash i) \<and>
     kllm_index_insert now_ns idx hash =
       Some (slot_addr (ix_arena idx1) (Min (free_slots (ix_arena idx1))), idx') \<and>
     index_wf idx' \<and> ix_capacity idx' = ix_capacity idx1 \<and>
     ix_entries idx' = (ix_entries idx1)[probe_pos idx1 hash i := new_entry now_ns (ix_arena idx1) hash] \<and>
     ix_arena idx' = claimed (ix_arena idx1) (Min (free_slots (ix_arena idx1))) \<and>
     \<not> entry_empty (new_entry now_ns (ix_arena idx1) hash)"
proof -
  let ?a = "ix_arena idx1" and ?is = "[0 ..< unat (ix_capacity idx1)]"
  define m where "m = Min (free_slots ?a)"
  note wf = assms(4)[unfolded index_wf_def]
  have rw: "region_wf ?a" "bitmap_wf ?a" "arena_wf ?a" using wf by (simp_all add: arena_wf_def)
  have mt: "m < unat (ar_total_slots ?a)" using lowest_free(1)[OF rw(2) assms(6)] by (simp add: m_def)
  have al: "kllm_arena_alloc ?a = Some (slot_addr ?a m, claimed ?a m)"
    using alloc_lowest[OF rw(3) assms(6)] by (simp add: m_def)
  have si: "kllm_arena_slot_index (claimed ?a m) (slot_addr ?a m) = Some (of_nat m)"
    using slot_index_addr[OF rw(1) mt]
    by (simp add: kllm_arena_slot_index_def claimed_def split: if_splits)
  have "live (ix_entries idx1) \<noteq> {..<length (ix_entries idx1)}" using assms(5) wf by auto
  then obtain q where q: "q < length (ix_entries idx1)" "entry_empty (ix_entries idx1 ! q)"
    by (auto simp: live_def)
  from probe_reaches[OF assms(4) q(1), of hash] obtain k where
    "k < unat (ix_capacity idx1)" "probe_pos idx1 hash k = q" by blast
  with q(2) have "\<exists>i \<in> set ?is. entry_empty (ix_entries idx1 ! probe_pos idx1 hash i)" by auto
  moreover have bnd: "\<forall>i \<in> set ?is. probe_pos idx1 hash i < length (ix_entries idx1)"
    using probe_pos_bound[OF assms(4)] by simp
  ultimately obtain us i vs where u: "?is = us @ i # vs"
    "entry_empty (ix_entries idx1 ! probe_pos idx1 hash i)"
    "\<forall>j \<in> set us. \<not> entry_empty (ix_entries idx1 ! probe_pos idx1 hash j)"
    "find_empty idx1 hash ?is = Some (Some (probe_pos idx1 hash i))"
    using find_empty_cases[of ?is idx1 hash] by blast
  have "i \<in> set ?is" unfolding u(1) by simp
  with bnd have pl: "probe_pos idx1 hash i < length (ix_entries idx1)" by blast
  from store_at_spec[OF assms(4) pl u(2) assms(6,2), of hash] obtain idx' where
    st: "store_at now_ns (idx1\<lparr>ix_arena := claimed ?a m\<rparr>) hash (of_nat m) (probe_pos idx1 hash i) = Some idx'"
    "index_wf idx'" "ix_entries idx' = (ix_entries idx1)[probe_pos idx1 hash i := new_entry now_ns ?a hash]"
    "ix_capacity idx' = ix_capacity idx1" "ix_arena idx' = claimed ?a m" "\<not> entry_empty (new_entry now_ns ?a hash)"
    unfolding m_def new_entry_def by blast
  have "kllm_index_insert now_ns idx hash = Some (slot_addr ?a m, idx')"
    using assms(3) al si u(4) st(1) slot_addr_nonnull[OF rw(1) mt]
    by (simp add: kllm_index_insert_def)
  with u st show ?thesis unfolding m_def by blast
qed

lemma insert_full:
  assumes "make_room idx = Some idx1" and "index_wf idx1" and "free_slots (ix_arena idx1) = {}"
  shows "kllm_index_insert now_ns idx hash = Some (0, idx1)"
  using assms alloc_full[of "ix_arena idx1"] by (simp add: kllm_index_insert_def index_wf_def)

section \<open>Lookup\<close>

definition indexed :: "kllm_cache_index \<Rightarrow> u8 list \<Rightarrow> bool" where
  "indexed idx hash \<longleftrightarrow> (\<exists>p \<in> live (ix_entries idx). hash_eq (ce_hash (ix_entries idx ! p)) hash)"

text \<open>The address of the block an entry owns.\<close>

definition entry_block :: "kllm_cache_index \<Rightarrow> nat \<Rightarrow> u64" where
  "entry_block idx p = slot_addr (ix_arena idx) (entry_slot (ix_entries idx) p)"

lemma probe_all_cases:
  assumes "index_wf idx"
  obtains (hit) p where "probe_all idx hash = Some (ProbeHit p)" "p \<in> live (ix_entries idx)"
      "hash_eq (ce_hash (ix_entries idx ! p)) hash"
    | (miss) r where "probe_all idx hash = Some r" "\<And>p. r \<noteq> ProbeHit p"
proof -
  have b: "\<forall>i \<in> set [0 ..< unat (ix_capacity idx)]. probe_pos idx hash i < length (ix_entries idx)"
    using probe_pos_bound[OF assms] by simp
  from probe_scan_cases[OF b] consider (a) "probe_all idx hash = Some ProbeEnd"
    | (b) us i vs where "[0 ..< unat (ix_capacity idx)] = us @ i # vs"
      "if entry_empty (ix_entries idx ! probe_pos idx hash i)
       then probe_all idx hash = Some (ProbeEmpty (probe_pos idx hash i))
       else hash_eq (ce_hash (ix_entries idx ! probe_pos idx hash i)) hash \<and>
         probe_all idx hash = Some (ProbeHit (probe_pos idx hash i))"
    unfolding probe_all_def by blast
  then show ?thesis
  proof cases
    case b
    have "i \<in> set [0 ..< unat (ix_capacity idx)]" unfolding b(1) by simp
    with \<open>\<forall>i \<in> set _. _\<close> have "probe_pos idx hash i < length (ix_entries idx)" by blast
    with b(2) hit[of "probe_pos idx hash i"] miss show ?thesis
      by (cases "entry_empty (ix_entries idx ! probe_pos idx hash i)") (auto simp: live_def)
  qed (use miss in auto)
qed

lemma touch_wf:
  assumes "index_wf idx" and "p \<in> live (ix_entries idx)" and "now_ns < - 1"
  defines "es \<equiv> (ix_entries idx)[p := (ix_entries idx ! p)\<lparr>ce_last_access_ns := now_ns\<rparr>]"
  shows "index_wf (idx\<lparr>ix_entries := es, ix_stats := st\<rparr>)"
proof -
  have slot: "ce_slot_index (es ! q) = ce_slot_index (ix_entries idx ! q)" for q
    using assms(2) by (cases "q = p") (simp_all add: es_def live_def)
  then have "live es = live (ix_entries idx)" by (auto simp: live_def entry_empty_def es_def)
  moreover have "entry_slot es = entry_slot (ix_entries idx)"
    using slot by (auto simp: entry_slot_def)
  moreover have "ce_last_access_ns (es ! q) < - 1" if "q \<in> live (ix_entries idx)" for q
    using that assms by (auto simp: es_def index_wf_def nth_list_update live_def)
  moreover have "length es = length (ix_entries idx)" by (simp add: es_def)
  ultimately show ?thesis using assms(1) by (simp add: index_wf_def slots_ok_def)
qed

lemma lookup_hit:
  assumes "index_wf idx" and "probe_all idx hash = Some (ProbeHit p)" and "p \<in> live (ix_entries idx)"
  shows "kllm_index_lookup now_ns idx hash = Some (entry_block idx p,
    idx\<lparr>ix_entries := (ix_entries idx)[p := (ix_entries idx ! p)\<lparr>ce_last_access_ns := now_ns\<rparr>],
      ix_stats := (ix_stats idx)\<lparr>is_hits := is_hits (ix_stats idx) + 1\<rparr>\<rparr>)"
proof -
  note wf = assms(1)[unfolded index_wf_def]
  have p: "p < length (ix_entries idx)" using assms(3) by (simp add: live_def)
  have i: "entry_slot (ix_entries idx) p < unat (ar_total_slots (ix_arena idx))"
    using wf assms(3) by (simp add: slots_ok_def)
  have "kllm_arena_slot_ptr (ix_arena idx) (ce_slot_index (ix_entries idx ! p)) = entry_block idx p"
    using slot_ptr_addr[OF _ i] wf by (simp add: entry_block_def entry_slot_def arena_wf_def)
  with p assms(2) show ?thesis by (simp add: kllm_index_lookup_def fault_simps)
qed

lemma entry_block_nonnull:
  assumes "index_wf idx" and "p \<in> live (ix_entries idx)"
  shows "entry_block idx p \<noteq> 0"
  using assms slot_addr_nonnull[of "ix_arena idx" "entry_slot (ix_entries idx) p"]
  by (simp add: entry_block_def index_wf_def slots_ok_def arena_wf_def)

lemma lookup_miss_eq:
  assumes "probe_all idx hash = Some r" and "\<And>p. r \<noteq> ProbeHit p"
  shows "kllm_index_lookup now_ns idx hash = Some (0, lookup_miss idx)"
  using assms by (cases r) (auto simp: kllm_index_lookup_def)

lemma lookup_miss_wf: "index_wf (lookup_miss idx) = index_wf idx"
  by (simp add: lookup_miss_def index_wf_def)

lemma probe_scan_prefix:
  assumes "\<forall>i \<in> set us. probe_pos idx hash i < length (ix_entries idx) \<and>
    \<not> entry_empty (ix_entries idx ! probe_pos idx hash i) \<and>
    \<not> hash_eq (ce_hash (ix_entries idx ! probe_pos idx hash i)) hash"
  shows "probe_scan idx hash (us @ ws) = probe_scan idx hash ws"
  using assms by (induction us) (simp_all add: arr_get_in entry_empty_def)

section \<open>Runs of the index\<close>

datatype index_op = OpLookup u64 "u8 list" | OpInsert u64 "u8 list" | OpEvict "u8 list"

fun op_clock :: "index_op \<Rightarrow> u64" where
  "op_clock (OpLookup t h) = t"
| "op_clock (OpInsert t h) = t"
| "op_clock (OpEvict h) = 0"

fun index_step :: "index_op \<Rightarrow> kllm_cache_index \<Rightarrow> kllm_cache_index option" where
  "index_step (OpLookup t h) idx = map_option snd (kllm_index_lookup t idx h)"
| "index_step (OpInsert t h) idx = map_option snd (kllm_index_insert t idx h)"
| "index_step (OpEvict h) idx = map_option snd (kllm_index_evict idx h)"

fun index_run :: "index_op list \<Rightarrow> kllm_cache_index \<Rightarrow> kllm_cache_index option" where
  "index_run [] idx = Some idx"
| "index_run (p # ps) idx = index_step p idx \<bind> index_run ps"

lemma insert_wf:
  assumes "index_wf idx" and "now_ns < - 1"
  shows "\<exists>b idx'. kllm_index_insert now_ns idx hash = Some (b, idx') \<and> index_wf idx'"
proof -
  from make_room_spec[OF assms(1)] obtain idx1 where
    r: "make_room idx = Some idx1" "index_wf idx1" "card (live (ix_entries idx1)) < unat (ix_capacity idx1)"
    by blast
  show ?thesis
  proof (cases "free_slots (ix_arena idx1) = {}")
    case True
    with insert_full[OF r(1,2)] r(2) show ?thesis by blast
  next
    case False
    from insert_spec[OF assms r False, of hash] show ?thesis by blast
  qed
qed

lemma index_step_wf:
  assumes "index_wf idx" and "op_clock p < - 1"
  shows "\<exists>idx'. index_step p idx = Some idx' \<and> index_wf idx'"
proof (cases p)
  case (OpLookup t h)
  show ?thesis
  proof (cases rule: probe_all_cases[OF assms(1), of h])
    case (1 q)
    with assms OpLookup lookup_hit[OF assms(1) 1(1,2), of t] touch_wf[OF assms(1) 1(2), of t]
    show ?thesis by simp
  next
    case (2 r)
    with assms OpLookup lookup_miss_eq[OF 2, of t] show ?thesis by (simp add: lookup_miss_wf)
  qed
next
  case (OpInsert t h)
  with insert_wf[OF assms(1), of t h] assms(2) show ?thesis by auto
next
  case (OpEvict h)
  show ?thesis
  proof (cases rule: probe_all_cases[OF assms(1), of h])
    case (1 q)
    from evict_at_spec[OF assms(1) 1(2)] 1 OpEvict show ?thesis by (auto simp: kllm_index_evict_def)
  next
    case (2 r)
    with assms(1) OpEvict show ?thesis by (cases r) (auto simp: kllm_index_evict_def)
  qed
qed

lemma index_run_wf:
  assumes "index_wf idx" and "\<forall>p \<in> set ops. op_clock p < - 1"
  shows "\<exists>idx'. index_run ops idx = Some idx' \<and> index_wf idx'"
  using assms
proof (induction ops arbitrary: idx)
  case (Cons p ps)
  from index_step_wf[of idx p] Cons.prems obtain idx1 where "index_step p idx = Some idx1" "index_wf idx1"
    by auto
  with Cons show ?case by simp
qed simp

lemma mark_empty_spec:
  assumes "\<forall>i \<in> set is. i < length es"
  shows "\<exists>es'. mark_empty is es = Some es' \<and> length es' = length es \<and>
    (\<forall>j < length es. j \<in> set is \<or> entry_empty (es ! j) \<longrightarrow> entry_empty (es' ! j))"
  using assms
proof (induction "is" arbitrary: es)
  case (Cons i "is")
  then show ?case
    using Cons.IH[of "es[i := (es ! i)\<lparr>ce_slot_index := EMPTY_SLOT\<rparr>]"]
    by (auto simp: fault_simps nth_list_update entry_empty_def)
qed simp

lemma create_index_wf:
  assumes "pow2 cap" and "arena_wf arena" and "unat (ar_total_slots arena) < 2 ^ 32"
  shows "\<exists>idx. kllm_index_create True True cap arena = Some (Some idx) \<and> index_wf idx \<and>
    live (ix_entries idx) = {} \<and> ix_arena idx = arena"
proof -
  from mark_empty_spec[of "[0 ..< unat cap]" "replicate (unat cap) zero_entry"] obtain es where
    es: "mark_empty [0 ..< unat cap] (replicate (unat cap) zero_entry) = Some es"
    "length es = unat cap" "\<forall>j < unat cap. entry_empty (es ! j)" by auto
  then have "live es = {}" by (simp add: live_def)
  with assms es show ?thesis
    by (simp add: kllm_index_create_def pow2_def index_wf_def slots_ok_def)
qed

section \<open>What an insertion changes for lookups\<close>

lemma probe_pos_same:
  assumes "index_wf idx" and "index_wf idx'" and "ix_capacity idx' = ix_capacity idx"
  shows "probe_pos idx' = probe_pos idx"
  using assms by (simp add: index_wf_def probe_pos_def fun_eq_iff)

lemma not_indexed_after_eviction:
  assumes "lru_evicted idx idx1" and "\<not> indexed idx hash"
  shows "\<not> indexed idx1 hash"
  using assms by (auto simp: lru_evicted_def indexed_def)

lemma stored_entry_found:
  assumes wf: "index_wf idx1" "index_wf idx'" "ix_capacity idx' = ix_capacity idx1"
    and split: "[0 ..< unat (ix_capacity idx1)] = us @ i # vs"
    and us: "\<forall>j \<in> set us. \<not> entry_empty (ix_entries idx1 ! probe_pos idx1 hash j)"
    and emp: "entry_empty (ix_entries idx1 ! probe_pos idx1 hash i)"
    and es: "ix_entries idx' = (ix_entries idx1)[probe_pos idx1 hash i := e]"
    and e: "\<not> entry_empty e" "hash_eq (ce_hash e) hash" and n: "\<not> indexed idx1 hash"
  shows "probe_all idx' hash = Some (ProbeHit (probe_pos idx1 hash i))"
proof -
  let ?p = "probe_pos idx1 hash i"
  note same = probe_pos_same[OF wf]
  have bnd: "probe_pos idx1 hash j < length (ix_entries idx1)" if "j \<in> set (us @ i # vs)" for j
    using that probe_pos_bound[OF wf(1)] by (simp add: split[symmetric])
  have "probe_scan idx' hash (us @ i # vs) = probe_scan idx' hash (i # vs)"
  proof (rule probe_scan_prefix, intro ballI)
    fix j assume j: "j \<in> set us"
    let ?q = "probe_pos idx1 hash j"
    have q: "?q < length (ix_entries idx1)" "?q \<noteq> ?p" using j bnd us emp by auto
    with us j n have "\<not> hash_eq (ce_hash (ix_entries idx1 ! ?q)) hash"
      by (auto simp: indexed_def live_def)
    with q us j show "probe_pos idx' hash j < length (ix_entries idx') \<and>
        \<not> entry_empty (ix_entries idx' ! probe_pos idx' hash j) \<and>
        \<not> hash_eq (ce_hash (ix_entries idx' ! probe_pos idx' hash j)) hash"
      by (simp add: same es)
  qed
  moreover have "?p < length (ix_entries idx1)" using bnd by simp
  then have "probe_scan idx' hash (i # vs) = Some (ProbeHit ?p)"
    using e by (simp add: same es arr_get_in entry_empty_def)
  ultimately show ?thesis using wf(3) by (simp add: probe_all_def split)
qed

lemma stored_entry_keeps:
  assumes wf: "index_wf idx1" "index_wf idx'" "ix_capacity idx' = ix_capacity idx1"
    and emp: "entry_empty (ix_entries idx1 ! p)"
    and es: "ix_entries idx' = (ix_entries idx1)[p := e]"
    and hit: "probe_all idx1 h = Some (ProbeHit q)"
  shows "probe_all idx' h = Some (ProbeHit q)"
proof -
  note same = probe_pos_same[OF wf]
  have bnd: "\<forall>i \<in> set [0 ..< unat (ix_capacity idx1)]. probe_pos idx1 h i < length (ix_entries idx1)"
    using probe_pos_bound[OF wf(1)] by simp
  from probe_scan_cases[OF bnd] hit obtain us i vs where
    u: "[0 ..< unat (ix_capacity idx1)] = us @ i # vs" "q = probe_pos idx1 h i"
    "\<forall>j \<in> set us. \<not> entry_empty (ix_entries idx1 ! probe_pos idx1 h j) \<and>
       \<not> hash_eq (ce_hash (ix_entries idx1 ! probe_pos idx1 h j)) h"
    "\<not> entry_empty (ix_entries idx1 ! probe_pos idx1 h i)"
    "hash_eq (ce_hash (ix_entries idx1 ! probe_pos idx1 h i)) h"
    unfolding probe_all_def by (auto split: if_splits)
  have keep: "ix_entries idx' ! probe_pos idx1 h j = ix_entries idx1 ! probe_pos idx1 h j"
    if "j \<in> set us \<or> j = i" for j
  proof -
    have "probe_pos idx1 h j \<noteq> p" using that u(3,4) emp by auto
    then show ?thesis by (simp add: es)
  qed
  have in_range: "probe_pos idx1 h j < length (ix_entries idx')" if "j \<in> set us \<or> j = i" for j
    using that bnd unfolding u(1) es by auto
  have "probe_scan idx' h (us @ i # vs) = probe_scan idx' h (i # vs)"
    by (rule probe_scan_prefix) (use u(3) keep in_range in \<open>auto simp: same\<close>)
  also have "\<dots> = Some (ProbeHit q)"
    using u(2,4,5) keep[of i] in_range[of i] by (simp add: same arr_get_in entry_empty_def)
  finally show ?thesis using wf(3) u(1) by (simp add: probe_all_def)
qed

section \<open>Properties\<close>

definition key_a :: "u8 list" where "key_a = replicate 32 0"
definition key_b :: "u8 list" where "key_b = replicate 31 0 @ [1]"

definition tiny_index :: kllm_cache_index where
  "tiny_index = \<lparr>ix_entries = replicate 4 (zero_entry\<lparr>ce_slot_index := EMPTY_SLOT\<rparr>), ix_capacity = 4,
     ix_mask = 3, ix_occupied = 0, ix_arena = tiny_arena,
     ix_stats = \<lparr>is_hits = 0, is_misses = 0, is_evictions = 0, is_insertions = 0, is_occupied = 0,
       is_capacity = 4\<rparr>\<rparr>"

lemma tiny_index_created: "kllm_index_create True True 4 tiny_arena = Some (Some tiny_index)"
  by code_simp

lemma tiny_index_wf: "index_wf tiny_index" "live (ix_entries tiny_index) = {}"
proof -
  have "unat (ar_total_slots tiny_arena) < 2 ^ 32" by (simp add: tiny_arena_def)
  moreover have "pow2 (4 :: u32)" by (simp add: pow2_def)
  ultimately show "index_wf tiny_index" "live (ix_entries tiny_index) = {}"
    using create_index_wf[OF _ tiny_arena_wf(1), of 4] tiny_index_created by simp_all
qed

lemma sample_clocks: "(0 :: u64) < - 1" "(1 :: u64) < - 1" "(2 :: u64) < - 1" "(3 :: u64) < - 1"
  by code_simp+

text \<open>C5: over every sequence of lookups, insertions and evictions the index never leaves its
  table or the arena bitmap, \<open>occupied\<close> counts exactly the live entries, no two live entries
  share a block, and every live entry owns an allocated block, so no block is freed twice.\<close>

theorem index_run_safe:
  assumes "index_wf idx" and "\<forall>p \<in> set ops. op_clock p < - 1"
  shows "\<exists>idx'. index_run ops idx = Some idx' \<and>
    unat (ix_occupied idx') = card (live (ix_entries idx')) \<and>
    inj_on (entry_slot (ix_entries idx')) (live (ix_entries idx')) \<and>
    (\<forall>p \<in> live (ix_entries idx'). entry_slot (ix_entries idx') p < unat (ar_total_slots (ix_arena idx')) \<and>
       entry_slot (ix_entries idx') p \<notin> free_slots (ix_arena idx')) \<and> index_wf idx'"
  using index_run_wf[OF assms] by (auto simp: index_wf_def slots_ok_def)

theorem index_run_safe_witness:
  "\<exists>idx'. index_run [OpInsert 1 key_a, OpLookup 2 key_b, OpInsert 3 key_b, OpEvict key_a] tiny_index = Some idx' \<and>
     unat (ix_occupied idx') = card (live (ix_entries idx'))"
  using index_run_safe[OF tiny_index_wf(1),
      of "[OpInsert 1 key_a, OpLookup 2 key_b, OpInsert 3 key_b, OpEvict key_a]"]
  by (auto simp: sample_clocks simp del: index_run.simps)

text \<open>C12: a block that \<open>kllm_index_insert\<close> returned for a hash that was not in the table is
  what the next lookup of that hash returns, whether or not the insertion evicted an entry.\<close>

theorem insert_then_lookup:
  assumes "index_wf idx" and "now_ns < - 1" and "\<not> indexed idx hash"
    and "kllm_index_insert now_ns idx hash = Some (b, idx')" and "b \<noteq> 0"
  shows "\<exists>idx''. kllm_index_lookup t idx' hash = Some (b, idx'')"
proof -
  from make_room_spec[OF assms(1)] obtain idx1 where
    r: "make_room idx = Some idx1" "index_wf idx1" "card (live (ix_entries idx1)) < unat (ix_capacity idx1)"
    and ev: "if over_load_factor (ix_occupied idx) (ix_capacity idx) then lru_evicted idx idx1 else idx1 = idx"
    by blast
  have n: "\<not> indexed idx1 hash"
    using ev assms(3) not_indexed_after_eviction by (auto split: if_splits)
  have f: "free_slots (ix_arena idx1) \<noteq> {}" using insert_full[OF r(1,2)] assms(4,5) by auto
  define m where "m = Min (free_slots (ix_arena idx1))"
  from insert_spec[OF assms(1,2) r f, of hash, folded m_def] assms(4) obtain us i vs where
    u: "[0 ..< unat (ix_capacity idx1)] = us @ i # vs"
    "\<forall>j \<in> set us. \<not> entry_empty (ix_entries idx1 ! probe_pos idx1 hash j)"
    "entry_empty (ix_entries idx1 ! probe_pos idx1 hash i)" "b = slot_addr (ix_arena idx1) m"
    "index_wf idx'" "ix_capacity idx' = ix_capacity idx1"
    "ix_entries idx' = (ix_entries idx1)[probe_pos idx1 hash i := new_entry now_ns (ix_arena idx1) hash]"
    "ix_arena idx' = claimed (ix_arena idx1) m" "\<not> entry_empty (new_entry now_ns (ix_arena idx1) hash)"
    by auto
  let ?p = "probe_pos idx1 hash i"
  have "i \<in> set [0 ..< unat (ix_capacity idx1)]" unfolding u(1) by simp
  then have p: "?p < length (ix_entries idx1)" using probe_pos_bound[OF r(2)] by simp
  have "hash_eq (ce_hash (new_entry now_ns (ix_arena idx1) hash)) hash"
    by (simp add: new_entry_def hash_eq_def)
  from stored_entry_found[OF r(2) u(5,6,1,2,3,7,9) this n]
  have h: "probe_all idx' hash = Some (ProbeHit ?p)" .
  have l: "?p \<in> live (ix_entries idx')" using p u(7,9) by (simp add: live_def)
  have "m \<in> free_slots (ix_arena idx1)" using f by (simp add: m_def)
  then have "m < 2 ^ 32" using r(2) by (simp add: free_slots_def index_wf_def)
  then have "entry_slot (ix_entries idx') ?p = m"
    using p by (simp add: u(7) entry_slot_def new_entry_def m_def[symmetric] unsigned_of_nat take_bit_nat_eq_self)
  then have "entry_block idx' ?p = b" by (simp add: entry_block_def u(4,8) slot_addr_def claimed_def)
  with lookup_hit[OF u(5) h l, of t] show ?thesis by blast
qed

theorem insert_then_lookup_witness:
  "\<exists>idx' idx''. kllm_index_insert 1 tiny_index key_a = Some (0x10000, idx') \<and>
     kllm_index_lookup 2 idx' key_a = Some (0x10000, idx'')"
proof -
  have "map_option fst (kllm_index_insert 1 tiny_index key_a) = Some 0x10000" by code_simp
  then obtain idx' where i: "kllm_index_insert 1 tiny_index key_a = Some (0x10000, idx')" by auto
  have "\<not> indexed tiny_index key_a" by (simp add: indexed_def tiny_index_wf)
  from insert_then_lookup[OF tiny_index_wf(1) sample_clocks(2) this i, of 2] i show ?thesis by auto
qed

text \<open>C24: an insertion that finds the table below its load limit leaves every other cached
  block reachable: a hash that was found before is found after, with the same block.\<close>

theorem insert_keeps_lookups:
  assumes "index_wf idx" and "now_ns < - 1"
    and "\<not> over_load_factor (ix_occupied idx) (ix_capacity idx)"
    and "kllm_index_insert now_ns idx hash = Some (b, idx')"
    and "map_option fst (kllm_index_lookup t idx h) = Some c" and "c \<noteq> 0"
  shows "map_option fst (kllm_index_lookup t idx' h) = Some c"
proof (cases rule: probe_all_cases[OF assms(1), of h])
  case (1 q)
  then have c: "c = entry_block idx q" using assms(5) lookup_hit[OF assms(1) 1(1,2), of t] by simp
  have r: "make_room idx = Some idx" using assms(3) by (simp add: make_room_def)
  show ?thesis
  proof (cases "free_slots (ix_arena idx) = {}")
    case True
    with insert_full[OF r assms(1)] assms(4,5) show ?thesis by simp
  next
    case False
    from insert_spec[OF assms(1,2) r assms(1) load_factor_room(2)[OF assms(1,3)] False, of hash] assms(4)
    obtain i where u: "entry_empty (ix_entries idx ! probe_pos idx hash i)" "index_wf idx'"
      "ix_capacity idx' = ix_capacity idx"
      "ix_entries idx' = (ix_entries idx)[probe_pos idx hash i := new_entry now_ns (ix_arena idx) hash]"
      "ix_arena idx' = claimed (ix_arena idx) (Min (free_slots (ix_arena idx)))"
      by auto
    have h: "probe_all idx' h = Some (ProbeHit q)"
      using stored_entry_keeps[OF assms(1) u(2,3,1,4) 1(1)] .
    have "q \<noteq> probe_pos idx hash i" using 1(2) u(1) by (auto simp: live_def)
    then have same: "ix_entries idx' ! q = ix_entries idx ! q" by (simp add: u(4))
    then have "q \<in> live (ix_entries idx')" using 1(2) u(4) by (simp add: live_def)
    from lookup_hit[OF u(2) h this, of t] show ?thesis
      using same by (simp add: c entry_block_def entry_slot_def u(5) slot_addr_def claimed_def)
  qed
next
  case (2 r)
  with lookup_miss_eq[OF 2, of t] assms(5,6) show ?thesis by simp
qed

theorem insert_keeps_lookups_witness:
  "\<exists>idx1 idx2. index_run [OpInsert 1 key_a] tiny_index = Some idx1 \<and>
     kllm_index_insert 2 idx1 key_b = Some (0x11000, idx2) \<and>
     map_option fst (kllm_index_lookup 3 idx2 key_a) = Some 0x10000"
proof -
  have "(case index_run [OpInsert 1 key_a] tiny_index of
      None \<Rightarrow> None
    | Some idx \<Rightarrow> Some (over_load_factor (ix_occupied idx) (ix_capacity idx),
        map_option fst (kllm_index_insert 2 idx key_b), map_option fst (kllm_index_lookup 3 idx key_a))) =
    Some (False, Some 0x11000, Some 0x10000)" by code_simp
  then obtain idx1 where i: "index_run [OpInsert 1 key_a] tiny_index = Some idx1"
    "\<not> over_load_factor (ix_occupied idx1) (ix_capacity idx1)"
    "map_option fst (kllm_index_insert 2 idx1 key_b) = Some 0x11000"
    "map_option fst (kllm_index_lookup 3 idx1 key_a) = Some 0x10000"
    by (auto split: option.splits)
  from i(3) obtain idx2 where j: "kllm_index_insert 2 idx1 key_b = Some (0x11000, idx2)" by auto
  have wf: "index_wf idx1"
    using index_run_wf[OF tiny_index_wf(1), of "[OpInsert 1 key_a]"] i(1) by (auto simp: sample_clocks)
  from insert_keeps_lookups[OF wf sample_clocks(3) i(2) j i(4)] i(1) j show ?thesis by auto
qed

text \<open>C25: at the load limit \<open>kllm_index_insert\<close> evicts exactly one entry, one with the oldest
  access time, and gives its block back to the arena; below the limit it evicts nothing. In
  both cases a free table position remains, so the fallback after the probing loop is never
  taken, and the insertion fails only when the arena itself has no free block.\<close>

theorem insert_evicts_lru:
  assumes "index_wf idx" and "now_ns < - 1"
  shows "\<exists>idx1. (if over_load_factor (ix_occupied idx) (ix_capacity idx)
                then lru_evicted idx idx1 else idx1 = idx) \<and>
    (if free_slots (ix_arena idx1) = {} then kllm_index_insert now_ns idx hash = Some (0, idx1)
     else \<exists>p idx'. p < length (ix_entries idx1) \<and> p \<notin> live (ix_entries idx1) \<and>
       kllm_index_insert now_ns idx hash =
         Some (slot_addr (ix_arena idx1) (Min (free_slots (ix_arena idx1))), idx') \<and>
       live (ix_entries idx') = insert p (live (ix_entries idx1)) \<and>
       ix_entries idx' = (ix_entries idx1)[p := new_entry now_ns (ix_arena idx1) hash])"
proof -
  from make_room_spec[OF assms(1)] obtain idx1 where
    r: "make_room idx = Some idx1" "index_wf idx1" "card (live (ix_entries idx1)) < unat (ix_capacity idx1)"
    and ev: "if over_load_factor (ix_occupied idx) (ix_capacity idx) then lru_evicted idx idx1 else idx1 = idx"
    by blast
  show ?thesis
  proof (cases "free_slots (ix_arena idx1) = {}")
    case True
    with insert_full[OF r(1,2)] ev show ?thesis by auto
  next
    case False
    from insert_spec[OF assms r False, of hash] obtain us i vs idx' where
      u: "[0 ..< unat (ix_capacity idx1)] = us @ i # vs"
      "entry_empty (ix_entries idx1 ! probe_pos idx1 hash i)"
      "kllm_index_insert now_ns idx hash =
         Some (slot_addr (ix_arena idx1) (Min (free_slots (ix_arena idx1))), idx')"
      "ix_entries idx' = (ix_entries idx1)[probe_pos idx1 hash i := new_entry now_ns (ix_arena idx1) hash]"
      "\<not> entry_empty (new_entry now_ns (ix_arena idx1) hash)" by blast
    have "i \<in> set [0 ..< unat (ix_capacity idx1)]" unfolding u(1) by simp
    then have p: "probe_pos idx1 hash i < length (ix_entries idx1)" using probe_pos_bound[OF r(2)] by simp
    have "probe_pos idx1 hash i \<notin> live (ix_entries idx1)" using u(2) by (simp add: live_def)
    with ev False p u live_store[OF p u(5)] show ?thesis by fastforce
  qed
qed

theorem insert_evicts_lru_witness:
  "\<exists>idx1. index_wf tiny_index \<and> idx1 = tiny_index \<and>
     (\<exists>p idx'. kllm_index_insert 1 tiny_index key_a = Some (slot_addr tiny_arena 0, idx') \<and>
        live (ix_entries idx') = {p})"
proof -
  have l: "\<not> over_load_factor (ix_occupied tiny_index) (ix_capacity tiny_index)" by code_simp
  have a: "ix_arena tiny_index = tiny_arena" by (simp add: tiny_index_def)
  have "Min (free_slots tiny_arena) = 0" by (simp add: tiny_arena_wf(2) Min_eqI)
  moreover have "free_slots tiny_arena \<noteq> {}" by (simp add: tiny_arena_wf(2) lessThan_empty_iff)
  ultimately show ?thesis
    using insert_evicts_lru[OF tiny_index_wf(1) sample_clocks(2), of key_a] l tiny_index_wf
    by (auto simp: a)
qed

text \<open>C35: evicting an entry leaves a hole in the probe chains that run over its position. After
  inserting two hashes of the same bucket and evicting the first, the second is still in the
  table and owns its block, but no lookup finds it any more.\<close>

theorem evict_breaks_chain:
  "\<exists>idx. index_run [OpInsert 1 key_a, OpInsert 2 key_b, OpEvict key_a] tiny_index = Some idx \<and>
     indexed idx key_b \<and> map_option fst (kllm_index_lookup 3 idx key_b) = Some 0"
proof -
  have "map_option (\<lambda>idx. (length (ix_entries idx), ce_hash (ix_entries idx ! 1) = key_b,
        ce_slot_index (ix_entries idx ! 1), map_option fst (kllm_index_lookup 3 idx key_b)))
      (index_run [OpInsert 1 key_a, OpInsert 2 key_b, OpEvict key_a] tiny_index) =
    Some (4, True, 1, Some 0)" by code_simp
  then obtain idx where i: "index_run [OpInsert 1 key_a, OpInsert 2 key_b, OpEvict key_a] tiny_index = Some idx"
    "length (ix_entries idx) = 4" "ce_hash (ix_entries idx ! 1) = key_b"
    "ce_slot_index (ix_entries idx ! 1) = 1" "map_option fst (kllm_index_lookup 3 idx key_b) = Some 0"
    by (auto simp del: index_run.simps)
  have "1 \<in> live (ix_entries idx)" using i(2,4) by (simp add: live_def entry_empty_def EMPTY_SLOT_def)
  moreover have "hash_eq (ce_hash (ix_entries idx ! 1)) key_b" using i(3) by (simp add: hash_eq_def)
  ultimately have "indexed idx key_b" unfolding indexed_def by blast
  with i show ?thesis by blast
qed

text \<open>inserting a hash that is already cached does not reuse or replace its entry: the table
  then holds two live entries for one hash, with two different blocks.\<close>

theorem insert_duplicates:
  "\<exists>idx. index_run [OpInsert 1 key_a, OpInsert 2 key_a] tiny_index = Some idx \<and>
     {0, 1} \<subseteq> live (ix_entries idx) \<and>
     ce_hash (ix_entries idx ! 0) = key_a \<and> ce_hash (ix_entries idx ! 1) = key_a \<and>
     entry_slot (ix_entries idx) 0 \<noteq> entry_slot (ix_entries idx) 1"
proof -
  have "map_option (\<lambda>idx. (length (ix_entries idx), ce_hash (ix_entries idx ! 0) = key_a,
        ce_hash (ix_entries idx ! 1) = key_a, ce_slot_index (ix_entries idx ! 0),
        ce_slot_index (ix_entries idx ! 1)))
      (index_run [OpInsert 1 key_a, OpInsert 2 key_a] tiny_index) = Some (4, True, True, 0, 1)"
    by code_simp
  then obtain idx where "index_run [OpInsert 1 key_a, OpInsert 2 key_a] tiny_index = Some idx"
    "length (ix_entries idx) = 4" "ce_hash (ix_entries idx ! 0) = key_a"
    "ce_hash (ix_entries idx ! 1) = key_a" "ce_slot_index (ix_entries idx ! 0) = 0"
    "ce_slot_index (ix_entries idx ! 1) = 1" by (auto simp del: index_run.simps)
  then show ?thesis
    by (auto simp: live_def entry_empty_def EMPTY_SLOT_def entry_slot_def simp del: index_run.simps)
qed

end
