(* ===== verification/Tokenizer.thy ===== *)
theory Tokenizer
  imports Token_Ring
begin

text \<open>
  The byte-pair tokenizer that runs in the kernel as an eBPF program
  (\<open>bpf/tokenizer.bpf.c\<close>). The BPF hash map \<open>merge_table\<close> is a function from pairs to an
  optional entry, the array map \<open>byte_to_token\<close> the list of its 256 entries, the per-CPU
  scratch entry a record whose token array has \<open>MAX_SEQ_LEN\<close> cells. \<open>bpf_loop\<close> calls its
  callback at most \<open>MAX_MERGE_PASSES\<close> times and stops when it returns 1. \<open>None\<close> is an access
  outside the scratch array, the prompt buffer or the ring slots.
\<close>

section \<open>Data\<close>

definition MAX_PROMPT_LEN :: u32 where "MAX_PROMPT_LEN = 4096"
definition MAX_MERGE_PASSES :: nat where "MAX_MERGE_PASSES = 128"
definition MAX_SEQ_LEN :: u32 where "MAX_SEQ_LEN = 2048"

lemmas limit_defs = MAX_PROMPT_LEN_def MAX_MERGE_PASSES_def MAX_SEQ_LEN_def

type_synonym merge_key = "u32 \<times> u32"

record merge_val =
  mv_merged_id :: u32
  mv_priority :: u32

type_synonym merge_map = "merge_key \<Rightarrow> merge_val option"

record token_seq =
  ts_tokens :: "u32 list"
  ts_len :: u32

section \<open>One merge pass\<close>

text \<open>\<open>best_pos\<close>, \<open>best_priority\<close>, \<open>best_merged\<close> and \<open>found\<close>.\<close>

record merge_best =
  mb_pos :: nat
  mb_priority :: u32
  mb_merged :: u32
  mb_found :: bool

fun find_merge :: "merge_map \<Rightarrow> u32 list \<Rightarrow> nat list \<Rightarrow> merge_best \<Rightarrow> merge_best option" where
  "find_merge mt toks [] b = Some b"
| "find_merge mt toks (i # is) b = do {
     l \<leftarrow> arr_get toks i;
     r \<leftarrow> arr_get toks (i + 1);
     case mt (l, r) of
       None \<Rightarrow> find_merge mt toks is b
     | Some v \<Rightarrow>
         if mv_priority v < mb_priority b
         then find_merge mt toks is \<lparr>mb_pos = i, mb_priority = mv_priority v,
                mb_merged = mv_merged_id v, mb_found = True\<rparr>
         else find_merge mt toks is b }"

fun shift_left :: "nat list \<Rightarrow> u32 list \<Rightarrow> u32 list option" where
  "shift_left [] toks = Some toks"
| "shift_left (i # is) toks = do {
     t \<leftarrow> arr_get toks (i + 1);
     toks' \<leftarrow> arr_set toks i t;
     shift_left is toks' }"

text \<open>The callback's return value (\<open>True\<close> for 1, stop) and the sequence afterwards.\<close>

definition do_merge_pass :: "merge_map \<Rightarrow> token_seq \<Rightarrow> (bool \<times> token_seq) option" where
  "do_merge_pass mt seq =
    (if ts_len seq < 2 then Some (True, seq)
     else let last = min (unat (ts_len seq - 1)) (unat (MAX_SEQ_LEN - 1)) in do {
       b \<leftarrow> find_merge mt (ts_tokens seq) [0 ..< last]
         \<lparr>mb_pos = 0, mb_priority = NOT 0, mb_merged = 0, mb_found = False\<rparr>;
       if \<not> mb_found b then Some (True, seq)
       else do {
         toks \<leftarrow> arr_set (ts_tokens seq) (mb_pos b) (mb_merged b);
         toks' \<leftarrow> shift_left [mb_pos b + 1 ..< last] toks;
         Some (False, \<lparr>ts_tokens = toks', ts_len = ts_len seq - 1\<rparr>) } })"

fun bpf_loop_merge :: "merge_map \<Rightarrow> nat \<Rightarrow> token_seq \<Rightarrow> token_seq option" where
  "bpf_loop_merge mt 0 seq = Some seq"
| "bpf_loop_merge mt (Suc n) seq = do {
     (stop, seq') \<leftarrow> do_merge_pass mt seq;
     if stop then Some seq' else bpf_loop_merge mt n seq' }"

section \<open>The tokenizer\<close>

fun bytes_to_tokens :: "u32 list \<Rightarrow> u8 list \<Rightarrow> nat list \<Rightarrow> token_seq \<Rightarrow> token_seq option" where
  "bytes_to_tokens btt buf [] seq = Some seq"
| "bytes_to_tokens btt buf (i # is) seq = do {
     b \<leftarrow> arr_get buf i;
     tok \<leftarrow> arr_get btt (unat b);
     if ts_len seq \<ge> MAX_SEQ_LEN then Some seq
     else do {
       toks \<leftarrow> arr_set (ts_tokens seq) (unat (ts_len seq)) tok;
       bytes_to_tokens btt buf is \<lparr>ts_tokens = toks, ts_len = ts_len seq + 1\<rparr> } }"

text \<open>
  The loop that fills ring slots from the local \<open>head\<close>; the header's own head still has its
  old value.
\<close>

fun push_tokens :: "kllm_ring_hdr \<Rightarrow> u32 \<Rightarrow> u32 list \<Rightarrow> nat list \<Rightarrow> u32 list \<Rightarrow> u32 \<Rightarrow>
    (u32 list \<times> u32) option" where
  "push_tokens hdr ring_mask toks [] slots head = Some (slots, head)"
| "push_tokens hdr ring_mask toks (i # is) slots head =
    (let next = (head + 1) AND ring_mask
     in if next = rh_tail hdr then Some (slots, head)
        else do {
          t \<leftarrow> arr_get toks i;
          slots' \<leftarrow> arr_set slots (unat head) t;
          push_tokens hdr ring_mask toks is slots' next })"

text \<open>
  \<open>scratch\<close> is the looked-up per-CPU entry. The result is the C return value with the
  scratch entry and the ring afterwards. An array map lookup of an index below 256 does not
  fail.
\<close>

definition kllm_tokenize ::
  "merge_map \<Rightarrow> u32 list \<Rightarrow> token_seq option \<Rightarrow> u8 list \<Rightarrow> u32 \<Rightarrow> kllm_ring_hdr option \<Rightarrow>
    (int \<times> token_seq option \<times> kllm_ring_hdr option) option" where
  "kllm_tokenize mt btt scratch buf len ring =
    (if len = 0 \<or> len > MAX_PROMPT_LEN then Some (- 1, scratch, ring)
     else case scratch of
       None \<Rightarrow> Some (- 1, scratch, ring)
     | Some seq0 \<Rightarrow> do {
         seq1 \<leftarrow> bytes_to_tokens btt buf [0 ..< min (unat len) (unat MAX_PROMPT_LEN)] (seq0\<lparr>ts_len := 0\<rparr>);
         seq \<leftarrow> bpf_loop_merge mt MAX_MERGE_PASSES seq1;
         case ring of
           None \<Rightarrow> Some (sint (ts_len seq), Some seq, None)
         | Some hdr \<Rightarrow>
             if rh_slot_count hdr = 0 then Some (- 1, Some seq, Some hdr)
             else do {
               (slots, head) \<leftarrow> push_tokens hdr (rh_slot_count hdr - 1) (ts_tokens seq)
                 [0 ..< min (unat (ts_len seq)) (unat MAX_SEQ_LEN)] (rh_slots hdr) (rh_head hdr);
               Some (sint (ts_len seq), Some seq,
                 Some (hdr\<lparr>rh_slots := slots, rh_head := head, rh_seq_id := rh_seq_id hdr + 1\<rparr>)) } })"

section \<open>Sequences as lists\<close>

definition seq_wf :: "token_seq \<Rightarrow> bool" where
  "seq_wf s \<longleftrightarrow> length (ts_tokens s) = 2048 \<and> ts_len s \<le> 2048"

definition seq_list :: "token_seq \<Rightarrow> u32 list" where
  "seq_list s = take (unat (ts_len s)) (ts_tokens s)"

lemma seq_len: "seq_wf s \<Longrightarrow> unat (ts_len s) \<le> 2048"
  by (simp add: seq_wf_def word_le_nat_alt)

lemma length_seq_list: "seq_wf s \<Longrightarrow> length (seq_list s) = unat (ts_len s)"
  using seq_len[of s] by (simp add: seq_list_def seq_wf_def)

text \<open>The pair at position \<open>i\<close> has the merge entry \<open>v\<close>, and one the scan can accept.\<close>

definition mergeable :: "merge_map \<Rightarrow> u32 list \<Rightarrow> nat \<Rightarrow> merge_val \<Rightarrow> bool" where
  "mergeable mt xs i v \<longleftrightarrow> i + 1 < length xs \<and> mt (xs ! i, xs ! (i + 1)) = Some v \<and> mv_priority v < - 1"

definition best_merge :: "merge_map \<Rightarrow> u32 list \<Rightarrow> nat \<Rightarrow> merge_val \<Rightarrow> bool" where
  "best_merge mt xs i v \<longleftrightarrow> mergeable mt xs i v \<and>
     (\<forall>j w. mergeable mt xs j w \<longrightarrow> mv_priority v \<le> mv_priority w \<and> (j < i \<longrightarrow> mv_priority v < mv_priority w))"

definition merge_pair :: "u32 list \<Rightarrow> nat \<Rightarrow> u32 \<Rightarrow> u32 list" where
  "merge_pair xs i m = take i xs @ m # drop (i + 2) xs"

section \<open>One pass merges the leftmost pair of lowest rank\<close>

definition best_below :: "merge_map \<Rightarrow> u32 list \<Rightarrow> nat \<Rightarrow> merge_best \<Rightarrow> bool" where
  "best_below mt toks n b \<longleftrightarrow>
    (if mb_found b then \<exists>v. mb_pos b < n \<and> mt (toks ! mb_pos b, toks ! (mb_pos b + 1)) = Some v \<and>
        mb_priority b = mv_priority v \<and> mb_merged b = mv_merged_id v \<and> mv_priority v < - 1 \<and>
        (\<forall>j < n. \<forall>w. mt (toks ! j, toks ! (j + 1)) = Some w \<longrightarrow>
          mv_priority v \<le> mv_priority w \<and> (j < mb_pos b \<longrightarrow> mv_priority v < mv_priority w))
     else mb_priority b = - 1 \<and>
        (\<forall>j < n. \<forall>w. mt (toks ! j, toks ! (j + 1)) = Some w \<longrightarrow> \<not> mv_priority w < - 1))"

lemma best_below_step:
  assumes "best_below mt toks k b"
  shows "best_below mt toks (Suc k)
    (case mt (toks ! k, toks ! (k + 1)) of
       None \<Rightarrow> b
     | Some v \<Rightarrow> if mv_priority v < mb_priority b
         then \<lparr>mb_pos = k, mb_priority = mv_priority v, mb_merged = mv_merged_id v, mb_found = True\<rparr>
         else b)"
proof (cases "mt (toks ! k, toks ! (k + 1))")
  case None
  with assms show ?thesis by (auto simp: best_below_def less_Suc_eq split: if_splits)
next
  case (Some v)
  show ?thesis
  proof (cases "mv_priority v < mb_priority b")
    case True
    have "mv_priority v < - 1"
      using True assms by (auto simp: best_below_def split: if_splits)
    moreover have "mv_priority v < mv_priority w" if "j < k" "mt (toks ! j, toks ! (j + 1)) = Some w" for j w
    proof -
      have "mb_priority b \<le> mv_priority w"
        using that assms by (auto simp: best_below_def not_less split: if_splits)
      with True show ?thesis by (rule less_le_trans)
    qed
    ultimately show ?thesis using True Some
      by (auto simp: best_below_def less_Suc_eq intro: less_imp_le)
  next
    case False
    with assms Some show ?thesis by (auto simp: best_below_def less_Suc_eq not_less split: if_splits)
  qed
qed

lemma find_merge_spec:
  assumes "best_below mt toks k b" and "k \<le> n" and "n < length toks"
  shows "\<exists>b'. find_merge mt toks [k ..< n] b = Some b' \<and> best_below mt toks n b'"
  using assms(1,2)
proof (induction "n - k" arbitrary: k b)
  case 0
  then show ?case by simp
next
  case (Suc d)
  then have k: "k < n" "[k ..< n] = k # [Suc k ..< n]" by (simp_all add: upt_conv_Cons)
  let ?b = "case mt (toks ! k, toks ! (k + 1)) of
       None \<Rightarrow> b
     | Some v \<Rightarrow> if mv_priority v < mb_priority b
         then \<lparr>mb_pos = k, mb_priority = mv_priority v, mb_merged = mv_merged_id v, mb_found = True\<rparr>
         else b"
  have "find_merge mt toks [k ..< n] b = find_merge mt toks [Suc k ..< n] ?b"
    using k assms(3) by (auto simp: fault_simps split: option.splits)
  with Suc.hyps(1)[of "Suc k" ?b] Suc.hyps(2) Suc.prems best_below_step[OF Suc.prems(1)]
  show ?case by simp
qed

lemma shift_left_spec:
  assumes "n < length toks" and "k \<le> n"
  shows "\<exists>toks'. shift_left [k ..< n] toks = Some toks' \<and> length toks' = length toks \<and>
    (\<forall>j < length toks. toks' ! j = (if k \<le> j \<and> j < n then toks ! (j + 1) else toks ! j))"
  using assms
proof (induction "n - k" arbitrary: k toks)
  case 0
  then show ?case by auto
next
  case (Suc d)
  then have k: "k < n" "[k ..< n] = k # [Suc k ..< n]" by (simp_all add: upt_conv_Cons)
  let ?t = "toks[k := toks ! (k + 1)]"
  have step: "shift_left [k ..< n] toks = shift_left [Suc k ..< n] ?t"
    using k Suc.prems by (simp add: fault_simps)
  obtain t' where t': "shift_left [Suc k ..< n] ?t = Some t'" "length t' = length toks"
    "\<forall>j < length toks. t' ! j = (if Suc k \<le> j \<and> j < n then ?t ! (j + 1) else ?t ! j)"
  proof -
    have "d = n - Suc k" using Suc.hyps(2) by simp
    from Suc.hyps(1)[OF this, of ?t] Suc.prems k that show ?thesis by fastforce
  qed
  have "t' ! j = (if k \<le> j \<and> j < n then toks ! (j + 1) else toks ! j)" if "j < length toks" for j
    using that t'(3) k(1) Suc.prems(1) by (cases "j = k") (auto simp: nth_list_update)
  with step t'(1,2) show ?case by simp
qed

lemma merged_prefix:
  assumes "p < n" and "Suc n \<le> length toks" and "length toks' = length toks"
    and "\<forall>j < length toks. toks' ! j = (if p + 1 \<le> j \<and> j < n then toks[p := m] ! (j + 1) else toks[p := m] ! j)"
  shows "take n toks' = merge_pair (take (Suc n) toks) p m"
proof (rule nth_equalityI)
  show "length (take n toks') = length (merge_pair (take (Suc n) toks) p m)"
    using assms(1-3) by (simp add: merge_pair_def)
  fix j assume "j < length (take n toks')"
  then have j: "j < n" "j < length toks" using assms(2,3) by auto
  consider "j < p" | "j = p" | "p < j" by linarith
  then show "take n toks' ! j = merge_pair (take (Suc n) toks) p m ! j"
  proof cases
    case 3
    then obtain d where "j = p + Suc d" by (metis less_imp_Suc_add add_Suc_right)
    with assms j show ?thesis by (simp add: merge_pair_def nth_append)
  qed (use assms j in \<open>simp_all add: merge_pair_def nth_append\<close>)
qed

lemma merge_pass_cases:
  assumes "seq_wf s"
  shows "(do_merge_pass mt s = Some (True, s) \<and> (\<forall>i v. \<not> mergeable mt (seq_list s) i v)) \<or>
    (\<exists>s' i v. do_merge_pass mt s = Some (False, s') \<and> seq_wf s' \<and> best_merge mt (seq_list s) i v \<and>
      seq_list s' = merge_pair (seq_list s) i (mv_merged_id v))"
proof (cases "ts_len s < 2")
  case True
  then have "unat (ts_len s) < 2" by (simp add: word_less_nat_alt)
  then show ?thesis using True length_seq_list[OF assms] by (auto simp: do_merge_pass_def mergeable_def)
next
  case False
  define n where "n = unat (ts_len s) - 1"
  have two: "2 \<le> unat (ts_len s)" using False by (simp add: word_less_nat_alt not_less)
  then have nz: "ts_len s \<noteq> 0" by auto
  have len: "unat (ts_len s) = Suc n" and n: "0 < n" "n \<le> 2047" "n < length (ts_tokens s)"
    using two seq_len[OF assms] assms by (simp_all add: n_def seq_wf_def)
  have u: "unat (ts_len s - 1) = n" using nz by (simp add: unat_minus_one n_def)
  have last: "min (unat (ts_len s - 1)) (unat (MAX_SEQ_LEN - 1)) = n"
    using n by (simp add: u MAX_SEQ_LEN_def)
  let ?b0 = "\<lparr>mb_pos = 0, mb_priority = NOT 0, mb_merged = 0, mb_found = False\<rparr>"
  have "best_below mt (ts_tokens s) 0 ?b0" by (simp add: best_below_def)
  from find_merge_spec[OF this _ n(3)] obtain b where
    b: "find_merge mt (ts_tokens s) [0 ..< n] ?b0 = Some b" "best_below mt (ts_tokens s) n b" by auto
  have sl: "seq_list s = take (Suc n) (ts_tokens s)" by (simp add: seq_list_def len)
  have m: "mergeable mt (seq_list s) i v \<longleftrightarrow>
      i < n \<and> mt (ts_tokens s ! i, ts_tokens s ! (i + 1)) = Some v \<and> mv_priority v < - 1" for i v
    using n(3) by (auto simp: mergeable_def sl)
  show ?thesis
  proof (cases "mb_found b")
    case False
    with b have "do_merge_pass mt s = Some (True, s)"
      using \<open>\<not> ts_len s < 2\<close> unfolding do_merge_pass_def last Let_def by simp
    moreover have "\<not> mergeable mt (seq_list s) i v" for i v
      using False b(2) by (auto simp: m best_below_def)
    ultimately show ?thesis by blast
  next
    case True
    with b(2) obtain v where v: "mb_pos b < n"
      "mt (ts_tokens s ! mb_pos b, ts_tokens s ! (mb_pos b + 1)) = Some v"
      "mb_merged b = mv_merged_id v" "mv_priority v < - 1"
      "\<forall>j < n. \<forall>w. mt (ts_tokens s ! j, ts_tokens s ! (j + 1)) = Some w \<longrightarrow>
          mv_priority v \<le> mv_priority w \<and> (j < mb_pos b \<longrightarrow> mv_priority v < mv_priority w)"
      by (auto simp: best_below_def)
    let ?toks = "(ts_tokens s)[mb_pos b := mv_merged_id v]"
    obtain t' where t': "shift_left [mb_pos b + 1 ..< n] ?toks = Some t'" "length t' = length (ts_tokens s)"
      "\<forall>j < length (ts_tokens s). t' ! j =
         (if mb_pos b + 1 \<le> j \<and> j < n then ?toks ! (j + 1) else ?toks ! j)"
      using shift_left_spec[of n ?toks "mb_pos b + 1"] v(1) n(3) by auto
    have "do_merge_pass mt s = Some (False, \<lparr>ts_tokens = t', ts_len = ts_len s - 1\<rparr>)"
      using \<open>\<not> ts_len s < 2\<close> b(1) True t'(1) v(1,3) n(3)
      unfolding do_merge_pass_def last Let_def by (simp add: fault_simps)
    moreover have "seq_wf \<lparr>ts_tokens = t', ts_len = ts_len s - 1\<rparr>"
      using assms t'(2) n(2) u by (simp add: seq_wf_def word_le_nat_alt)
    moreover have "best_merge mt (seq_list s) (mb_pos b) v" using v by (auto simp: best_merge_def m)
    moreover have "seq_list \<lparr>ts_tokens = t', ts_len = ts_len s - 1\<rparr> =
        merge_pair (seq_list s) (mb_pos b) (mv_merged_id v)"
      using merged_prefix[OF v(1) _ t'(2,3)] n(3) by (simp add: seq_list_def u len)
    ultimately show ?thesis by blast
  qed
qed

section \<open>The merge loop\<close>

text \<open>\<open>bpe_run mt k xs ys\<close>: \<open>k\<close> best merges one after the other lead from \<open>xs\<close> to \<open>ys\<close>.\<close>

inductive bpe_run :: "merge_map \<Rightarrow> nat \<Rightarrow> u32 list \<Rightarrow> u32 list \<Rightarrow> bool" for mt where
  bpe_none: "bpe_run mt 0 xs xs"
| bpe_merge: "best_merge mt xs i v \<Longrightarrow> bpe_run mt k (merge_pair xs i (mv_merged_id v)) ys \<Longrightarrow>
     bpe_run mt (Suc k) xs ys"

lemma bpe_run_length: "bpe_run mt k xs ys \<Longrightarrow> length ys + k = length xs"
  by (induction rule: bpe_run.induct) (auto simp: best_merge_def mergeable_def merge_pair_def)

lemma merge_loop_spec:
  assumes "seq_wf s"
  shows "\<exists>s' k. bpf_loop_merge mt n s = Some s' \<and> seq_wf s' \<and> k \<le> n \<and>
    bpe_run mt k (seq_list s) (seq_list s') \<and>
    (k < n \<longrightarrow> (\<forall>i v. \<not> mergeable mt (seq_list s') i v))"
  using assms
proof (induction n arbitrary: s)
  case 0
  then show ?case by (auto intro: bpe_none)
next
  case (Suc n)
  from merge_pass_cases[OF Suc.prems, of mt] show ?case
  proof (elim disjE exE conjE)
    assume "do_merge_pass mt s = Some (True, s)" "\<forall>i v. \<not> mergeable mt (seq_list s) i v"
    with Suc.prems show ?thesis by (auto intro: bpe_none)
  next
    fix s1 i v
    assume p: "do_merge_pass mt s = Some (False, s1)" "seq_wf s1" "best_merge mt (seq_list s) i v"
      "seq_list s1 = merge_pair (seq_list s) i (mv_merged_id v)"
    from Suc.IH[OF p(2)] obtain s' k where k: "bpf_loop_merge mt n s1 = Some s'" "seq_wf s'" "k \<le> n"
      "bpe_run mt k (seq_list s1) (seq_list s')" "k < n \<longrightarrow> (\<forall>i v. \<not> mergeable mt (seq_list s') i v)"
      by blast
    have "bpe_run mt (Suc k) (seq_list s) (seq_list s')"
      using p(3) k(4) unfolding p(4) by (rule bpe_merge)
    with p(1) k show ?thesis by (intro exI[of _ s'] exI[of _ "Suc k"]) simp
  qed
qed

section \<open>Bytes and ring slots\<close>

lemma bytes_to_tokens_spec:
  assumes "length btt = 256" and "n \<le> length buf" and "k \<le> n" and "seq_wf s" and "unat (ts_len s) = k"
  shows "\<exists>s'. bytes_to_tokens btt buf [k ..< n] s = Some s' \<and> seq_wf s' \<and>
    seq_list s' = seq_list s @ map (\<lambda>b. btt ! unat b) (take (2048 - k) (drop k (take n buf)))"
  using assms(3-5)
proof (induction "n - k" arbitrary: k s)
  case 0
  then show ?case by simp
next
  case (Suc d)
  then have k: "k < n" "[k ..< n] = k # [Suc k ..< n]" by (simp_all add: upt_conv_Cons)
  have bb: "unat (buf ! k) < 256" using unsigned_less[of "buf ! k", where ?'a = nat] by simp
  have d: "drop k (take n buf) = buf ! k # drop (Suc k) (take n buf)"
    using k(1) assms(2) by (simp add: Cons_nth_drop_Suc[symmetric])
  show ?case
  proof (cases "k < 2048")
    case False
    then have "ts_len s \<ge> MAX_SEQ_LEN"
      using Suc.prems(3) by (simp add: MAX_SEQ_LEN_def word_le_nat_alt)
    with False k bb assms(1,2) Suc.prems show ?thesis by (simp add: fault_simps)
  next
    case True
    let ?t = "btt ! unat (buf ! k)"
    let ?s = "\<lparr>ts_tokens = (ts_tokens s)[k := ?t], ts_len = ts_len s + 1\<rparr>"
    have "\<not> ts_len s \<ge> MAX_SEQ_LEN"
      using True Suc.prems(3) by (simp add: MAX_SEQ_LEN_def word_le_nat_alt)
    then have step: "bytes_to_tokens btt buf [k ..< n] s = bytes_to_tokens btt buf [Suc k ..< n] ?s"
      using k bb assms(1,2) Suc.prems True by (simp add: fault_simps seq_wf_def)
    have u: "unat (ts_len s + 1) = Suc k" using True Suc.prems(3) by (simp add: unat_word_ariths(1))
    have wf: "seq_wf ?s" using Suc.prems True u by (simp add: seq_wf_def word_le_nat_alt)
    have sl: "seq_list ?s = seq_list s @ [?t]"
      using Suc.prems True u by (simp add: seq_list_def seq_wf_def take_Suc_conv_app_nth)
    have "d = n - Suc k" using Suc.hyps(2) by simp
    from Suc.hyps(1)[OF this _ wf] k(1) u step obtain s' where
      "bytes_to_tokens btt buf [k ..< n] s = Some s'" "seq_wf s'"
      "seq_list s' = seq_list ?s @ map (\<lambda>b. btt ! unat b) (take (2048 - Suc k) (drop (Suc k) (take n buf)))"
      by auto
    moreover have "2048 - k = Suc (2048 - Suc k)" using True by simp
    ultimately show ?thesis unfolding d sl by simp
  qed
qed

lemma push_tokens_spec:
  assumes "ring_wf (hdr\<lparr>rh_slots := slots, rh_head := head\<rparr>)" and "k \<le> n" and "n \<le> length toks"
  shows "\<exists>slots' head'. push_tokens hdr (rh_slot_count hdr - 1) toks [k ..< n] slots head = Some (slots', head') \<and>
    ring_wf (hdr\<lparr>rh_slots := slots', rh_head := head'\<rparr>) \<and>
    ring_contents (hdr\<lparr>rh_slots := slots', rh_head := head'\<rparr>) =
      ring_contents (hdr\<lparr>rh_slots := slots, rh_head := head\<rparr>) @
      take (ring_room (hdr\<lparr>rh_slots := slots, rh_head := head\<rparr>)) (drop k (take n toks))"
  using assms(1,2)
proof (induction "n - k" arbitrary: k slots head)
  case 0
  then show ?case by simp
next
  case (Suc d)
  let ?r = "hdr\<lparr>rh_slots := slots, rh_head := head\<rparr>"
  let ?next = "(head + 1) AND (rh_slot_count hdr - 1)"
  have k: "k < n" "[k ..< n] = k # [Suc k ..< n]" using Suc by (simp_all add: upt_conv_Cons)
  have full: "?next = rh_tail hdr \<longleftrightarrow> ring_room ?r = 0"
    using full_iff[OF Suc.prems(1)] by (simp add: kllm_ring_mask_def)
  show ?case
  proof (cases "ring_room ?r = 0")
    case True
    with full k Suc.prems show ?thesis by simp
  next
    case False
    have h: "unat head < length slots" using ring_wfD[OF Suc.prems(1)] by simp
    let ?r' = "hdr\<lparr>rh_slots := slots[unat head := toks ! k], rh_head := ?next\<rparr>"
    have "ring_put (toks ! k) ?r = Some ?r'"
      using False full h by (simp add: ring_put_def kllm_ring_produce_def kllm_ring_mask_def fault_simps)
    with ring_put_spec[OF Suc.prems(1), of "toks ! k"] False
    have r': "ring_wf ?r'" "ring_room ?r' = ring_room ?r - 1" "ring_contents ?r' = ring_contents ?r @ [toks ! k]"
      by auto
    have step: "push_tokens hdr (rh_slot_count hdr - 1) toks [k ..< n] slots head =
        push_tokens hdr (rh_slot_count hdr - 1) toks [Suc k ..< n] (slots[unat head := toks ! k]) ?next"
      using False full h k assms(3) by (simp add: fault_simps Let_def)
    have "d = n - Suc k" using Suc.hyps(2) by simp
    note IH = Suc.hyps(1)[OF this r'(1)]
    have "drop k (take n toks) = toks ! k # drop (Suc k) (take n toks)"
      using k(1) assms(3) by (simp add: Cons_nth_drop_Suc[symmetric])
    moreover obtain m where "ring_room ?r = Suc m" using False by (cases "ring_room ?r") auto
    ultimately show ?thesis using IH k(1) r'(2,3) unfolding step by simp
  qed
qed

section \<open>Properties\<close>

text \<open>The initial tokens: one per byte, for at most the first 2048 bytes.\<close>

definition byte_tokens :: "u32 list \<Rightarrow> u8 list \<Rightarrow> u32 \<Rightarrow> u32 list" where
  "byte_tokens btt buf len = map (\<lambda>b. btt ! unat b) (take 2048 (take (unat len) buf))"

lemma tokenize_phases:
  assumes "0 < len" and "len \<le> 4096" and "unat len \<le> length buf" and "length btt = 256"
    and "length (ts_tokens s0) = 2048"
  shows "\<exists>s k. bytes_to_tokens btt buf [0 ..< min (unat len) (unat MAX_PROMPT_LEN)] (s0\<lparr>ts_len := 0\<rparr>) \<bind>
      bpf_loop_merge mt MAX_MERGE_PASSES = Some s \<and> seq_wf s \<and> k \<le> 128 \<and>
    bpe_run mt k (byte_tokens btt buf len) (seq_list s) \<and>
    (k < 128 \<longrightarrow> (\<forall>i v. \<not> mergeable mt (seq_list s) i v))"
proof -
  have m: "min (unat len) (unat MAX_PROMPT_LEN) = unat len"
    using assms(2) by (simp add: MAX_PROMPT_LEN_def word_le_nat_alt)
  have wf: "seq_wf (s0\<lparr>ts_len := 0\<rparr>)" using assms(5) by (simp add: seq_wf_def)
  from bytes_to_tokens_spec[OF assms(4,3) _ wf] obtain s1 where
    s1: "bytes_to_tokens btt buf [0 ..< unat len] (s0\<lparr>ts_len := 0\<rparr>) = Some s1" "seq_wf s1"
    "seq_list s1 = byte_tokens btt buf len" by (auto simp: byte_tokens_def seq_list_def)
  from merge_loop_spec[OF s1(2), of mt 128] show ?thesis
    unfolding m s1(1,3) by (auto simp: MAX_MERGE_PASSES_def)
qed

lemma seq_len_sint:
  assumes "seq_wf s"
  shows "sint (ts_len s) = int (length (seq_list s))"
  using seq_len[OF assms] by (simp add: sint_small length_seq_list[OF assms] del: of_nat_unat)

text \<open>What follows the two phases: the tokens go to the ring as far as it has room.\<close>

lemma tokenize_to_ring:
  assumes "0 < len" "len \<le> 4096" "ring_wf hdr" "seq_wf s"
    and ph: "bytes_to_tokens btt buf [0 ..< min (unat len) (unat MAX_PROMPT_LEN)] (s0\<lparr>ts_len := 0\<rparr>) \<bind>
      bpf_loop_merge mt MAX_MERGE_PASSES = Some s"
  shows "\<exists>hdr'. kllm_tokenize mt btt (Some s0) buf len (Some hdr) = Some (int (length (seq_list s)), Some s, Some hdr') \<and>
    ring_wf hdr' \<and> ring_contents hdr' = ring_contents hdr @ take (ring_room hdr) (seq_list s) \<and>
    rh_seq_id hdr' = rh_seq_id hdr + 1"
proof -
  have len: "\<not> (len = 0 \<or> len > MAX_PROMPT_LEN)" using assms(1,2) by (auto simp: MAX_PROMPT_LEN_def)
  have m: "min (unat (ts_len s)) (unat MAX_SEQ_LEN) = unat (ts_len s)"
    using seq_len[OF assms(4)] by (simp add: MAX_SEQ_LEN_def)
  have sc: "rh_slot_count hdr \<noteq> 0" using assms(3) by (simp add: ring_wf_def pow2_def)
  have h: "ring_wf (hdr\<lparr>rh_slots := rh_slots hdr, rh_head := rh_head hdr\<rparr>)" using assms(3) by simp
  have "unat (ts_len s) \<le> length (ts_tokens s)" using seq_len[OF assms(4)] assms(4) by (simp add: seq_wf_def)
  from push_tokens_spec[OF h _ this, of 0] obtain slots' head' where
    p: "push_tokens hdr (rh_slot_count hdr - 1) (ts_tokens s) [0 ..< unat (ts_len s)] (rh_slots hdr) (rh_head hdr) =
      Some (slots', head')" "ring_wf (hdr\<lparr>rh_slots := slots', rh_head := head'\<rparr>)"
    "ring_contents (hdr\<lparr>rh_slots := slots', rh_head := head'\<rparr>) =
      ring_contents hdr @ take (ring_room hdr) (seq_list s)"
    by (auto simp: seq_list_def)
  let ?h = "hdr\<lparr>rh_slots := slots', rh_head := head', rh_seq_id := rh_seq_id hdr + 1\<rparr>"
  have "kllm_tokenize mt btt (Some s0) buf len (Some hdr) = Some (int (length (seq_list s)), Some s, Some ?h)"
    using ph len sc p(1) seq_len_sint[OF assms(4)] by (auto simp: kllm_tokenize_def m split: bind_splits)
  moreover have "ring_wf ?h" using p(2) by (simp add: ring_wf_def)
  moreover have "ring_contents ?h = ring_contents hdr @ take (ring_room hdr) (seq_list s)"
    using p(3) by (simp add: ring_contents_def kllm_ring_available_def kllm_ring_mask_def)
  ultimately show ?thesis by (intro exI[of _ ?h]) simp
qed

text \<open>C6: \<open>kllm_tokenize\<close> on an acceptable prompt and a well-formed ring. The tokens are what at
  most 128 merges make of the byte tokens, each merge replacing the leftmost pair among those
  of lowest rank; with fewer than 128 merges no mergeable pair is left. They are appended to
  the ring as far as it has room, the sequence number grows by one, no access leaves the
  scratch array or the ring, and the number returned counts also the tokens that found no
  room.\<close>

theorem tokenize_correct:
  assumes "0 < len" and "len \<le> 4096" and "unat len \<le> length buf" and "length btt = 256"
    and "length (ts_tokens s0) = 2048" and "ring_wf hdr"
  shows "\<exists>ts k s hdr'. kllm_tokenize mt btt (Some s0) buf len (Some hdr) =
      Some (int (length ts), Some s, Some hdr') \<and>
    bpe_run mt k (byte_tokens btt buf len) ts \<and> k \<le> 128 \<and>
    (k < 128 \<longrightarrow> (\<forall>i v. \<not> mergeable mt ts i v)) \<and>
    ring_wf hdr' \<and> ring_contents hdr' = ring_contents hdr @ take (ring_room hdr) ts \<and>
    rh_seq_id hdr' = rh_seq_id hdr + 1"
proof -
  from tokenize_phases[OF assms(1-5), of mt] obtain s k where
    s: "bytes_to_tokens btt buf [0 ..< min (unat len) (unat MAX_PROMPT_LEN)] (s0\<lparr>ts_len := 0\<rparr>) \<bind>
      bpf_loop_merge mt MAX_MERGE_PASSES = Some s" "seq_wf s" "k \<le> 128"
    "bpe_run mt k (byte_tokens btt buf len) (seq_list s)"
    "k < 128 \<longrightarrow> (\<forall>i v. \<not> mergeable mt (seq_list s) i v)" by blast
  from tokenize_to_ring[OF assms(1,2,6) s(2,1)] s show ?thesis by blast
qed

definition sample_merges :: merge_map where
  "sample_merges = (\<lambda>p. if p = (97, 98) then Some \<lparr>mv_merged_id = 256, mv_priority = 1\<rparr>
     else if p = (98, 99) then Some \<lparr>mv_merged_id = 257, mv_priority = 0\<rparr> else None)"

definition sample_bytes :: "u32 list" where
  "sample_bytes = map of_nat [0 ..< 256]"

definition sample_seq :: token_seq where
  "sample_seq = \<lparr>ts_tokens = replicate 2048 0, ts_len = 0\<rparr>"

lemma sample_lengths: "length sample_bytes = 256" "length (ts_tokens sample_seq) = 2048"
  by (simp_all add: sample_bytes_def sample_seq_def)

theorem tokenize_correct_witness:
  "\<exists>ts k s hdr'. kllm_tokenize sample_merges sample_bytes (Some sample_seq) [97, 98, 99] 3 (Some sample_ring) =
      Some (int (length ts), Some s, Some hdr') \<and> ring_wf sample_ring \<and> length ts + k = 3 \<and>
    ring_contents hdr' = [10, 11] @ take 1 ts"
proof -
  have "ring_room sample_ring = 1" by (simp add: ring_room_def sample_ring_contents) (simp add: sample_ring_def)
  moreover have "length (byte_tokens sample_bytes [97, 98, 99] 3) = 3" by (simp add: byte_tokens_def)
  ultimately show ?thesis
    using tokenize_correct[of 3 "[97, 98, 99]" sample_bytes sample_seq sample_ring sample_merges]
      sample_lengths sample_ring_wf bpe_run_length
    by (simp add: sample_ring_contents word_less_nat_alt word_le_nat_alt) fastforce
qed

text \<open>
  A vocabulary is consistent with a decoding of tokens to bytes when byte tokens decode to
  their byte and merged tokens to the concatenation of their parts.
\<close>

definition vocab_ok :: "(u32 \<Rightarrow> u8 list) \<Rightarrow> merge_map \<Rightarrow> u32 list \<Rightarrow> bool" where
  "vocab_ok dec mt btt \<longleftrightarrow> (\<forall>b :: u8. dec (btt ! unat b) = [b]) \<and>
     (\<forall>l r v. mt (l, r) = Some v \<longrightarrow> dec (mv_merged_id v) = dec l @ dec r)"

lemma merge_pair_decode:
  assumes "vocab_ok dec mt btt" and "mergeable mt xs i v"
  shows "concat (map dec (merge_pair xs i (mv_merged_id v))) = concat (map dec xs)"
proof -
  have i: "i + 1 < length xs" and v: "dec (mv_merged_id v) = dec (xs ! i) @ dec (xs ! (i + 1))"
    using assms by (auto simp: mergeable_def vocab_ok_def)
  have "xs = take i xs @ xs ! i # xs ! (i + 1) # drop (i + 2) xs"
    using i by (metis Suc_eq_plus1 add_2_eq_Suc' Suc_lessD id_take_nth_drop Cons_nth_drop_Suc)
  then have "concat (map dec xs) = concat (map dec (take i xs @ xs ! i # xs ! (i + 1) # drop (i + 2) xs))"
    by simp
  also have "\<dots> = concat (map dec (merge_pair xs i (mv_merged_id v)))"
    by (simp add: merge_pair_def v)
  finally show ?thesis by simp
qed

lemma bpe_run_decode:
  assumes "vocab_ok dec mt btt" and "bpe_run mt k xs ys"
  shows "concat (map dec ys) = concat (map dec xs)"
  using assms(2)
  by (induction rule: bpe_run.induct) (simp_all add: best_merge_def merge_pair_decode[OF assms(1)])

lemma byte_tokens_decode:
  assumes "vocab_ok dec mt btt"
  shows "concat (map dec (byte_tokens btt buf len)) = take 2048 (take (unat len) buf)"
proof -
  have "concat (map dec (map (\<lambda>b. btt ! unat b) bs)) = bs" for bs
    using assms by (induction bs) (simp_all add: vocab_ok_def)
  then show ?thesis unfolding byte_tokens_def .
qed

text \<open>C17: tokenization loses nothing up to the length limit. For a vocabulary in which every
  merged token decodes to the bytes of its two parts, decoding the produced tokens gives back
  the first 2048 bytes of the prompt, whatever the merge ranks are; bytes beyond the 2048th
  are dropped without an error although prompts of up to 4096 bytes are accepted. The same tokens
  are produced with and without a ring; what is appended to a ring decodes to a prefix of those
  bytes, and to all of them when the ring has room for the tokens.\<close>

theorem tokenize_lossless:
  assumes "vocab_ok dec mt btt" and "0 < len" and "len \<le> 4096" and "unat len \<le> length buf"
    and "length btt = 256" and "length (ts_tokens s0) = 2048" and "ring_wf hdr"
  shows "\<exists>s hdr' new. kllm_tokenize mt btt (Some s0) buf len None = Some (int (length (seq_list s)), Some s, None) \<and>
    concat (map dec (seq_list s)) = take 2048 (take (unat len) buf) \<and>
    kllm_tokenize mt btt (Some s0) buf len (Some hdr) = Some (int (length (seq_list s)), Some s, Some hdr') \<and>
    ring_contents hdr' = ring_contents hdr @ new \<and>
    prefix (concat (map dec new)) (take 2048 (take (unat len) buf)) \<and>
    (length (seq_list s) \<le> ring_room hdr \<longrightarrow> concat (map dec new) = take 2048 (take (unat len) buf))"
proof -
  from tokenize_phases[OF assms(2-6), of mt] obtain s k where
    s: "bytes_to_tokens btt buf [0 ..< min (unat len) (unat MAX_PROMPT_LEN)] (s0\<lparr>ts_len := 0\<rparr>) \<bind>
      bpf_loop_merge mt MAX_MERGE_PASSES = Some s" "seq_wf s"
    "bpe_run mt k (byte_tokens btt buf len) (seq_list s)" by blast
  have "\<not> (len = 0 \<or> len > MAX_PROMPT_LEN)" using assms(2,3) by (auto simp: MAX_PROMPT_LEN_def)
  then have n: "kllm_tokenize mt btt (Some s0) buf len None = Some (int (length (seq_list s)), Some s, None)"
    using s(1) seq_len_sint[OF s(2)] by (auto simp: kllm_tokenize_def split: bind_splits)
  have d: "concat (map dec (seq_list s)) = take 2048 (take (unat len) buf)"
    using bpe_run_decode[OF assms(1) s(3)] byte_tokens_decode[OF assms(1)] by simp
  obtain hdr' where h: "kllm_tokenize mt btt (Some s0) buf len (Some hdr) = Some (int (length (seq_list s)), Some s, Some hdr')"
    "ring_contents hdr' = ring_contents hdr @ take (ring_room hdr) (seq_list s)"
    using tokenize_to_ring[OF assms(2,3,7) s(2,1)] by blast
  let ?new = "take (ring_room hdr) (seq_list s)"
  have "concat (map dec (seq_list s)) = concat (map dec ?new) @ concat (map dec (drop (ring_room hdr) (seq_list s)))"
    by (simp flip: concat_append map_append)
  then have "prefix (concat (map dec ?new)) (take 2048 (take (unat len) buf))" unfolding d by (rule prefixI)
  then show ?thesis using n d h by (intro exI[of _ s] exI[of _ hdr'] exI[of _ ?new]) simp
qed

definition sample_decode :: "u32 \<Rightarrow> u8 list" where
  "sample_decode t = (if t = 256 then [97, 98] else if t = 257 then [98, 99] else [ucast t])"

lemma sample_vocab: "vocab_ok sample_decode sample_merges sample_bytes"
proof -
  have b: "unat b < 256" for b :: u8 using unsigned_less[of b, where ?'a = nat] by simp
  have byte: "sample_decode (sample_bytes ! unat b) = [b]" for b :: u8
  proof -
    have "unat (of_nat (unat b) :: u32) = unat b"
      using b[of b] by (simp add: unsigned_of_nat take_bit_nat_eq_self del: of_nat_unat)
    then have n: "(of_nat (unat b) :: u32) \<noteq> 256" "(of_nat (unat b) :: u32) \<noteq> 257"
      using b[of b] by auto
    have "sample_bytes ! unat b = of_nat (unat b)" using b[of b] by (simp add: sample_bytes_def del: of_nat_unat)
    moreover have "(ucast (of_nat (unat b) :: u32) :: u8) = b" by (rule bit_word_eqI) (simp add: bit_simps)
    ultimately show ?thesis using n by (simp add: sample_decode_def del: of_nat_unat)
  qed
  have "sample_decode 97 = [97]" "sample_decode 98 = [98]" "sample_decode 99 = [99]"
    "sample_decode 256 = [97, 98]" "sample_decode 257 = [98, 99]" by code_simp+
  with byte show ?thesis by (auto simp: vocab_ok_def sample_merges_def)
qed

theorem tokenize_lossless_witness:
  "\<exists>s hdr' new. kllm_tokenize sample_merges sample_bytes (Some sample_seq) [97, 98, 99] 3 None =
      Some (int (length (seq_list s)), Some s, None) \<and>
     concat (map sample_decode (seq_list s)) = [97, 98, 99] \<and>
     kllm_tokenize sample_merges sample_bytes (Some sample_seq) [97, 98, 99] 3 (Some sample_ring) =
      Some (int (length (seq_list s)), Some s, Some hdr') \<and>
     ring_contents hdr' = [10, 11] @ new \<and> prefix (concat (map sample_decode new)) [97, 98, 99]"
  using tokenize_lossless[OF sample_vocab, of 3 "[97, 98, 99]" sample_seq sample_ring] sample_lengths sample_ring_wf
  by (auto simp: word_less_nat_alt word_le_nat_alt sample_ring_contents)

text \<open>a prompt of \<open>n\<close> bytes always yields between \<open>min n 2048 - 128\<close> and
  \<open>min n 2048\<close> tokens: the 128 passes merge one pair each, so a long prompt stays mostly byte tokens
  however many merges the table has for it.\<close>

theorem tokenize_bounds:
  assumes "0 < len" and "len \<le> 4096" and "unat len \<le> length buf" and "length btt = 256"
    and "length (ts_tokens s0) = 2048"
  shows "\<exists>n s. kllm_tokenize mt btt (Some s0) buf len None = Some (int n, Some s, None) \<and>
    min (unat len) 2048 \<le> n + 128 \<and> n \<le> min (unat len) 2048"
proof -
  from tokenize_phases[OF assms, of mt] obtain s k where
    s: "bytes_to_tokens btt buf [0 ..< min (unat len) (unat MAX_PROMPT_LEN)] (s0\<lparr>ts_len := 0\<rparr>) \<bind>
      bpf_loop_merge mt MAX_MERGE_PASSES = Some s" "seq_wf s" "k \<le> 128"
    "bpe_run mt k (byte_tokens btt buf len) (seq_list s)" by blast
  have "\<not> (len = 0 \<or> len > MAX_PROMPT_LEN)" using assms(1,2) by (auto simp: MAX_PROMPT_LEN_def)
  then have "kllm_tokenize mt btt (Some s0) buf len None = Some (int (length (seq_list s)), Some s, None)"
    using s(1) seq_len_sint[OF s(2)] by (auto simp: kllm_tokenize_def split: bind_splits)
  moreover have "length (byte_tokens btt buf len) = min (unat len) 2048"
    using assms(3) by (simp add: byte_tokens_def min_def)
  then have "length (seq_list s) + k = min (unat len) 2048" using bpe_run_length[OF s(4)] by simp
  then have "length (seq_list s) \<le> min (unat len) 2048" "min (unat len) 2048 \<le> length (seq_list s) + 128"
    using s(3) by linarith+
  ultimately show ?thesis by blast
qed

theorem tokenize_bounds_witness:
  "\<exists>n s. kllm_tokenize sample_merges sample_bytes (Some sample_seq) (replicate 300 97) 300 None =
      Some (int n, Some s, None) \<and> 172 \<le> n \<and> n \<le> 300"
  using tokenize_bounds[of 300 "replicate 300 97" sample_bytes sample_seq sample_merges] sample_lengths
  by (simp add: word_less_nat_alt word_le_nat_alt)

text \<open>what \<open>kllm_tokenize\<close> refuses (an empty prompt, one above 4096 bytes, a missing
  scratch entry) it refuses with -1 and without touching scratch space or ring.\<close>

theorem tokenize_rejects:
  assumes "len = 0 \<or> len > 4096 \<or> scratch = None"
  shows "kllm_tokenize mt btt scratch buf len ring = Some (- 1, scratch, ring)"
  using assms by (cases scratch) (auto simp: kllm_tokenize_def MAX_PROMPT_LEN_def)

theorem tokenize_rejects_witness:
  "kllm_tokenize sample_merges sample_bytes (Some sample_seq) (replicate 5000 97) 5000 (Some sample_ring) =
     Some (- 1, Some sample_seq, Some sample_ring)"
  by (rule tokenize_rejects) (simp add: word_less_nat_alt)

end
