(* ===== verification/Dispatch.thy ===== *)
theory Dispatch
  imports Kllm_Prelude
begin

text \<open>
  The CPU/GPU dispatch policy (\<open>userspace/compute/dispatch_policy.c\<close>). Floats appear only in
  the configuration, as their 32-bit patterns: \<open>0.8f\<close> is \<open>0x3F4CCCCD\<close>, and a pattern compares
  equal to \<open>0.0f\<close> when everything but its sign bit is clear.
\<close>

datatype kllm_dispatch_target = KLLM_TARGET_CPU | KLLM_TARGET_GPU

record kllm_dispatch_config =
  dc_cpu_seq_threshold :: u32
  dc_cache_hit_threshold :: u32
  dc_gpu_queue_max :: u32

record kllm_dispatch_state =
  ds_total_requests :: u64
  ds_cpu_dispatches :: u64
  ds_gpu_dispatches :: u64
  ds_cache_hits :: u64
  ds_cache_misses :: u64
  ds_gpu_queue_depth :: u32

record kllm_dispatch_ctx =
  dctx_cfg :: kllm_dispatch_config
  dctx_state :: kllm_dispatch_state

definition dispatch_state0 :: kllm_dispatch_state where
  "dispatch_state0 = \<lparr>ds_total_requests = 0, ds_cpu_dispatches = 0, ds_gpu_dispatches = 0,
     ds_cache_hits = 0, ds_cache_misses = 0, ds_gpu_queue_depth = 0\<rparr>"

definition kllm_dispatch_create :: "bool \<Rightarrow> kllm_dispatch_config \<Rightarrow> kllm_dispatch_ctx option" where
  "kllm_dispatch_create calloc_ok cfg =
    (if \<not> calloc_ok then None
     else
       let cfg = (if dc_cpu_seq_threshold cfg = 0 then cfg\<lparr>dc_cpu_seq_threshold := 512\<rparr> else cfg);
           cfg = (if dc_cache_hit_threshold cfg AND 0x7FFFFFFF = 0
                  then cfg\<lparr>dc_cache_hit_threshold := 0x3F4CCCCD\<rparr> else cfg);
           cfg = (if dc_gpu_queue_max cfg = 0 then cfg\<lparr>dc_gpu_queue_max := 64\<rparr> else cfg)
       in Some \<lparr>dctx_cfg = cfg, dctx_state = dispatch_state0\<rparr>)"

definition kllm_dispatch_decide ::
  "kllm_dispatch_ctx \<Rightarrow> u32 \<Rightarrow> bool \<Rightarrow> kllm_dispatch_target \<times> kllm_dispatch_ctx" where
  "kllm_dispatch_decide ctx seq_len cache_hit =
    (let cfg = dctx_cfg ctx;
         s = (dctx_state ctx)\<lparr>ds_total_requests := ds_total_requests (dctx_state ctx) + 1\<rparr>;
         s = (if cache_hit then s\<lparr>ds_cache_hits := ds_cache_hits s + 1\<rparr>
              else s\<lparr>ds_cache_misses := ds_cache_misses s + 1\<rparr>);
         target = (if seq_len \<le> dc_cpu_seq_threshold cfg \<and> cache_hit then KLLM_TARGET_CPU
                   else if seq_len > dc_cpu_seq_threshold cfg then KLLM_TARGET_GPU
                   else if \<not> cache_hit then KLLM_TARGET_GPU
                   else KLLM_TARGET_GPU);
         target = (if target = KLLM_TARGET_GPU \<and> ds_gpu_queue_depth s \<ge> dc_gpu_queue_max cfg \<and>
                      seq_len \<le> dc_cpu_seq_threshold cfg
                   then KLLM_TARGET_CPU else target);
         s = (if target = KLLM_TARGET_CPU then s\<lparr>ds_cpu_dispatches := ds_cpu_dispatches s + 1\<rparr>
              else s\<lparr>ds_gpu_dispatches := ds_gpu_dispatches s + 1,
                     ds_gpu_queue_depth := ds_gpu_queue_depth s + 1\<rparr>)
     in (target, ctx\<lparr>dctx_state := s\<rparr>))"

definition kllm_dispatch_gpu_complete :: "kllm_dispatch_ctx \<Rightarrow> kllm_dispatch_ctx" where
  "kllm_dispatch_gpu_complete ctx =
    (let s = dctx_state ctx
     in if ds_gpu_queue_depth s > 0
        then ctx\<lparr>dctx_state := s\<lparr>ds_gpu_queue_depth := ds_gpu_queue_depth s - 1\<rparr>\<rparr>
        else ctx)"

definition kllm_dispatch_get_state :: "kllm_dispatch_ctx \<Rightarrow> kllm_dispatch_state" where
  "kllm_dispatch_get_state ctx = dctx_state ctx"

section \<open>Runs\<close>

datatype dispatch_op = Decide u32 bool | Complete

fun dispatch_step :: "dispatch_op \<Rightarrow> kllm_dispatch_ctx \<Rightarrow> kllm_dispatch_ctx" where
  "dispatch_step (Decide n hit) ctx = snd (kllm_dispatch_decide ctx n hit)"
| "dispatch_step Complete ctx = kllm_dispatch_gpu_complete ctx"

definition dispatch_run :: "dispatch_op list \<Rightarrow> kllm_dispatch_ctx \<Rightarrow> kllm_dispatch_ctx" where
  "dispatch_run ops ctx = fold dispatch_step ops ctx"

lemma decide_target:
  "fst (kllm_dispatch_decide ctx n hit) =
    (if n \<le> dc_cpu_seq_threshold (dctx_cfg ctx) \<and>
        (hit \<or> ds_gpu_queue_depth (dctx_state ctx) \<ge> dc_gpu_queue_max (dctx_cfg ctx))
     then KLLM_TARGET_CPU else KLLM_TARGET_GPU)"
  by (cases "n \<le> dc_cpu_seq_threshold (dctx_cfg ctx)"; cases hit)
    (simp_all add: kllm_dispatch_decide_def Let_def not_le not_less)

lemma step_cfg: "dctx_cfg (dispatch_step p ctx) = dctx_cfg ctx"
  by (cases p) (simp_all add: kllm_dispatch_decide_def kllm_dispatch_gpu_complete_def Let_def)

text \<open>How far a run moves the queue depth: one per GPU decision, and no completions.\<close>

lemma decide_depth:
  "ds_gpu_queue_depth (dctx_state (snd (kllm_dispatch_decide ctx n hit))) =
    ds_gpu_queue_depth (dctx_state ctx) +
    (if fst (kllm_dispatch_decide ctx n hit) = KLLM_TARGET_GPU then 1 else 0)"
  by (simp add: kllm_dispatch_decide_def Let_def)

lemma decide_cfg: "dctx_cfg (snd (kllm_dispatch_decide ctx n hit)) = dctx_cfg ctx"
  using step_cfg[of "Decide n hit"] by simp

lemma decide_fields:
  "dctx_state (snd (kllm_dispatch_decide ctx n hit)) =
    (let s = dctx_state ctx; gpu = (fst (kllm_dispatch_decide ctx n hit) = KLLM_TARGET_GPU) in
     \<lparr>ds_total_requests = ds_total_requests s + 1,
      ds_cpu_dispatches = (if gpu then ds_cpu_dispatches s else ds_cpu_dispatches s + 1),
      ds_gpu_dispatches = (if gpu then ds_gpu_dispatches s + 1 else ds_gpu_dispatches s),
      ds_cache_hits = (if hit then ds_cache_hits s + 1 else ds_cache_hits s),
      ds_cache_misses = (if hit then ds_cache_misses s else ds_cache_misses s + 1),
      ds_gpu_queue_depth = (if gpu then ds_gpu_queue_depth s + 1 else ds_gpu_queue_depth s)\<rparr>)"
  by (cases "dctx_state ctx") (simp add: kllm_dispatch_decide_def Let_def)

definition short_decide :: "kllm_dispatch_config \<Rightarrow> dispatch_op \<Rightarrow> bool" where
  "short_decide cfg p = (case p of Decide n hit \<Rightarrow> n \<le> dc_cpu_seq_threshold cfg | Complete \<Rightarrow> False)"

text \<open>Without completions the queue depth counts the GPU dispatches, and short requests never
  push it past the configured maximum.\<close>

definition depth_counts :: "kllm_dispatch_ctx \<Rightarrow> bool" where
  "depth_counts ctx \<longleftrightarrow> unat (ds_gpu_dispatches (dctx_state ctx)) = unat (ds_gpu_queue_depth (dctx_state ctx)) \<and>
     unat (ds_gpu_queue_depth (dctx_state ctx)) \<le> unat (dc_gpu_queue_max (dctx_cfg ctx))"

lemma unat_Suc_below:
  fixes w :: "'a::len word" and m :: u32
  assumes "unat w < unat m" "32 \<le> LENGTH('a)"
  shows "unat (w + 1) = Suc (unat w)"
proof -
  have "(2::nat) ^ 32 \<le> 2 ^ LENGTH('a)" using assms(2) by (intro power_increasing) simp_all
  moreover have "unat m < 2 ^ 32" using unsigned_less[of m, where ?'a = nat] by simp
  ultimately have "unat w + 1 < 2 ^ LENGTH('a)" using assms(1) by linarith
  then show ?thesis by (simp add: unat_word_ariths)
qed

lemma short_decide_depth:
  assumes "depth_counts ctx" "n \<le> dc_cpu_seq_threshold (dctx_cfg ctx)"
  shows "depth_counts (snd (kllm_dispatch_decide ctx n hit))"
proof (cases "fst (kllm_dispatch_decide ctx n hit) = KLLM_TARGET_GPU")
  case True
  then have "\<not> hit" "ds_gpu_queue_depth (dctx_state ctx) < dc_gpu_queue_max (dctx_cfg ctx)"
    using assms(2) by (auto simp: decide_target split: if_splits)
  then have lt: "unat (ds_gpu_queue_depth (dctx_state ctx)) < unat (dc_gpu_queue_max (dctx_cfg ctx))"
    by (simp add: word_less_nat_alt)
  have "unat (ds_gpu_queue_depth (dctx_state ctx) + 1) = Suc (unat (ds_gpu_queue_depth (dctx_state ctx)))"
       "unat (ds_gpu_dispatches (dctx_state ctx) + 1) = Suc (unat (ds_gpu_dispatches (dctx_state ctx)))"
    using assms(1) lt
    by (simp_all add: depth_counts_def unat_Suc_below[where m = "dc_gpu_queue_max (dctx_cfg ctx)"])
  moreover have "ds_gpu_dispatches (dctx_state (snd (kllm_dispatch_decide ctx n hit))) =
      ds_gpu_dispatches (dctx_state ctx) + 1"
    using True by (simp add: kllm_dispatch_decide_def Let_def)
  ultimately show ?thesis
    using True assms(1) lt by (simp add: depth_counts_def decide_depth decide_cfg)
next
  case False
  then have "ds_gpu_dispatches (dctx_state (snd (kllm_dispatch_decide ctx n hit))) =
      ds_gpu_dispatches (dctx_state ctx)"
    by (simp add: kllm_dispatch_decide_def Let_def split: if_splits)
  with False assms(1) show ?thesis by (simp add: depth_counts_def decide_depth decide_cfg)
qed

lemma short_run_depth:
  "\<lbrakk>depth_counts ctx; list_all (short_decide (dctx_cfg ctx)) ops\<rbrakk> \<Longrightarrow>
    depth_counts (dispatch_run ops ctx) \<and> dctx_cfg (dispatch_run ops ctx) = dctx_cfg ctx"
proof (induction ops arbitrary: ctx)
  case (Cons p ops)
  then obtain n hit where p: "p = Decide n hit" and "n \<le> dc_cpu_seq_threshold (dctx_cfg ctx)"
    by (cases p) (simp_all add: short_decide_def)
  then have "depth_counts (dispatch_step p ctx)" using short_decide_depth Cons.prems by simp
  with Cons step_cfg[of p ctx] show ?case by (simp add: dispatch_run_def)
qed (simp add: dispatch_run_def)

section \<open>The policy\<close>

text \<open>The policy without machine integers: the number of requests in flight on the GPU and the log of
  the decisions, each with its cache hit and its target.\<close>

definition policy_target :: "kllm_dispatch_config \<Rightarrow> nat \<Rightarrow> u32 \<Rightarrow> bool \<Rightarrow> kllm_dispatch_target" where
  "policy_target cfg inflight n hit =
    (if n \<le> dc_cpu_seq_threshold cfg \<and> (hit \<or> unat (dc_gpu_queue_max cfg) \<le> inflight)
     then KLLM_TARGET_CPU else KLLM_TARGET_GPU)"

fun policy_step :: "kllm_dispatch_config \<Rightarrow> dispatch_op \<Rightarrow> nat \<times> (bool \<times> kllm_dispatch_target) list \<Rightarrow>
    nat \<times> (bool \<times> kllm_dispatch_target) list" where
  "policy_step cfg (Decide n hit) (inflight, log) =
    (let t = policy_target cfg inflight n hit
     in (inflight + (if t = KLLM_TARGET_GPU then 1 else 0), log @ [(hit, t)]))"
| "policy_step cfg Complete (inflight, log) = (inflight - 1, log)"

definition policy_run :: "kllm_dispatch_config \<Rightarrow> dispatch_op list \<Rightarrow> nat \<times> (bool \<times> kllm_dispatch_target) list" where
  "policy_run cfg ops = fold (policy_step cfg) ops (0, [])"

text \<open>The targets the code returns in a run.\<close>

fun dispatch_targets :: "dispatch_op list \<Rightarrow> kllm_dispatch_ctx \<Rightarrow> kllm_dispatch_target list" where
  "dispatch_targets [] ctx = []"
| "dispatch_targets (Decide n hit # ops) ctx =
    fst (kllm_dispatch_decide ctx n hit) # dispatch_targets ops (dispatch_step (Decide n hit) ctx)"
| "dispatch_targets (Complete # ops) ctx = dispatch_targets ops (dispatch_step Complete ctx)"

definition policy_abs :: "kllm_dispatch_state \<Rightarrow> nat \<times> (bool \<times> kllm_dispatch_target) list \<Rightarrow> bool" where
  "policy_abs s p \<longleftrightarrow> (case p of (inflight, log) \<Rightarrow>
     unat (ds_gpu_queue_depth s) = inflight \<and> unat (ds_total_requests s) = length log \<and>
     unat (ds_cache_hits s) = length (filter fst log) \<and>
     unat (ds_cache_misses s) = length (filter (Not \<circ> fst) log) \<and>
     unat (ds_cpu_dispatches s) = length (filter (\<lambda>x. snd x = KLLM_TARGET_CPU) log) \<and>
     unat (ds_gpu_dispatches s) = length (filter (\<lambda>x. snd x = KLLM_TARGET_GPU) log))"

lemma unat_plus_one:
  fixes w :: "'a::len word"
  assumes "unat w < 2 ^ 32 - 1" "32 \<le> LENGTH('a)"
  shows "unat (w + 1) = unat w + 1"
proof -
  have "(2::nat) ^ 32 \<le> 2 ^ LENGTH('a)" using assms(2) by (intro power_increasing) simp_all
  then have "unat w + 1 < 2 ^ LENGTH('a)" using assms(1) by linarith
  then show ?thesis by (simp add: unat_word_ariths)
qed

lemma policy_step_refines:
  fixes op :: dispatch_op
  assumes abs: "policy_abs (dctx_state ctx) p" and b: "fst p \<le> k" "length (snd p) \<le> k" "k < 2 ^ 32 - 1"
  defines "p' \<equiv> policy_step (dctx_cfg ctx) op p"
  shows "policy_abs (dctx_state (dispatch_step op ctx)) p' \<and> fst p' \<le> k + 1 \<and> length (snd p') \<le> k + 1"
proof -
  obtain q log where p: "p = (q, log)" by (cases p)
  have bl: "length (filter P log) < 2 ^ 32 - 1" for P
  proof -
    have "length log \<le> k" using b(2) p by simp
    then show ?thesis using length_filter_le[of P log] b(3) by linarith
  qed
  show ?thesis
  proof (cases op)
    case Complete
    have "unat (ds_gpu_queue_depth (dctx_state ctx) - 1) = q - 1" if "ds_gpu_queue_depth (dctx_state ctx) \<noteq> 0"
      using abs p that by (simp add: policy_abs_def unat_minus_one)
    then show ?thesis using abs b p Complete unfolding p'_def
      by (cases "ds_gpu_queue_depth (dctx_state ctx) = 0")
        (auto simp: policy_abs_def kllm_dispatch_gpu_complete_def Let_def word_gt_0)
  next
    case (Decide n hit)
    define s where "s = dctx_state ctx"
    have A: "unat (ds_gpu_queue_depth s) = q" "unat (ds_total_requests s) = length log"
      "unat (ds_cache_hits s) = length (filter fst log)" "unat (ds_cache_misses s) = length (filter (Not \<circ> fst) log)"
      "unat (ds_cpu_dispatches s) = length (filter (\<lambda>x. snd x = KLLM_TARGET_CPU) log)"
      "unat (ds_gpu_dispatches s) = length (filter (\<lambda>x. snd x = KLLM_TARGET_GPU) log)"
      using abs by (simp_all add: policy_abs_def p s_def)
    have t: "fst (kllm_dispatch_decide ctx n hit) = policy_target (dctx_cfg ctx) q n hit"
      using A(1) by (simp add: decide_target policy_target_def word_le_nat_alt s_def)
    have inc: "unat (ds_gpu_queue_depth s + 1) = q + 1" "unat (ds_total_requests s + 1) = length log + 1"
      "unat (ds_cache_hits s + 1) = length (filter fst log) + 1"
      "unat (ds_cache_misses s + 1) = length (filter (Not \<circ> fst) log) + 1"
      "unat (ds_cpu_dispatches s + 1) = length (filter (\<lambda>x. snd x = KLLM_TARGET_CPU) log) + 1"
      "unat (ds_gpu_dispatches s + 1) = length (filter (\<lambda>x. snd x = KLLM_TARGET_GPU) log) + 1"
      using b bl unfolding A[symmetric] p by (simp_all add: unat_plus_one A)
    show ?thesis using A inc b p Decide t unfolding p'_def
      by (cases hit; cases "policy_target (dctx_cfg ctx) q n hit")
        (simp_all add: policy_abs_def decide_fields Let_def flip: s_def)
  qed
qed

lemma policy_run_refines:
  "\<lbrakk>policy_abs (dctx_state ctx) p; fst p \<le> k; length (snd p) \<le> k; k + length ops < 2 ^ 32 - 1\<rbrakk> \<Longrightarrow>
    policy_abs (dctx_state (dispatch_run ops ctx)) (fold (policy_step (dctx_cfg ctx)) ops p) \<and>
    map snd (snd p) @ dispatch_targets ops ctx = map snd (snd (fold (policy_step (dctx_cfg ctx)) ops p))"
proof (induction ops arbitrary: ctx p k)
  case Nil
  then show ?case by (simp add: dispatch_run_def)
next
  case (Cons op ops)
  have "k < 2 ^ 32 - 1" using Cons.prems(4) by simp
  note st = policy_step_refines[OF Cons.prems(1-3) this, of op]
  obtain q log where p: "p = (q, log)" by (cases p)
  have "map snd (snd p) @ dispatch_targets (op # ops) ctx =
      map snd (snd (policy_step (dctx_cfg ctx) op p)) @ dispatch_targets ops (dispatch_step op ctx)"
    using Cons.prems(1) by (cases op)
      (simp_all add: p Let_def decide_target policy_target_def policy_abs_def word_le_nat_alt)
  moreover have "dispatch_run (op # ops) ctx = dispatch_run ops (dispatch_step op ctx)" by (simp add: dispatch_run_def)
  ultimately show ?case
    using Cons.IH[of "dispatch_step op ctx" "policy_step (dctx_cfg ctx) op p" "k + 1"] st Cons.prems(4) step_cfg[of op ctx]
    by simp
qed

section \<open>Properties\<close>

text \<open>C28: the dispatcher refines the policy. For every run of decisions and completions shorter than
  \<open>2^32 - 1\<close> steps, the targets the code returns are those of the policy (a request runs on the CPU
  exactly when it is within the length threshold and either hit the cache or found the GPU queue
  full), the queue depth is the number of requests in flight, and the five counters count what
  happened: requests, hits, misses and the dispatches to either side. The configured minimal hit
  rate, which the policy does not mention, plays no role.\<close>

theorem dispatch_refines_policy:
  assumes "kllm_dispatch_create True cfg = Some ctx" "length ops < 2 ^ 32 - 1"
  shows "policy_abs (kllm_dispatch_get_state (dispatch_run ops ctx)) (policy_run (dctx_cfg ctx) ops) \<and>
    dispatch_targets ops ctx = map snd (snd (policy_run (dctx_cfg ctx) ops))"
proof -
  have "policy_abs (dctx_state ctx) (0, [])"
    using assms(1) by (auto simp: kllm_dispatch_create_def Let_def policy_abs_def dispatch_state0_def)
  then show ?thesis
    using policy_run_refines[of ctx "(0, [])" 0 ops] assms(2)
    by (simp add: policy_run_def kllm_dispatch_get_state_def)
qed

definition sample_dispatch :: kllm_dispatch_config where
  "sample_dispatch = \<lparr>dc_cpu_seq_threshold = 0, dc_cache_hit_threshold = 0, dc_gpu_queue_max = 2\<rparr>"

theorem dispatch_refines_policy_witness:
  "\<exists>ctx. kllm_dispatch_create True sample_dispatch = Some ctx \<and>
     dispatch_targets [Decide 10 True, Decide 600 True, Decide 7 False, Decide 8 False, Complete, Decide 9 False] ctx =
       [KLLM_TARGET_CPU, KLLM_TARGET_GPU, KLLM_TARGET_GPU, KLLM_TARGET_CPU, KLLM_TARGET_GPU]"
proof -
  let ?ops = "[Decide 10 True, Decide 600 True, Decide 7 False, Decide 8 False, Complete, Decide 9 False]"
  obtain ctx where c: "kllm_dispatch_create True sample_dispatch = Some ctx"
    and m: "dc_gpu_queue_max (dctx_cfg ctx) = 2" "dc_cpu_seq_threshold (dctx_cfg ctx) = 512"
    by (simp add: kllm_dispatch_create_def Let_def sample_dispatch_def)
  from dispatch_refines_policy[OF c, of ?ops] c show ?thesis
    by (simp add: policy_run_def policy_target_def m Let_def)
qed

text \<open>C30: without a call of \<open>kllm_dispatch_gpu_complete\<close> (which no source file makes) at most
  \<open>gpu_queue_max\<close> short requests ever reach the GPU: whatever short requests follow each other,
  the number of GPU dispatches stays within the queue's maximum, for good.\<close>

theorem dispatch_saturates:
  assumes "kllm_dispatch_create True cfg = Some ctx"
    and "list_all (short_decide (dctx_cfg ctx)) ops"
  shows "unat (ds_gpu_dispatches (dctx_state (dispatch_run ops ctx))) \<le> unat (dc_gpu_queue_max (dctx_cfg ctx))"
proof -
  have "depth_counts ctx"
    using assms(1) by (auto simp: kllm_dispatch_create_def Let_def depth_counts_def dispatch_state0_def)
  from short_run_depth[OF this assms(2)] show ?thesis by (auto simp: depth_counts_def)
qed

theorem dispatch_saturates_witness:
  "\<exists>ctx. kllm_dispatch_create True sample_dispatch = Some ctx \<and>
     unat (ds_gpu_dispatches (dctx_state (dispatch_run (replicate 5 (Decide 7 False)) ctx))) \<le> 2"
proof -
  obtain ctx where c: "kllm_dispatch_create True sample_dispatch = Some ctx"
    and m: "dc_gpu_queue_max (dctx_cfg ctx) = 2" "dc_cpu_seq_threshold (dctx_cfg ctx) = 512"
    by (simp add: kllm_dispatch_create_def Let_def sample_dispatch_def)
  from dispatch_saturates[OF c, of "replicate 5 (Decide 7 False)"] c m show ?thesis
    by (auto simp: list_all_iff short_decide_def)
qed

end
