(* ===== verification/Response.thy ===== *)
theory Response
  imports Chardev
begin

text \<open>
  The response library of the reactor (\<open>userspace/reactor/kllm_response.c\<close>): it sends
  generated tokens to the character device by \<open>ioctl\<close>, in batches of at most 256. The system
  call goes to \<open>kllm_ioctl\<close> of the kernel module when the descriptor is the device's, and fails
  with the errno of the kernel otherwise. The locale \<open>response_sink\<close> is what the decode loop and
  the scheduler rely on.
\<close>

datatype fd_target = FdChardev | FdOther | FdClosed

text \<open>The process state an \<open>ioctl\<close> sees: the descriptor table, the contents of the uninitialised
  stack buffer \<open>cmd.tokens\<close>, and the device.\<close>

record os_state =
  os_fds :: "int \<Rightarrow> fd_target"
  os_stack :: "u32 list"
  os_dev :: kllm_device

definition EBADF :: int where "EBADF = 9"

record kllm_response_ctx =
  resp_fd :: int

definition kllm_response_create :: "bool \<Rightarrow> int \<Rightarrow> kllm_response_ctx option" where
  "kllm_response_create calloc_ok chardev_fd =
     (if calloc_ok then Some \<lparr>resp_fd = chardev_fd\<rparr> else None)"

text \<open>The \<open>ioctl\<close> system call: a negative result is \<open>-errno\<close>.\<close>

definition sys_ioctl :: "os_state \<Rightarrow> int \<Rightarrow> u32 \<Rightarrow> kllm_emit_cmd option \<Rightarrow> (int \<times> os_state) option" where
  "sys_ioctl os fd cmd arg =
     (case os_fds os fd of
        FdClosed \<Rightarrow> Some (- EBADF, os)
      | FdOther \<Rightarrow> Some (- ENOTTY, os)
      | FdChardev \<Rightarrow> do {
          (r, dev') \<leftarrow> kllm_ioctl (os_dev os) cmd arg;
          Some (r, os\<lparr>os_dev := dev'\<rparr>) })"

definition memcpy_words :: "u32 list \<Rightarrow> u32 list \<Rightarrow> nat \<Rightarrow> nat \<Rightarrow> u32 list option" where
  "memcpy_words dst src off n =
     (if off + n \<le> length src \<and> n \<le> length dst
      then Some (take n (drop off src) @ drop n dst) else None)"

definition emit_batch :: "u32 \<Rightarrow> u32 \<Rightarrow> u32" where
  "emit_batch count sent = (if count - sent > 256 then 256 else count - sent)"

lemma emit_batch_bounds:
  assumes "sent < count"
  shows "0 < unat (emit_batch count sent)" "unat (emit_batch count sent) \<le> 256"
    "unat (sent + emit_batch count sent) = unat sent + unat (emit_batch count sent)"
    "unat sent + unat (emit_batch count sent) \<le> unat count"
proof -
  have lt: "unat sent < unat count" using assms by (simp add: word_less_nat_alt)
  have d: "unat (count - sent) = unat count - unat sent"
    using assms by (simp add: unat_sub less_imp_le)
  have b: "unat (emit_batch count sent) = min 256 (unat count - unat sent)"
    using d by (simp add: emit_batch_def word_less_nat_alt min_def)
  show "0 < unat (emit_batch count sent)" "unat (emit_batch count sent) \<le> 256"
    using b lt by simp_all
  show le: "unat sent + unat (emit_batch count sent) \<le> unat count"
    using b lt by simp
  have "unat count < 2 ^ 32" using unsigned_less[of count, where ?'a = nat] by simp
  then have "unat sent + unat (emit_batch count sent) < 2 ^ LENGTH(32)" using le by simp
  then show "unat (sent + emit_batch count sent) = unat sent + unat (emit_batch count sent)"
    by (simp add: unat_word_ariths)
qed

function emit_batches :: "os_state \<Rightarrow> int \<Rightarrow> u32 list \<Rightarrow> u32 list \<Rightarrow> u32 \<Rightarrow> u32 \<Rightarrow> (int \<times> os_state) option" where
  "emit_batches os fd buf tokens count sent =
     (if sent < count then
        (case memcpy_words buf tokens (unat sent) (unat (emit_batch count sent)) of
           None \<Rightarrow> None
         | Some buf' \<Rightarrow>
             (case sys_ioctl os fd KLLM_IOC_EMIT_TOKENS
                     (Some \<lparr>emit_count = emit_batch count sent, emit_tokens = buf'\<rparr>) of
                None \<Rightarrow> None
              | Some (r, os') \<Rightarrow>
                  if r < 0 then Some (r, os')
                  else emit_batches os' fd buf' tokens count (sent + emit_batch count sent)))
      else Some (0, os))"
  by pat_completeness auto
termination
proof (relation "measure (\<lambda>(os, fd, buf, tokens, count, sent). unat count - unat sent)", goal_cases)
  case (2 os fd buf tokens count sent buf' p r os')
  show ?case using emit_batch_bounds[OF 2(1)] by simp
qed simp

declare emit_batches.simps [simp del]

definition kllm_response_emit :: "kllm_response_ctx \<Rightarrow> os_state \<Rightarrow> u32 list \<Rightarrow> u32 \<Rightarrow> (int \<times> os_state) option" where
  "kllm_response_emit ctx os tokens count = emit_batches os (resp_fd ctx) (os_stack os) tokens count 0"

definition kllm_response_emit_one :: "kllm_response_ctx \<Rightarrow> os_state \<Rightarrow> u32 \<Rightarrow> (int \<times> os_state) option" where
  "kllm_response_emit_one ctx os token = kllm_response_emit ctx os [token] 1"

definition kllm_response_eos :: "kllm_response_ctx \<Rightarrow> os_state \<Rightarrow> (int \<times> os_state) option" where
  "kllm_response_eos ctx os = do {
     (r, os') \<leftarrow> sys_ioctl os (resp_fd ctx) KLLM_IOC_EOS None;
     if r < 0 then Some (r, os') else Some (0, os') }"

section \<open>What a client relies on\<close>

locale response_sink =
  fixes invar :: "'s \<Rightarrow> bool"
    and contents :: "'s \<Rightarrow> u32 list"
    and room :: "'s \<Rightarrow> nat"
    and emit_one :: "'s \<Rightarrow> u32 \<Rightarrow> (int \<times> 's) option"
    and eos :: "'s \<Rightarrow> (int \<times> 's) option"
  assumes emit_one_ok: "invar s \<Longrightarrow> \<exists>s'. emit_one s x = Some (0, s') \<and> invar s' \<and>
      contents s' = contents s @ take (room s) [x] \<and> room s' = room s - 1"
    and eos_ok: "invar s \<Longrightarrow> \<exists>s'. eos s = Some (0, s') \<and> invar s' \<and>
      contents s' = contents s @ take (room s) [EOS_SENTINEL] \<and> room s' = room s - 1"
begin

fun emit_each :: "u32 list \<Rightarrow> 's \<Rightarrow> 's option" where
  "emit_each [] s = Some s"
| "emit_each (x # xs) s = do { (r, s') \<leftarrow> emit_one s x; emit_each xs s' }"

lemma emit_each_appends:
  "invar s \<Longrightarrow> \<exists>s'. emit_each xs s = Some s' \<and> invar s' \<and>
     contents s' = contents s @ take (room s) xs \<and> room s' = room s - length xs"
proof (induction xs arbitrary: s)
  case (Cons x xs)
  obtain s1 where "emit_one s x = Some (0, s1)" and s1: "invar s1"
    "contents s1 = contents s @ take (room s) [x]" "room s1 = room s - 1"
    using emit_one_ok[OF Cons.prems] by blast
  with Cons.IH[OF s1(1)] show ?case by (cases "room s") auto
qed simp

text \<open>A response: the tokens in order, then the end-of-stream mark.\<close>

lemma stream_appends:
  assumes "invar s"
  shows "\<exists>s1 s2. emit_each xs s = Some s1 \<and> eos s1 = Some (0, s2) \<and> invar s2 \<and>
     contents s2 = contents s @ take (room s) (xs @ [EOS_SENTINEL])"
proof -
  obtain s1 where s1: "emit_each xs s = Some s1" "invar s1"
    "contents s1 = contents s @ take (room s) xs" "room s1 = room s - length xs"
    using emit_each_appends[OF assms] by blast
  obtain s2 where "eos s1 = Some (0, s2)" "invar s2"
    "contents s2 = contents s1 @ take (room s1) [EOS_SENTINEL]"
    using eos_ok[OF s1(2)] by blast
  with s1 show ?thesis by auto
qed

end

section \<open>The library implements the sink\<close>

definition resp_ready :: "kllm_response_ctx \<Rightarrow> os_state \<Rightarrow> bool" where
  "resp_ready ctx os \<longleftrightarrow> os_fds os (resp_fd ctx) = FdChardev \<and> length (os_stack os) = 256 \<and>
     resp_wf (os_dev os)"

lemma emit_batches_appends:
  assumes "os_fds os fd = FdChardev" and "length buf = 256" and "resp_wf (os_dev os)"
    and "unat count \<le> length tokens" and "unat sent \<le> unat count"
  shows "\<exists>os'. emit_batches os fd buf tokens count sent = Some (0, os') \<and>
     os_fds os' = os_fds os \<and> os_stack os' = os_stack os \<and> resp_wf (os_dev os') \<and>
     resp_contents (os_dev os') = resp_contents (os_dev os) @
       take (resp_room (os_dev os)) (drop (unat sent) (take (unat count) tokens)) \<and>
     resp_room (os_dev os') = resp_room (os_dev os) - (unat count - unat sent)"
  using assms
proof (induction "unat count - unat sent" arbitrary: os buf sent rule: less_induct)
  case less
  show ?case
  proof (cases "sent < count")
    case False
    then have "unat sent = unat count" using less.prems(5) by (simp add: word_less_nat_alt)
    with False less.prems show ?thesis by (simp add: emit_batches.simps)
  next
    case True
    let ?b = "emit_batch count sent"
    note b = emit_batch_bounds[OF True]
    obtain buf' where buf': "memcpy_words buf tokens (unat sent) (unat ?b) = Some buf'"
      "length buf' = 256" "take (unat ?b) buf' = take (unat ?b) (drop (unat sent) tokens)"
      using b less.prems by (simp add: memcpy_words_def)
    obtain dev' where dev': "kllm_ioctl (os_dev os) KLLM_IOC_EMIT_TOKENS
        (Some \<lparr>emit_count = ?b, emit_tokens = buf'\<rparr>) = Some (0, dev')" "resp_wf dev'"
      "resp_contents dev' = resp_contents (os_dev os) @
        take (resp_room (os_dev os)) (take (unat ?b) (drop (unat sent) tokens))"
      "resp_room dev' = resp_room (os_dev os) - unat ?b"
      using emit_appends[OF less.prems(3), of "\<lparr>emit_count = ?b, emit_tokens = buf'\<rparr>"] b(2) buf'
      by (auto simp: word_le_nat_alt)
    have "take (unat ?b) (drop (unat sent) (take (unat count) tokens)) = take (unat ?b) (drop (unat sent) tokens)"
      using b(4) by (simp add: drop_take min_def)
    then have split: "drop (unat sent) (take (unat count) tokens) =
        take (unat ?b) (drop (unat sent) tokens) @ drop (unat sent + unat ?b) (take (unat count) tokens)"
      using append_take_drop_id[of "unat ?b" "drop (unat sent) (take (unat count) tokens)"]
      unfolding drop_drop by (simp only: add.commute)
    have len: "length (take (unat ?b) (drop (unat sent) tokens)) = unat ?b"
      using b(4) less.prems(4) by simp
    have "unat count - unat (sent + ?b) < unat count - unat sent" using b by simp
    from less.hyps[OF this, of "os\<lparr>os_dev := dev'\<rparr>" buf'] less.prems(1,4) b(3,4) dev'(2) buf'(2)
    obtain os' where os': "emit_batches (os\<lparr>os_dev := dev'\<rparr>) fd buf' tokens count (sent + ?b) = Some (0, os')"
      "os_fds os' = os_fds os" "os_stack os' = os_stack os" "resp_wf (os_dev os')"
      "resp_contents (os_dev os') = resp_contents dev' @
        take (resp_room dev') (drop (unat sent + unat ?b) (take (unat count) tokens))"
      "resp_room (os_dev os') = resp_room dev' - (unat count - (unat sent + unat ?b))"
      by auto
    have "emit_batches os fd buf tokens count sent = Some (0, os')"
      using os'(1) buf'(1) dev'(1) less.prems(1) True
      by (simp add: emit_batches.simps[of os fd buf] sys_ioctl_def)
    moreover have "resp_contents (os_dev os') = resp_contents (os_dev os) @
        take (resp_room (os_dev os)) (drop (unat sent) (take (unat count) tokens))"
      unfolding os'(5) dev'(3,4) split take_append len by simp
    moreover have "resp_room (os_dev os') = resp_room (os_dev os) - (unat count - unat sent)"
      unfolding os'(6) dev'(4) using b(4) by simp
    ultimately show ?thesis using os'(2,3,4) by blast
  qed
qed

lemma response_emit_appends:
  assumes "resp_ready ctx os" and "unat count \<le> length tokens"
  shows "\<exists>os'. kllm_response_emit ctx os tokens count = Some (0, os') \<and> resp_ready ctx os' \<and>
     resp_contents (os_dev os') = resp_contents (os_dev os) @
       take (resp_room (os_dev os)) (take (unat count) tokens) \<and>
     resp_room (os_dev os') = resp_room (os_dev os) - unat count"
  using emit_batches_appends[of os "resp_fd ctx" "os_stack os" count tokens 0] assms
  by (auto simp: kllm_response_emit_def resp_ready_def)

lemma response_emit_one_ok:
  "resp_ready ctx os \<Longrightarrow> \<exists>os'. kllm_response_emit_one ctx os x = Some (0, os') \<and> resp_ready ctx os' \<and>
     resp_contents (os_dev os') = resp_contents (os_dev os) @ take (resp_room (os_dev os)) [x] \<and>
     resp_room (os_dev os') = resp_room (os_dev os) - 1"
  using response_emit_appends[of ctx os 1 "[x]"] by (simp add: kllm_response_emit_one_def)

lemma response_eos_ok:
  assumes "resp_ready ctx os"
  shows "\<exists>os'. kllm_response_eos ctx os = Some (0, os') \<and> resp_ready ctx os' \<and>
     resp_contents (os_dev os') = resp_contents (os_dev os) @ take (resp_room (os_dev os)) [EOS_SENTINEL] \<and>
     resp_room (os_dev os') = resp_room (os_dev os) - 1"
proof -
  obtain dev' where "kllm_ioctl (os_dev os) KLLM_IOC_EOS None = Some (0, dev')" "resp_wf dev'"
    "resp_contents dev' = resp_contents (os_dev os) @ take (resp_room (os_dev os)) [EOS_SENTINEL]"
    "resp_room dev' = resp_room (os_dev os) - 1"
    using eos_appends[of "os_dev os" None] assms by (auto simp: resp_ready_def)
  with assms show ?thesis by (simp add: kllm_response_eos_def sys_ioctl_def resp_ready_def)
qed

interpretation resp_stream: response_sink "resp_ready ctx" "\<lambda>os. resp_contents (os_dev os)"
  "\<lambda>os. resp_room (os_dev os)" "kllm_response_emit_one ctx" "kllm_response_eos ctx" for ctx
  by unfold_locales (rule response_emit_one_ok, assumption, rule response_eos_ok)

section \<open>Properties\<close>

text \<open>C7: \<open>kllm_response_emit\<close> on the device's descriptor delivers any number of tokens in order:
  whatever the batching, it returns 0 and appends to the response ring the longest prefix of the
  tokens that fits; the tokens beyond the free space are lost and not reported. On any other
  descriptor a non-empty call returns \<open>-errno\<close> and leaves the device as it was.\<close>

theorem response_emit_correct:
  assumes "unat count \<le> length tokens" and "length (os_stack os) = 256" and "resp_wf (os_dev os)"
  shows "\<exists>r os'. kllm_response_emit ctx os tokens count = Some (r, os') \<and> resp_wf (os_dev os') \<and>
     (r, resp_contents (os_dev os')) =
       (if os_fds os (resp_fd ctx) = FdChardev \<or> count = 0
        then (0, resp_contents (os_dev os) @ take (resp_room (os_dev os)) (take (unat count) tokens))
        else (if os_fds os (resp_fd ctx) = FdClosed then - EBADF else - ENOTTY,
              resp_contents (os_dev os)))"
proof (cases "os_fds os (resp_fd ctx) = FdChardev")
  case True
  then have "resp_ready ctx os" using assms by (simp add: resp_ready_def)
  from response_emit_appends[OF this assms(1)] True show ?thesis by (auto simp: resp_ready_def)
next
  case False
  show ?thesis
  proof (cases "count = 0")
    case True
    with assms show ?thesis by (simp add: kllm_response_emit_def emit_batches.simps)
  next
    case nz: False
    then have lt: "0 < count" by (simp add: word_neq_0_conv)
    note b = emit_batch_bounds[OF lt]
    obtain buf' where "memcpy_words (os_stack os) tokens 0 (unat (emit_batch count 0)) = Some buf'"
      using b assms by (simp add: memcpy_words_def)
    with False nz lt assms show ?thesis
      by (cases "os_fds os (resp_fd ctx)")
        (simp_all add: kllm_response_emit_def emit_batches.simps[of os] sys_ioctl_def EBADF_def ENOTTY_def)
  qed
qed

definition sample_os :: "int \<Rightarrow> os_state" where
  "sample_os fd = \<lparr>os_fds = (\<lambda>n. if n = fd then FdChardev else FdClosed),
     os_stack = replicate 256 0, os_dev = sample_dev\<rparr>"

theorem response_emit_correct_witness:
  "(\<exists>os'. kllm_response_emit \<lparr>resp_fd = 3\<rparr> (sample_os 3) [12, 13] 2 = Some (0, os') \<and>
      resp_contents (os_dev os') = [10, 11, 12]) \<and>
   (\<exists>os'. kllm_response_emit \<lparr>resp_fd = 4\<rparr> (sample_os 3) [12, 13] 2 = Some (- 9, os'))"
  using response_emit_correct[of 2 "[12, 13]" "sample_os 3" "\<lparr>resp_fd = 3\<rparr>"]
    response_emit_correct[of 2 "[12, 13]" "sample_os 3" "\<lparr>resp_fd = 4\<rparr>"] sample_dev_wf
  by (auto simp: sample_os_def sample_dev_contents EBADF_def)

end
