(* ===== verification/Float32.thy ===== *)
theory Float32
  imports Kllm_Prelude
begin

text \<open>
  The single-precision arithmetic of C's \<open>float\<close> (IEEE 754 binary32, round to nearest, ties to
  even), on 32-bit patterns. Every finite value is an integer multiple of \<open>2^-149\<close>;
  \<open>f32_scaled\<close> is that integer, so that sums, products and quotients are computed exactly and
  rounded once. NaN results are the canonical quiet NaN. \<open>bf16\<close> patterns are the upper halves of
  binary32 patterns.
\<close>

type_synonym f32 = u32
type_synonym bf16 = u16

section \<open>Patterns and values\<close>

definition f32_sign :: "f32 \<Rightarrow> bool" where
  "f32_sign w \<longleftrightarrow> 0x80000000 \<le> uint w"

definition f32_mag :: "f32 \<Rightarrow> int" where
  "f32_mag w = uint w mod 0x80000000"

definition f32_make :: "bool \<Rightarrow> int \<Rightarrow> f32" where
  "f32_make s m = word_of_int (m + (if s then 0x80000000 else 0))"

definition f32_nan :: f32 where "f32_nan = 0x7FC00000"
definition f32_inf :: "bool \<Rightarrow> f32" where "f32_inf s = f32_make s 0x7F800000"

definition f32_is_nan :: "f32 \<Rightarrow> bool" where "f32_is_nan w \<longleftrightarrow> 0x7F800000 < f32_mag w"
definition f32_is_inf :: "f32 \<Rightarrow> bool" where "f32_is_inf w \<longleftrightarrow> f32_mag w = 0x7F800000"
definition f32_finite :: "f32 \<Rightarrow> bool" where "f32_finite w \<longleftrightarrow> f32_mag w < 0x7F800000"

definition f32_scaled_mag :: "f32 \<Rightarrow> int" where
  "f32_scaled_mag w =
    (let e = f32_mag w div 0x800000; m = f32_mag w mod 0x800000
     in if e = 0 then m else (m + 0x800000) * 2 ^ nat (e - 1))"

definition f32_scaled :: "f32 \<Rightarrow> int" where
  "f32_scaled w = (if f32_sign w then - f32_scaled_mag w else f32_scaled_mag w)"

section \<open>Comparison\<close>

text \<open>Patterns of equal sign are ordered like their magnitudes, and both zeros are equal.\<close>

definition f32_key :: "f32 \<Rightarrow> int" where
  "f32_key w = (if f32_sign w then - f32_mag w else f32_mag w)"

definition f32_gt :: "f32 \<Rightarrow> f32 \<Rightarrow> bool" where
  "f32_gt a b \<longleftrightarrow> \<not> f32_is_nan a \<and> \<not> f32_is_nan b \<and> f32_key b < f32_key a"

definition f32_le :: "f32 \<Rightarrow> f32 \<Rightarrow> bool" where
  "f32_le a b \<longleftrightarrow> \<not> f32_is_nan a \<and> \<not> f32_is_nan b \<and> f32_key a \<le> f32_key b"

section \<open>Rounding\<close>

function bit_length :: "int \<Rightarrow> nat" where
  "bit_length n = (if n \<le> 0 then 0 else Suc (bit_length (n div 2)))"
  by pat_completeness auto
termination by (relation "measure nat") (auto simp: nat_less_iff)

declare bit_length.simps [simp del]

definition round_ne :: "int \<Rightarrow> int \<Rightarrow> int" where
  "round_ne p q = (let d = p div q; r = p mod q
     in if q < 2 * r \<or> (2 * r = q \<and> odd d) then d + 1 else d)"

text \<open>The pattern nearest to \<open>p / q\<close> in units of \<open>2^-149\<close>. A significand that rounds up to the
  next power of two carries into the exponent field; what exceeds the largest finite value is an
  infinity.\<close>

definition f32_round :: "bool \<Rightarrow> int \<Rightarrow> int \<Rightarrow> f32" where
  "f32_round s p q =
    (let k = bit_length (p div q) - 24
     in f32_make s (min (int k * 0x800000 + round_ne p (q * 2 ^ k)) 0x7F800000))"

section \<open>Arithmetic\<close>

definition f32_neg :: "f32 \<Rightarrow> f32" where
  "f32_neg w = w + 0x80000000"

definition f32_add :: "f32 \<Rightarrow> f32 \<Rightarrow> f32" where
  "f32_add a b =
    (if f32_is_nan a \<or> f32_is_nan b then f32_nan
     else if f32_is_inf a \<and> f32_is_inf b then (if f32_sign a = f32_sign b then a else f32_nan)
     else if f32_is_inf a then a
     else if f32_is_inf b then b
     else let n = f32_scaled a + f32_scaled b
          in if n = 0 then f32_make (f32_sign a \<and> f32_sign b) 0 else f32_round (n < 0) \<bar>n\<bar> 1)"

definition f32_sub :: "f32 \<Rightarrow> f32 \<Rightarrow> f32" where
  "f32_sub a b = f32_add a (f32_neg b)"

definition f32_mul :: "f32 \<Rightarrow> f32 \<Rightarrow> f32" where
  "f32_mul a b =
    (let s = (f32_sign a \<noteq> f32_sign b)
     in if f32_is_nan a \<or> f32_is_nan b then f32_nan
        else if f32_is_inf a \<or> f32_is_inf b
             then (if f32_mag a = 0 \<or> f32_mag b = 0 then f32_nan else f32_inf s)
        else f32_round s (f32_scaled_mag a * f32_scaled_mag b) (2 ^ 149))"

definition f32_div :: "f32 \<Rightarrow> f32 \<Rightarrow> f32" where
  "f32_div a b =
    (let s = (f32_sign a \<noteq> f32_sign b)
     in if f32_is_nan a \<or> f32_is_nan b then f32_nan
        else if f32_is_inf a then (if f32_is_inf b then f32_nan else f32_inf s)
        else if f32_is_inf b then f32_make s 0
        else if f32_mag b = 0 then (if f32_mag a = 0 then f32_nan else f32_inf s)
        else f32_round s (f32_scaled_mag a * 2 ^ 149) (f32_scaled_mag b))"

text \<open>Conversion of an unsigned integer.\<close>

definition f32_of_uint :: "int \<Rightarrow> f32" where
  "f32_of_uint n = f32_round False (n * 2 ^ 149) 1"

section \<open>Magnitudes and signs\<close>

lemma f32_mag_bounds [simp]: "0 \<le> f32_mag w" "f32_mag w < 0x80000000"
  by (simp_all add: f32_mag_def)

lemma uint_f32: "uint (w::f32) < 0x100000000"
  using uint_bounded[of w] by simp

lemma uint_f32_make: "0 \<le> m \<Longrightarrow> m < 0x80000000 \<Longrightarrow>
    uint (f32_make s m) = m + (if s then 0x80000000 else 0)"
  unfolding f32_make_def uint_word_of_int by simp

lemma f32_make_parts [simp]:
  assumes "0 \<le> m" "m < 0x80000000"
  shows "f32_mag (f32_make s m) = m" "f32_sign (f32_make s m) = s"
  using assms by (simp_all add: f32_mag_def f32_sign_def uint_f32_make)

lemma mod_upper_half:
  fixes m x :: int
  assumes "m \<le> x" and "x < 2 * m"
  shows "x mod m = x - m"
proof -
  have "x mod m = (x - m) mod m" by simp
  also have "\<dots> = x - m" using assms by (intro mod_pos_pos_trivial) simp_all
  finally show ?thesis .
qed

lemma f32_mag_cases:
  "f32_mag w = (if f32_sign w then uint w - 0x80000000 else uint w)"
proof (cases "f32_sign w")
  case True
  then have "uint w mod 0x80000000 = uint w - 0x80000000"
    using uint_f32 by (intro mod_upper_half) (simp_all add: f32_sign_def)
  with True show ?thesis by (simp only: f32_mag_def if_True)
next
  case False
  then show ?thesis by (simp add: f32_mag_def f32_sign_def)
qed

lemma f32_make_mag [simp]: "f32_make (f32_sign w) (f32_mag w) = w"
proof -
  have "f32_mag w + (if f32_sign w then 0x80000000 else 0) = uint w" by (simp add: f32_mag_cases)
  then show ?thesis by (simp only: f32_make_def word_of_int_uint)
qed

lemma f32_eqI:
  assumes "f32_sign a = f32_sign b" and "f32_mag a = f32_mag b"
  shows "a = b"
  using f32_make_mag[of a] f32_make_mag[of b] unfolding assms by (simp only:)

lemma f32_neg_make: "f32_neg w = f32_make (\<not> f32_sign w) (f32_mag w)"
proof -
  have "f32_neg w = word_of_int (uint w + 0x80000000)" by (simp add: f32_neg_def)
  moreover have "uint w + 0x80000000 = f32_mag w + (if f32_sign w then 0x100000000 else 0x80000000)"
    by (simp add: f32_mag_cases)
  moreover have "word_of_int (f32_mag w + 0x100000000) = (word_of_int (f32_mag w + 0) :: f32)"
    by (rule word_uint_eqI) (simp only: uint_word_of_int; simp)
  ultimately show ?thesis unfolding f32_make_def by (cases "f32_sign w") (simp_all only: if_True if_False simp_thms)
qed

lemma f32_neg_parts [simp]: "f32_mag (f32_neg w) = f32_mag w" "f32_sign (f32_neg w) = (\<not> f32_sign w)"
  by (simp_all add: f32_neg_make)

lemma f32_scaled_mag_nonneg [simp]: "0 \<le> f32_scaled_mag w"
  by (simp add: f32_scaled_mag_def Let_def)

section \<open>Rounding is exact on representable values\<close>

lemma bit_length_unique:
  "2 ^ b \<le> n \<Longrightarrow> n < 2 ^ Suc b \<Longrightarrow> bit_length n = Suc b"
proof (induction b arbitrary: n)
  case 0
  then have "n = 1" by simp
  then show ?case by (simp add: bit_length.simps)
next
  case (Suc b)
  then have "2 ^ b \<le> n div 2" "n div 2 < 2 ^ Suc b" by simp_all
  moreover have "0 < n" using Suc.prems(1) zero_less_power[of "2::int" "Suc b"] by linarith
  ultimately show ?case using Suc.IH by (subst bit_length.simps) simp
qed

lemma bit_length_le: "0 \<le> n \<Longrightarrow> n < 2 ^ b \<Longrightarrow> bit_length n \<le> b"
proof (induction b arbitrary: n)
  case 0
  then show ?case by (simp add: bit_length.simps)
next
  case (Suc b)
  then have "n div 2 < 2 ^ b" "0 \<le> n div 2" by simp_all
  from Suc.IH[OF this(2,1)] show ?case by (subst bit_length.simps) simp
qed

lemma round_ne_exact: "0 < q \<Longrightarrow> round_ne (d * q) q = d"
  by (simp add: round_ne_def)

lemma round_ne_scale: "0 < x \<Longrightarrow> 0 < q \<Longrightarrow> round_ne (p * x) (q * x) = round_ne p q"
proof -
  assume x: "0 < x" and q: "0 < q"
  have "p * x mod (q * x) = (p mod q) * x" using x by (simp add: mult_mod_left)
  moreover have "(q * x < 2 * (p mod q * x)) = (q < 2 * (p mod q))"
    using x by (metis mult.assoc mult_less_cancel_right_pos)
  moreover have "(2 * (p mod q * x) = q * x) = (2 * (p mod q) = q)"
    using x by (metis mult.assoc mult_cancel_right less_irrefl)
  ultimately show ?thesis using x by (simp add: round_ne_def Let_def)
qed

lemma f32_round_scale: "0 < x \<Longrightarrow> 0 < q \<Longrightarrow> f32_round s (p * x) (q * x) = f32_round s p q"
proof -
  assume x: "0 < x" and q: "0 < q"
  have "round_ne (p * x) (q * x * 2 ^ k) = round_ne p (q * 2 ^ k)" for k :: nat
    using round_ne_scale[OF x, of "q * 2 ^ k" p] q by (simp add: ac_simps)
  then show ?thesis using x by (simp add: f32_round_def)
qed

lemma f32_mag_split:
  obtains e m where "f32_mag w = e * 0x800000 + m" "0 \<le> e" "0 \<le> m" "m < 0x800000"
    "f32_scaled_mag w = (if e = 0 then m else (m + 0x800000) * 2 ^ nat (e - 1))"
proof
  show "f32_mag w = f32_mag w div 0x800000 * 0x800000 + f32_mag w mod 0x800000" by simp
  show "0 \<le> f32_mag w div 0x800000" by (simp add: pos_imp_zdiv_nonneg_iff)
qed (simp_all add: f32_scaled_mag_def Let_def)

lemma f32_round_denormal: "0 \<le> m \<Longrightarrow> m < 0x800000 \<Longrightarrow> f32_round s m 1 = f32_make s m"
proof -
  assume m: "0 \<le> m" "m < 0x800000"
  then have "bit_length m \<le> 24" by (intro bit_length_le) simp_all
  then have "bit_length (m div 1) - 24 = 0" by simp
  moreover have "round_ne m 1 = m" by (simp add: round_ne_def)
  ultimately show ?thesis using m by (simp add: f32_round_def min_def)
qed

lemma f32_round_normal:
  assumes "0 \<le> m" "m < 0x800000"
  shows "f32_round s ((m + 0x800000) * 2 ^ k) 1 =
    f32_make s (min (int k * 0x800000 + (m + 0x800000)) 0x7F800000)"
proof -
  have "2 ^ (23 + k) \<le> (m + 0x800000) * 2 ^ k" using assms by (simp add: power_add)
  moreover have "(m + 0x800000) * 2 ^ k < 2 ^ Suc (23 + k)" using assms by (simp add: power_add)
  ultimately have "bit_length ((m + 0x800000) * 2 ^ k) = Suc (23 + k)" by (rule bit_length_unique)
  then have "bit_length ((m + 0x800000) * 2 ^ k div 1) - 24 = k" by simp
  moreover have "round_ne ((m + 0x800000) * 2 ^ k) (1 * 2 ^ k) = m + 0x800000"
    using round_ne_exact[of "2 ^ k" "m + 0x800000"] by simp
  ultimately show ?thesis unfolding f32_round_def Let_def by (simp only:)
qed

lemma f32_round_exact:
  assumes "f32_finite w"
  shows "f32_round s (f32_scaled_mag w) 1 = f32_make s (f32_mag w)"
proof -
  obtain e m where em: "f32_mag w = e * 0x800000 + m" "0 \<le> e" "0 \<le> m" "m < 0x800000"
    "f32_scaled_mag w = (if e = 0 then m else (m + 0x800000) * 2 ^ nat (e - 1))"
    by (rule f32_mag_split)
  show ?thesis
  proof (cases "e = 0")
    case True
    then show ?thesis using em f32_round_denormal by simp
  next
    case False
    then have "int (nat (e - 1)) * 0x800000 + (m + 0x800000) = f32_mag w" using em by simp
    then show ?thesis
      using f32_round_normal[OF em(3,4), of s "nat (e - 1)"] assms False em(5)
      by (simp only: f32_finite_def min_def less_imp_le if_False if_True)
  qed
qed

lemma f32_round_exact_frac:
  assumes "f32_finite w" and "0 < q"
  shows "f32_round s (f32_scaled_mag w * q) q = f32_make s (f32_mag w)"
  using f32_round_scale[of q 1 s "f32_scaled_mag w"] assms by (simp add: f32_round_exact)

lemma f32_mul_finite:
  assumes "f32_finite a" "f32_finite b"
  shows "f32_mul a b = f32_round (f32_sign a \<noteq> f32_sign b) (f32_scaled_mag a * f32_scaled_mag b) (2 ^ 149)"
  using assms by (simp add: f32_mul_def f32_is_nan_def f32_is_inf_def f32_finite_def)

section \<open>Short significands\<close>

text \<open>A number with at most 24 significant bits below the overflow limit is rounded to itself.\<close>

lemma f32_scaled_mag_make:
  assumes "0 \<le> e" "0 \<le> m" "m < 0x800000" "e < 255"
  shows "f32_scaled_mag (f32_make s (e * 0x800000 + m)) = (if e = 0 then m else (m + 0x800000) * 2 ^ nat (e - 1))"
    and "f32_finite (f32_make s (e * 0x800000 + m))"
proof -
  have b: "0 \<le> e * 0x800000 + m" "e * 0x800000 + m < 0x7F800000" using assms by simp_all
  then have "f32_mag (f32_make s (e * 0x800000 + m)) = e * 0x800000 + m" by simp
  moreover have "(e * 0x800000 + m) div 0x800000 = e" "(e * 0x800000 + m) mod 0x800000 = m"
    using assms by simp_all
  ultimately show "f32_scaled_mag (f32_make s (e * 0x800000 + m)) =
      (if e = 0 then m else (m + 0x800000) * 2 ^ nat (e - 1))"
    unfolding f32_scaled_mag_def Let_def by (simp only:)
  show "f32_finite (f32_make s (e * 0x800000 + m))" using b by (simp add: f32_finite_def)
qed

lemma f32_sign_make: "0 \<le> m \<Longrightarrow> m \<le> 0x7F800000 \<Longrightarrow> f32_sign (f32_make s m) = s"
  by simp

lemma short_normal_form:
  fixes n :: int
  assumes "0 < n" "n < 2 ^ 24" "0x800000 \<le> n * 2 ^ j"
  obtains m :: int and k where "0 \<le> m" "m < 0x800000" "n * 2 ^ j = (m + 0x800000) * 2 ^ k"
proof -
  have "1 \<le> nat n" using assms(1) by linarith
  then obtain b where "2 ^ b \<le> nat n" "nat n < 2 ^ Suc b"
    using ex_power_ivl1[of 2 "nat n"] unfolding Suc_eq_plus1 by blast
  then have b: "2 ^ b \<le> n" "n < 2 ^ Suc b"
    using assms(1) by (simp_all add: le_nat_iff nat_less_iff)
  have b23: "b \<le> 23"
  proof (rule ccontr)
    assume "\<not> b \<le> 23"
    then have "(2::int) ^ 24 \<le> 2 ^ b" by (intro power_increasing) simp_all
    with b(1) assms(2) show False by simp
  qed
  have jb: "23 \<le> b + j"
  proof (rule ccontr)
    assume "\<not> 23 \<le> b + j"
    then have "Suc b + j \<le> 23" by simp
    then have "(2::int) ^ (Suc b + j) \<le> 2 ^ 23" by (intro power_increasing) simp_all
    moreover have "n * 2 ^ j < 2 ^ Suc b * 2 ^ j"
      using b(2) by (intro mult_strict_right_mono) simp_all
    ultimately have "n * 2 ^ j < 2 ^ 23" unfolding power_add by (rule less_le_trans[rotated])
    with assms(3) show False by simp
  qed
  define k where "k = b + j - 23"
  define m where "m = n * 2 ^ (23 - b) - 0x800000"
  have p: "2 ^ b * 2 ^ (23 - b) = (2::int) ^ 23" "2 ^ Suc b * 2 ^ (23 - b) = (2::int) ^ 24"
    using b23 by (simp_all flip: power_add power_Suc)
  have "2 ^ b * 2 ^ (23 - b) \<le> n * 2 ^ (23 - b)" "n * 2 ^ (23 - b) < 2 ^ Suc b * 2 ^ (23 - b)"
    using b by (simp, intro mult_strict_right_mono) simp_all
  then have "0 \<le> m" "m < 0x800000" unfolding m_def p by simp_all
  moreover have "n * 2 ^ j = (m + 0x800000) * 2 ^ k"
  proof -
    have "23 - b + k = j" using b23 jb by (simp add: k_def)
    then have "n * 2 ^ (23 - b) * 2 ^ k = n * 2 ^ j" by (simp flip: power_add)
    then show ?thesis unfolding m_def by (simp only: diff_add_cancel)
  qed
  ultimately show thesis by (rule that)
qed

lemma f32_round_short:
  assumes "0 \<le> n" "n < 2 ^ 24" "n * 2 ^ j < 2 ^ 277" "0 < q"
  shows "f32_scaled_mag (f32_round s (n * 2 ^ j * q) q) = n * 2 ^ j"
    and "f32_finite (f32_round s (n * 2 ^ j * q) q)"
    and "f32_sign (f32_round s (n * 2 ^ j * q) q) = s"
proof -
  have r: "f32_round s (n * 2 ^ j * q) q = f32_round s (n * 2 ^ j) 1"
    using f32_round_scale[OF assms(4), of 1 s "n * 2 ^ j"] by simp
  have "f32_scaled_mag (f32_round s (n * 2 ^ j * q) q) = n * 2 ^ j \<and>
    f32_finite (f32_round s (n * 2 ^ j * q) q) \<and> f32_sign (f32_round s (n * 2 ^ j * q) q) = s"
  proof (cases "n * 2 ^ j < 0x800000")
    case True
    then have "f32_round s (n * 2 ^ j) 1 = f32_make s (0 * 0x800000 + n * 2 ^ j)"
      using f32_round_denormal[of "n * 2 ^ j" s] assms(1) by simp
    with True assms(1) r show ?thesis
      using f32_scaled_mag_make[of 0 "n * 2 ^ j" s] by simp
  next
    case False
    then have "0 < n" using assms(1) by (cases "n = 0") simp_all
    with False assms(2) obtain m k where mk: "0 \<le> m" "m < 0x800000" "n * 2 ^ j = (m + 0x800000) * 2 ^ k"
      by (metis short_normal_form not_less)
    have "k < 254"
    proof (rule ccontr)
      assume "\<not> k < 254"
      then have "(2::int) ^ 254 \<le> 2 ^ k" by (intro power_increasing) simp_all
      then have "0x800000 * 2 ^ 254 \<le> (m + 0x800000) * 2 ^ k" using mk(1) by (intro mult_mono) simp_all
      with mk(3) assms(3) show False by simp
    qed
    then have "int k * 0x800000 + (m + 0x800000) < 0x7F800000" using mk(2) by simp
    then have "f32_round s (n * 2 ^ j) 1 = f32_make s ((int k + 1) * 0x800000 + m)"
      using f32_round_normal[OF mk(1,2), of s k] mk(3) by (simp add: min_def algebra_simps)
    then show ?thesis
      using f32_scaled_mag_make[of "int k + 1" m s] f32_sign_make[of "(int k + 1) * 0x800000 + m" s]
        mk \<open>k < 254\<close> r by simp
  qed
  then show "f32_scaled_mag (f32_round s (n * 2 ^ j * q) q) = n * 2 ^ j"
    "f32_finite (f32_round s (n * 2 ^ j * q) q)" "f32_sign (f32_round s (n * 2 ^ j * q) q) = s" by blast+
qed

section \<open>Exact operations\<close>

text \<open>\<open>f32_is w s v\<close>: the pattern \<open>w\<close> is finite, has sign \<open>s\<close> and magnitude \<open>v\<close> (in units of
  \<open>2^-149\<close>).\<close>

definition f32_is :: "f32 \<Rightarrow> bool \<Rightarrow> int \<Rightarrow> bool" where
  "f32_is w s v \<longleftrightarrow> f32_finite w \<and> f32_sign w = s \<and> f32_scaled_mag w = v"

lemma f32_is_round:
  "\<lbrakk>p = n * 2 ^ j * q; 0 \<le> n; n < 2 ^ 24; n * 2 ^ j < 2 ^ 277; 0 < q\<rbrakk> \<Longrightarrow> f32_is (f32_round s p q) s (n * 2 ^ j)"
  by (simp add: f32_is_def f32_round_short)

lemma f32_is_of_uint: "0 \<le> n \<Longrightarrow> n < 2 ^ 24 \<Longrightarrow> f32_is (f32_of_uint n) False (n * 2 ^ 149)"
  unfolding f32_of_uint_def by (rule f32_is_round) simp_all

lemma f32_isD:
  assumes "f32_is w s v"
  shows "\<not> f32_is_nan w" "\<not> f32_is_inf w" "f32_sign w = s" "f32_scaled_mag w = v"
  using assms by (simp_all add: f32_is_def f32_finite_def f32_is_nan_def f32_is_inf_def)

lemma f32_scaled_mag_zero: "f32_mag w = 0 \<Longrightarrow> f32_scaled_mag w = 0"
  by (simp add: f32_scaled_mag_def)

lemma f32_is_mul:
  assumes "f32_is a sa va" "f32_is b sb vb" and "va * vb = n * 2 ^ j * 2 ^ 149"
    and "0 \<le> n" "n < 2 ^ 24" "n * 2 ^ j < 2 ^ 277"
  shows "f32_is (f32_mul a b) (sa \<noteq> sb) (n * 2 ^ j)"
  using f32_is_round[OF assms(3-6), of "sa \<noteq> sb"] f32_isD[OF assms(1)] f32_isD[OF assms(2)]
  by (simp add: f32_mul_def)

lemma f32_is_div:
  assumes "f32_is a sa va" "f32_is b sb vb" and "va * 2 ^ 149 = n * 2 ^ j * vb" "0 < vb"
    and "0 \<le> n" "n < 2 ^ 24" "n * 2 ^ j < 2 ^ 277"
  shows "f32_is (f32_div a b) (sa \<noteq> sb) (n * 2 ^ j)"
proof -
  have "f32_mag b \<noteq> 0" using f32_isD(4)[OF assms(2)] assms(4) f32_scaled_mag_zero[of b] by auto
  then show ?thesis
    using f32_is_round[OF assms(3,5-7,4), of "sa \<noteq> sb"] f32_isD[OF assms(1)] f32_isD[OF assms(2)]
    by (simp add: f32_div_def)
qed

lemma f32_is_add:
  assumes "f32_is a False va" "f32_is b False vb" and "va + vb = n * 2 ^ j" "0 < va + vb"
    and "0 \<le> n" "n < 2 ^ 24" "n * 2 ^ j < 2 ^ 277"
  shows "f32_is (f32_add a b) False (n * 2 ^ j)"
proof -
  have "f32_scaled a + f32_scaled b = va + vb"
    using f32_isD[OF assms(1)] f32_isD[OF assms(2)] by (simp add: f32_scaled_def)
  moreover have "f32_is (f32_round False (va + vb) 1) False (n * 2 ^ j)"
    using assms(3,5-7) by (intro f32_is_round) simp_all
  ultimately show ?thesis
    using f32_isD[OF assms(1)] f32_isD[OF assms(2)] assms(4) by (simp add: f32_add_def Let_def)
qed

lemma f32_is_neg: "f32_is w s v \<Longrightarrow> f32_is (f32_neg w) (\<not> s) v"
  by (simp add: f32_is_def f32_finite_def f32_scaled_mag_def)

lemma f32_is_make:
  "\<lbrakk>0 \<le> e; 0 \<le> m; m < 0x800000; e < 255\<rbrakk> \<Longrightarrow>
    f32_is (f32_make s (e * 0x800000 + m)) s (if e = 0 then m else (m + 0x800000) * 2 ^ nat (e - 1))"
  by (simp only: f32_is_def f32_scaled_mag_make simp_thms) simp

end
