(* ===== verification/Mx.thy ===== *)
theory Mx
  imports Float32
begin

text \<open>
  The BF16 conversions (\<open>userspace/compute/ace_attention.c\<close>) and the microscaling helpers of
  \<open>userspace/compute/mx_dequant.h\<close>: FP8 E4M3 scale factors, one per eight elements, the
  dequantisation loop, the fused dot product and the quantiser. Arrays are lists and every access
  is checked; \<open>None\<close> is an access outside an array, a shift by a negative count, which C leaves
  undefined, or (for the quantiser) a loop that does not end because its 32-bit counter wraps.
\<close>

section \<open>BF16\<close>

definition bf16_to_f32 :: "bf16 \<Rightarrow> f32" where
  "bf16_to_f32 val = push_bit 16 (ucast val)"

definition f32_to_bf16 :: "f32 \<Rightarrow> bf16" where
  "f32_to_bf16 val =
    (let bits = val + (0x7FFF + (drop_bit 16 val AND 1)) in ucast (drop_bit 16 bits))"

section \<open>FP8 scale factors\<close>

definition MX_BLOCK_SIZE :: nat where "MX_BLOCK_SIZE = 8"

text \<open>The literals \<open>1.0f\<close>, \<open>8.0f\<close>, \<open>448.0f\<close>.\<close>

definition f32_one :: f32 where "f32_one = 0x3F800000"
definition f32_eight :: f32 where "f32_eight = 0x41000000"
definition f32_448 :: f32 where "f32_448 = 0x43E00000"

text \<open>The C expression \<open>1 << n\<close> on \<open>int\<close>, undefined for a negative count and for a result that does
  not fit.\<close>

definition shift_one :: "int \<Rightarrow> int option" where
  "shift_one n = (if 0 \<le> n \<and> n < 31 then Some (2 ^ nat n) else None)"

text \<open>The power of two of a scale factor. For a normal number \<open>1 << (exp - 7 + 127 - 127)\<close> is evaluated
  first; its value is overwritten, but its shift is undefined for the exponents 1 to 6.\<close>

definition fp8_fexp :: "int \<Rightarrow> f32 option" where
  "fp8_fexp exp =
    (if exp = 0 then do { s \<leftarrow> shift_one 6; Some (f32_div f32_one (f32_of_uint s)) }
     else do {
       _ \<leftarrow> shift_one (exp - 7 + 127 - 127);
       let real_exp = exp - 7
       in if real_exp \<ge> 0 then do { s \<leftarrow> shift_one real_exp; Some (f32_of_uint s) }
          else do { s \<leftarrow> shift_one (- real_exp); Some (f32_div f32_one (f32_of_uint s)) } })"

definition fp8_fmant :: "int \<Rightarrow> int \<Rightarrow> f32" where
  "fp8_fmant exp mant =
    (if exp = 0 then f32_div (f32_of_uint mant) f32_eight
     else f32_add f32_one (f32_div (f32_of_uint mant) f32_eight))"

definition fp8_e4m3_to_f32 :: "u8 \<Rightarrow> f32 option" where
  "fp8_e4m3_to_f32 val =
    (let sign = drop_bit 7 val AND 1;
         exp = uint (drop_bit 3 val AND 0xF);
         mant = uint (val AND 0x7)
     in if exp = 0 \<and> mant = 0 then Some (if sign \<noteq> 0 then 0x80000000 else 0)
        else do {
          fexp \<leftarrow> fp8_fexp exp;
          let result = f32_mul fexp (fp8_fmant exp mant)
          in Some (if sign \<noteq> 0 then f32_neg result else result) })"

section \<open>Dequantisation\<close>

fun mx_dequant_loop :: "bf16 list \<Rightarrow> u8 list \<Rightarrow> f32 list \<Rightarrow> nat list \<Rightarrow> f32 list option" where
  "mx_dequant_loop data scales out [] = Some out"
| "mx_dequant_loop data scales out (i # is) = do {
     d \<leftarrow> arr_get data i;
     c \<leftarrow> arr_get scales (i div MX_BLOCK_SIZE);
     scale \<leftarrow> fp8_e4m3_to_f32 c;
     out' \<leftarrow> arr_set out i (f32_mul (bf16_to_f32 d) scale);
     mx_dequant_loop data scales out' is }"

definition mx_dequant_bf16 :: "bf16 list \<Rightarrow> u8 list \<Rightarrow> f32 list \<Rightarrow> u32 \<Rightarrow> f32 list option" where
  "mx_dequant_bf16 data scales out count = mx_dequant_loop data scales out [0..<unat count]"

fun mx_dot_loop :: "bf16 list \<Rightarrow> bf16 list \<Rightarrow> u8 list \<Rightarrow> f32 \<Rightarrow> nat list \<Rightarrow> f32 option" where
  "mx_dot_loop a b scales acc [] = Some acc"
| "mx_dot_loop a b scales acc (i # is) = do {
     da \<leftarrow> arr_get a i;
     db \<leftarrow> arr_get b i;
     c \<leftarrow> arr_get scales (i div MX_BLOCK_SIZE);
     scale \<leftarrow> fp8_e4m3_to_f32 c;
     mx_dot_loop a b scales
       (f32_add acc (f32_mul (bf16_to_f32 da) (f32_mul (bf16_to_f32 db) scale))) is }"

definition mx_dot_product :: "bf16 list \<Rightarrow> bf16 list \<Rightarrow> u8 list \<Rightarrow> u32 \<Rightarrow> f32 option" where
  "mx_dot_product a b scales dim = mx_dot_loop a b scales 0 [0..<unat dim]"

section \<open>Quantisation\<close>

fun mx_amax :: "f32 list \<Rightarrow> f32 \<Rightarrow> nat list \<Rightarrow> f32 option" where
  "mx_amax input amax [] = Some amax"
| "mx_amax input amax (i # is) = do {
     x \<leftarrow> arr_get input i;
     let av = (if f32_gt 0 x then f32_neg x else x)
     in mx_amax input (if f32_gt av amax then av else amax) is }"

fun mx_quant_block :: "f32 list \<Rightarrow> f32 \<Rightarrow> bf16 list \<Rightarrow> nat list \<Rightarrow> bf16 list option" where
  "mx_quant_block input inv_scale data [] = Some data"
| "mx_quant_block input inv_scale data (i # is) = do {
     x \<leftarrow> arr_get input i;
     data' \<leftarrow> arr_set data i (f32_to_bf16 (f32_mul x inv_scale));
     mx_quant_block input inv_scale data' is }"

definition mx_quant_step :: "f32 list \<Rightarrow> bf16 list \<Rightarrow> u8 list \<Rightarrow> u32 \<Rightarrow> u32 \<Rightarrow> (bf16 list \<times> u8 list) option" where
  "mx_quant_step input data scales count blk =
    (let blk_end = (if blk + 8 > count then count else blk + 8) in do {
       amax \<leftarrow> mx_amax input 0 [unat blk..<unat blk_end];
       let scale = (if f32_gt amax 0 then f32_div amax f32_448 else f32_one);
           inv_scale = f32_div f32_one scale
       in do {
         scales' \<leftarrow> arr_set scales (unat (blk div 8)) (if f32_gt amax 0 then 64 else 0);
         data' \<leftarrow> mx_quant_block input inv_scale data [unat blk..<unat blk_end];
         Some (data', scales') } })"

partial_function (option) mx_quant_loop ::
    "f32 list \<Rightarrow> bf16 list \<Rightarrow> u8 list \<Rightarrow> u32 \<Rightarrow> u32 \<Rightarrow> (bf16 list \<times> u8 list) option" where
  "mx_quant_loop input data scales count blk =
    (if blk < count then do {
       (data', scales') \<leftarrow> mx_quant_step input data scales count blk;
       mx_quant_loop input data' scales' count (blk + 8) }
     else Some (data, scales))"

definition mx_quant_to_bf16 :: "f32 list \<Rightarrow> bf16 list \<Rightarrow> u8 list \<Rightarrow> u32 \<Rightarrow> (bf16 list \<times> u8 list) option" where
  "mx_quant_to_bf16 input data scales count = mx_quant_loop input data scales count 0"

section \<open>Values of the formats\<close>

text \<open>What the patterns mean: a BF16 value is a multiple of \<open>2^-133\<close>, an FP8 E4M3 value a multiple
  of \<open>2^-9\<close>.\<close>

definition bf16_units :: "bf16 \<Rightarrow> int" where
  "bf16_units d = (let e = uint d div 128 mod 256; m = uint d mod 128
     in if e = 0 then m else (m + 128) * 2 ^ nat (e - 1))"

definition fp8_units :: "u8 \<Rightarrow> int" where
  "fp8_units c = (let e = uint c div 8 mod 16; m = uint c mod 8
     in if e = 0 then m else (m + 8) * 2 ^ nat (e - 1))"

text \<open>The codes whose conversion is defined: zero, the subnormal codes and the exponents from 7 on.\<close>

definition fp8_defined :: "u8 \<Rightarrow> bool" where
  "fp8_defined c \<longleftrightarrow> uint c div 8 mod 16 = 0 \<or> 7 \<le> uint c div 8 mod 16"

definition bf16_sign :: "bf16 \<Rightarrow> bool" where "bf16_sign d \<longleftrightarrow> 0x8000 \<le> uint d"
definition fp8_sign :: "u8 \<Rightarrow> bool" where "fp8_sign c \<longleftrightarrow> 128 \<le> uint c"
definition bf16_finite :: "bf16 \<Rightarrow> bool" where "bf16_finite d \<longleftrightarrow> uint d mod 0x8000 < 0x7F80"

section \<open>Reading the fields\<close>

lemma uint_field: "uint (drop_bit n (c::'a::len word) AND mask k) = uint c div 2 ^ n mod 2 ^ k"
proof -
  have "uint (drop_bit n c AND mask k) = take_bit k (drop_bit n (uint c))"
    by (rule bit_eqI) (auto simp: bit_simps dest: bit_imp_le_length)
  then show ?thesis by (simp only: take_bit_eq_mod drop_bit_eq_div)
qed

lemma fp8_fields:
  "uint (drop_bit 3 (c::u8) AND 0xF) = uint c div 8 mod 16"
  "uint ((c::u8) AND 0x7) = uint c mod 8"
  "(drop_bit 7 (c::u8) AND 1 \<noteq> 0) = fp8_sign c"
proof -
  have m: "(0xF::u8) = mask 4" "(0x7::u8) = mask 3" "(1::u8) = mask 1"
    by (simp_all add: mask_eq_exp_minus_1)
  show "uint (drop_bit 3 c AND 0xF) = uint c div 8 mod 16" unfolding m uint_field by simp
  show "uint (c AND 0x7) = uint c mod 8" unfolding m using uint_field[of 0 c 3] by simp
  have "uint (drop_bit 7 c AND 1) = uint c div 128 mod 2" unfolding m(3) uint_field by simp
  moreover have "uint c div 128 = (if 128 \<le> uint c then 1 else 0)"
    using uint_bounded[of c] int_div_pos_eq[of "uint c" 128 1 "uint c - 128"] by simp
  moreover have "(drop_bit 7 c AND 1 \<noteq> 0) = (uint (drop_bit 7 c AND 1) \<noteq> 0)"
    by (simp only: uint_0_iff)
  ultimately show "(drop_bit 7 c AND 1 \<noteq> 0) = fp8_sign c"
    by (cases "128 \<le> uint c") (simp_all only: fp8_sign_def if_True if_False, simp_all)
qed

lemma uint_bf16_to_f32: "uint (bf16_to_f32 d) = uint d * 0x10000"
proof -
  have "uint d < 0x10000" using uint_bounded[of d] by simp
  then show ?thesis
    by (simp add: bf16_to_f32_def push_bit_eq_mult uint_word_ariths unsigned_ucast_eq take_bit_eq_mod)
qed


section \<open>Scale factors and BF16 values are exact\<close>

lemma f32_is_one: "f32_is f32_one False (2 ^ 149)"
  using f32_is_make[of 127 0 False] by (simp add: f32_one_def f32_make_def)

lemma f32_is_eight: "f32_is f32_eight False (2 ^ 152)"
  using f32_is_make[of 130 0 False] by (simp add: f32_eight_def f32_make_def)

lemma fp8_eighths:
  assumes "0 \<le> m" "m < 8"
  shows "f32_is (f32_div (f32_of_uint m) f32_eight) False (m * 2 ^ 146)"
  using f32_is_div[OF f32_is_of_uint f32_is_eight, of m m 146] assms by simp

lemma fp8_fmant_is:
  assumes "0 \<le> m" "m < 8"
  shows "f32_is (fp8_fmant e m) False ((if e = 0 then m else m + 8) * 2 ^ 146)"
  using fp8_eighths[OF assms] f32_is_add[OF f32_is_one fp8_eighths[OF assms], of "m + 8" 146] assms
  by (simp add: fp8_fmant_def)

lemma fp8_fexp_is:
  assumes "e = 0 \<or> 7 \<le> e" "e < 16"
  shows "\<exists>v. fp8_fexp e = Some v \<and> f32_is v False (2 ^ nat (142 + max 1 e))"
proof (cases "e = 0")
  case True
  have "f32_is (f32_of_uint 64) False (64 * 2 ^ 149)" by (intro f32_is_of_uint) simp_all
  then have "f32_is (f32_div f32_one (f32_of_uint 64)) False (2 ^ 143)"
    using f32_is_div[OF f32_is_one, of "f32_of_uint 64" False "64 * 2 ^ 149" 1 143] by simp
  then show ?thesis using True by (simp add: fp8_fexp_def shift_one_def)
next
  case False
  define k where "k = nat (e - 7)"
  have k: "k \<le> 8" "nat (142 + max 1 e) = 149 + k" using assms False by (simp_all add: k_def)
  have "(2::int) ^ k < 2 ^ 24" using k by (intro power_strict_increasing) simp_all
  then have "f32_is (f32_of_uint (2 ^ k)) False (2 ^ (149 + k))"
    using f32_is_of_uint[of "2 ^ k"] by (simp add: power_add mult.commute)
  then show ?thesis unfolding k(2) using assms False by (simp add: fp8_fexp_def shift_one_def k_def)
qed

text \<open>The fields of a code, its conversion by cases, and its exact value.\<close>

lemma fp8_cases:
  fixes c :: u8
  defines "e \<equiv> uint c div 8 mod 16" and "m \<equiv> uint c mod 8"
  shows "0 \<le> e" "e < 16" "0 \<le> m" "m < 8"
    "fp8_units c = (if e = 0 then m else m + 8) * 2 ^ nat (max 1 e - 1)"
    "fp8_e4m3_to_f32 c = (if e = 0 \<and> m = 0 then Some (if fp8_sign c then 0x80000000 else 0)
      else map_option (\<lambda>v. let r = f32_mul v (fp8_fmant e m) in if fp8_sign c then f32_neg r else r) (fp8_fexp e))"
proof -
  show "0 \<le> e" "e < 16" "0 \<le> m" "m < 8" by (simp_all add: e_def m_def pos_imp_zdiv_nonneg_iff)
  show "fp8_units c = (if e = 0 then m else m + 8) * 2 ^ nat (max 1 e - 1)"
    by (auto simp: fp8_units_def Let_def e_def m_def)
  show "fp8_e4m3_to_f32 c = (if e = 0 \<and> m = 0 then Some (if fp8_sign c then 0x80000000 else 0)
      else map_option (\<lambda>v. let r = f32_mul v (fp8_fmant e m) in if fp8_sign c then f32_neg r else r) (fp8_fexp e))"
    unfolding fp8_e4m3_to_f32_def fp8_fields Let_def e_def[symmetric] m_def[symmetric]
    by (cases "fp8_fexp e") simp_all
qed

lemma fp8_product_is:
  assumes em: "0 \<le> e" "e < 16" "0 \<le> m" "m < 8" and v: "f32_is v False (2 ^ nat (142 + max 1 e))"
  shows "f32_is (f32_mul v (fp8_fmant e m)) False
    ((if e = 0 then m else m + 8) * 2 ^ nat (max 1 e - 1) * 2 ^ 140)"
proof -
  let ?n = "if e = 0 then m else m + 8" and ?j = "nat (139 + max 1 e)"
  have j: "?j = nat (max 1 e - 1) + 140" by simp
  have mul: "2 ^ nat (142 + max 1 e) * (?n * 2 ^ 146) = ?n * 2 ^ ?j * (2::int) ^ 149"
  proof -
    have "nat (142 + max 1 e) + 146 = ?j + 149" by simp
    then have "2 ^ nat (142 + max 1 e) * 2 ^ 146 = 2 ^ ?j * (2::int) ^ 149"
      by (simp only: power_add[symmetric])
    moreover have "a * (n * b) = n * (a * b)" for a n b :: int by (simp only: mult.left_commute)
    ultimately show ?thesis by (simp only: mult.assoc)
  qed
  have "?n * 2 ^ ?j < 2 ^ 277"
  proof -
    have "(2::int) ^ ?j \<le> 2 ^ 154" using em by (intro power_increasing) simp_all
    moreover have "0 \<le> ?n" "?n \<le> 15" using em by simp_all
    ultimately have "?n * 2 ^ ?j \<le> 15 * 2 ^ 154" by (intro mult_mono) simp_all
    then show ?thesis by simp
  qed
  then have "f32_is (f32_mul v (fp8_fmant e m)) False (?n * 2 ^ ?j)"
    using f32_is_mul[OF v fp8_fmant_is[OF em(3,4), of e] mul] em by simp
  then show ?thesis unfolding j power_add by (simp only: mult.assoc)
qed

lemma fp8_is:
  assumes "fp8_defined c"
  shows "\<exists>v. fp8_e4m3_to_f32 c = Some v \<and> f32_is v (fp8_sign c) (fp8_units c * 2 ^ 140)"
proof (cases "uint c div 8 mod 16 = 0 \<and> uint c mod 8 = 0")
  case True
  have "f32_is (if s then 0x80000000 else 0) s 0" for s
    using f32_is_make[of 0 0 s] by (auto simp: f32_make_def)
  with True show ?thesis using fp8_cases(5,6)[of c] by simp
next
  case False
  obtain v where v: "fp8_fexp (uint c div 8 mod 16) = Some v"
    "f32_is v False (2 ^ nat (142 + max 1 (uint c div 8 mod 16)))"
    using fp8_fexp_is[of "uint c div 8 mod 16"] assms by (auto simp: fp8_defined_def)
  have "f32_is (f32_mul v (fp8_fmant (uint c div 8 mod 16) (uint c mod 8))) False (fp8_units c * 2 ^ 140)"
    unfolding fp8_cases(5) by (rule fp8_product_is[OF fp8_cases(1-4) v(2)])
  then show ?thesis
    using f32_is_neg fp8_cases(6)[of c] v(1) False by (fastforce simp: Let_def)
qed

lemma fp8_undefined: "fp8_e4m3_to_f32 c = None \<longleftrightarrow> \<not> fp8_defined c"
proof
  show "fp8_e4m3_to_f32 c = None \<Longrightarrow> \<not> fp8_defined c" using fp8_is by fastforce
  assume "\<not> fp8_defined c"
  then have "uint c div 8 mod 16 \<noteq> 0" "\<not> 7 \<le> uint c div 8 mod 16" by (simp_all add: fp8_defined_def)
  then show "fp8_e4m3_to_f32 c = None" using fp8_cases(6)[of c] by (simp add: fp8_fexp_def shift_one_def)
qed

lemma bf16_is:
  assumes "bf16_finite d"
  shows "f32_is (bf16_to_f32 d) (bf16_sign d) (bf16_units d * 2 ^ 16)"
proof -
  define e where "e = uint d div 128 mod 256"
  define m where "m = uint d mod 128"
  define s where "s = bf16_sign d"
  have em: "0 \<le> e" "0 \<le> m" "m < 128" by (simp_all add: e_def m_def)
  have ud: "uint d = (e * 128 + m) + (if s then 0x8000 else 0)"
  proof -
    have b: "0 \<le> uint d" "uint d < 0x10000" using uint_bounded[of d] by simp_all
    then have "uint d div 128 = e + (if s then 256 else 0)"
      using mod_upper_half[of 256 "uint d div 128"] mod_pos_pos_trivial[of "uint d div 128" 256]
      by (auto simp: e_def s_def bf16_sign_def pos_imp_zdiv_nonneg_iff)
    then have "uint d = (e + (if s then 256 else 0)) * 128 + m"
      using div_mult_mod_eq[of "uint d" 128] by (simp only: m_def)
    then show ?thesis by simp
  qed
  have "e < 256" by (simp add: e_def)
  then have "(e * 128 + m) mod 0x8000 = e * 128 + m" using em by (intro mod_pos_pos_trivial) simp_all
  then have "uint d mod 0x8000 = e * 128 + m" unfolding ud by (cases s) simp_all
  then have "e * 128 + m < 0x7F80" using assms by (simp add: bf16_finite_def)
  then have "e < 255" using em by simp
  moreover have "bf16_to_f32 d = f32_make s (e * 0x800000 + m * 0x10000)"
  proof -
    have "word_of_int (uint (bf16_to_f32 d)) = f32_make s (e * 0x800000 + m * 0x10000)"
      unfolding uint_bf16_to_f32 ud f32_make_def by (cases s) (simp_all add: algebra_simps)
    then show ?thesis by simp
  qed
  moreover have "bf16_units d = (if e = 0 then m else (m + 128) * 2 ^ nat (e - 1))"
    by (simp add: bf16_units_def Let_def e_def m_def)
  moreover have "(if e = 0 then m * 0x10000 else (m * 0x10000 + 0x800000) * 2 ^ nat (e - 1)) =
      (if e = 0 then m else (m + 128) * 2 ^ nat (e - 1)) * 2 ^ 16"
    by (simp add: algebra_simps)
  ultimately show ?thesis
    using f32_is_make[of e "m * 0x10000" s] em unfolding s_def[symmetric] by simp
qed

lemma bf16_units_form: "\<exists>n j. bf16_units d = n * 2 ^ j \<and> 0 \<le> n \<and> n < 256"
proof -
  have "uint d mod 128 < 128" "0 \<le> uint d mod 128" by simp_all
  then show ?thesis
    by (cases "uint d div 128 mod 256 = 0")
      (rule exI[of _ "uint d mod 128"], rule exI[of _ 0], simp add: bf16_units_def,
       rule exI[of _ "uint d mod 128 + 128"], rule exI, auto simp: bf16_units_def Let_def)
qed

lemma fp8_units_form: "\<exists>n j. fp8_units c = n * 2 ^ j \<and> 0 \<le> n \<and> n < 16"
proof -
  have "uint c mod 8 < 8" "0 \<le> uint c mod 8" by simp_all
  then show ?thesis
    by (cases "uint c div 8 mod 16 = 0")
      (rule exI[of _ "uint c mod 8"], rule exI[of _ 0], simp add: fp8_units_def,
       rule exI[of _ "uint c mod 8 + 8"], rule exI, auto simp: fp8_units_def Let_def)
qed

text \<open>Eight significant bits times four: the product of a BF16 value and a scale factor is exact
  unless it overflows; it never underflows.\<close>

lemma mx_product_exact:
  assumes "bf16_finite d" and "bf16_units d * fp8_units c * 2 ^ 7 < 2 ^ 277"
    and "fp8_e4m3_to_f32 c = Some v"
  shows "f32_is (f32_mul (bf16_to_f32 d) v) (bf16_sign d \<noteq> fp8_sign c)
    (bf16_units d * fp8_units c * 2 ^ 7)"
proof -
  have v_is: "f32_is v (fp8_sign c) (fp8_units c * 2 ^ 140)"
    using fp8_is[of c] fp8_undefined[of c] assms(3) by auto
  obtain n1 j1 n2 j2 where f: "bf16_units d = n1 * 2 ^ j1" "0 \<le> n1" "n1 < 256"
    "fp8_units c = n2 * 2 ^ j2" "0 \<le> n2" "n2 < 16"
    using bf16_units_form fp8_units_form by metis
  have v: "n1 * n2 * 2 ^ (j1 + j2 + 7) = bf16_units d * fp8_units c * 2 ^ 7"
    by (simp only: f power_add mult.assoc mult.left_commute mult.commute)
  have "bf16_units d * 2 ^ 16 * (fp8_units c * 2 ^ 140) = bf16_units d * fp8_units c * 2 ^ 7 * 2 ^ 149"
    by simp
  then have "bf16_units d * 2 ^ 16 * (fp8_units c * 2 ^ 140) = n1 * n2 * 2 ^ (j1 + j2 + 7) * 2 ^ 149"
    unfolding v .
  moreover have "n1 * n2 < 2 ^ 24"
  proof -
    have "n1 * n2 \<le> 256 * 16" using f by (intro mult_mono) simp_all
    then show ?thesis by simp
  qed
  ultimately show ?thesis
    using f32_is_mul[OF bf16_is[OF assms(1)] v_is, of "n1 * n2" "j1 + j2 + 7"] f assms(2)
    unfolding v by simp
qed

section \<open>Loops\<close>

definition scales_defined :: "u8 list \<Rightarrow> nat \<Rightarrow> nat \<Rightarrow> bool" where
  "scales_defined scales k n \<longleftrightarrow> (\<forall>i. k \<le> i \<and> i < n \<longrightarrow> fp8_defined (scales ! (i div 8)))"

lemma scales_defined_step:
  "k < n \<Longrightarrow> scales_defined scales k n \<longleftrightarrow> fp8_defined (scales ! (k div 8)) \<and> scales_defined scales (Suc k) n"
  unfolding scales_defined_def by (auto simp: Suc_le_eq) (metis order_le_less)

definition fp8_value :: "u8 \<Rightarrow> f32" where
  "fp8_value c = the (fp8_e4m3_to_f32 c)"

lemma fp8_value: "fp8_e4m3_to_f32 c = (if fp8_defined c then Some (fp8_value c) else None)"
  using fp8_is[of c] fp8_undefined[of c] by (auto simp: fp8_value_def)

lemma mx_dequant_loop_spec:
  assumes "k \<le> n" "n \<le> length data" "n \<le> length out" "(n + 7) div 8 \<le> length scales"
  shows "mx_dequant_loop data scales out [k..<n] =
    (if scales_defined scales k n
     then Some (take k out @ map (\<lambda>i. f32_mul (bf16_to_f32 (data ! i)) (fp8_value (scales ! (i div 8)))) [k..<n] @
       drop n out)
     else None)"
  using assms
proof (induction "n - k" arbitrary: k out)
  case 0
  then show ?case by (simp add: scales_defined_def)
next
  case (Suc x)
  let ?c = "scales ! (k div 8)"
  let ?p = "f32_mul (bf16_to_f32 (data ! k)) (fp8_value ?c)"
  have k: "k < n" using Suc.hyps(2) by simp
  then have len: "k div 8 < length scales" using Suc.prems(4) by linarith
  show ?case
  proof (cases "fp8_defined ?c")
    case False
    then show ?thesis using k len Suc.prems
      by (simp add: upt_conv_Cons fault_simps MX_BLOCK_SIZE_def fp8_value scales_defined_step[OF k])
  next
    case True
    then have "mx_dequant_loop data scales out [k..<n] = mx_dequant_loop data scales (out[k := ?p]) [Suc k..<n]"
      using k len Suc.prems by (simp add: upt_conv_Cons fault_simps MX_BLOCK_SIZE_def fp8_value)
    moreover have "take (Suc k) (out[k := ?p]) = take k out @ [?p]"
      using k Suc.prems(3) by (simp add: take_Suc_conv_app_nth)
    ultimately show ?thesis
      using Suc.hyps(1)[of "Suc k" "out[k := ?p]"] True k Suc.prems Suc.hyps(2)
      by (simp add: upt_conv_Cons scales_defined_step[OF k])
  qed
qed

lemma mx_dot_loop_fused:
  assumes "k \<le> n" "n \<le> length b" "n \<le> length a" "(n + 7) div 8 \<le> length scales"
  shows "mx_dot_loop a b scales acc [k..<n] =
    (if scales_defined scales k n
     then Some (fold (\<lambda>i acc. f32_add acc (f32_mul (bf16_to_f32 (a ! i))
       (f32_mul (bf16_to_f32 (b ! i)) (fp8_value (scales ! (i div 8)))))) [k..<n] acc)
     else None)"
  using assms
proof (induction "n - k" arbitrary: k acc)
  case (Suc x)
  have k: "k < n" using Suc.hyps(2) by simp
  then have "k div 8 < length scales" using Suc.prems(4) by linarith
  with k Suc show ?case
    by (simp add: upt_conv_Cons fault_simps MX_BLOCK_SIZE_def fp8_value scales_defined_step[OF k])
qed (simp add: scales_defined_def)

section \<open>The quantiser\<close>

definition f32_nonzero :: "f32 \<Rightarrow> bool" where
  "f32_nonzero x \<longleftrightarrow> \<not> f32_is_nan x \<and> f32_mag x \<noteq> 0"

lemma f32_gt_zero: "f32_gt x 0 \<longleftrightarrow> \<not> f32_is_nan x \<and> 0 < f32_key x"
  by (simp add: f32_gt_def f32_is_nan_def f32_mag_def f32_key_def)

lemma f32_mag_nonneg: "f32_mag x = 0 \<or> 0 < f32_mag x"
  using f32_mag_bounds(1)[of x] by linarith

lemma f32_magnitude:
  "f32_is_nan (if f32_gt 0 x then f32_neg x else x) = f32_is_nan x"
  "\<not> f32_is_nan x \<Longrightarrow> f32_key (if f32_gt 0 x then f32_neg x else x) = f32_mag x"
  using f32_mag_nonneg[of x] by (auto simp: f32_gt_def f32_is_nan_def f32_key_def f32_mag_def[of 0])

lemma mx_amax_spec:
  assumes "\<not> f32_is_nan amax" "0 \<le> f32_key amax" "\<forall>i \<in> set is. i < length input"
  shows "\<exists>a. mx_amax input amax is = Some a \<and> \<not> f32_is_nan a \<and>
    (0 < f32_key a \<longleftrightarrow> 0 < f32_key amax \<or> (\<exists>i \<in> set is. f32_nonzero (input ! i)))"
  using assms
proof (induction "is" arbitrary: amax)
  case (Cons i "is")
  define x where "x = input ! i"
  define av where "av = (if f32_gt 0 x then f32_neg x else x)"
  let ?a = "if f32_gt av amax then av else amax"
  have av: "f32_is_nan av = f32_is_nan x" "\<not> f32_is_nan x \<Longrightarrow> f32_key av = f32_mag x"
    unfolding av_def by (rule f32_magnitude)+
  have step: "mx_amax input amax (i # is) = mx_amax input ?a is"
    using Cons.prems(3) by (simp add: fault_simps Let_def av_def x_def)
  have "\<not> f32_is_nan ?a" "0 \<le> f32_key ?a" using Cons.prems(1,2) by (auto simp: f32_gt_def)
  moreover have "0 < f32_key ?a \<longleftrightarrow> 0 < f32_key amax \<or> f32_nonzero x"
    using Cons.prems(1,2) av f32_mag_nonneg[of x] by (auto simp: f32_gt_def f32_nonzero_def)
  ultimately show ?case using Cons.IH[of ?a] Cons.prems(3) unfolding step x_def by auto
qed simp

lemma mx_quant_block_total:
  assumes "\<forall>i \<in> set is. i < length input \<and> i < length data"
  shows "\<exists>data'. mx_quant_block input r data is = Some data' \<and> length data' = length data \<and>
    (\<forall>j. j \<notin> set is \<longrightarrow> data' ! j = data ! j)"
  using assms
proof (induction "is" arbitrary: data)
  case (Cons i "is")
  let ?d = "data[i := f32_to_bf16 (f32_mul (input ! i) r)]"
  have "mx_quant_block input r data (i # is) = mx_quant_block input r ?d is"
    using Cons.prems by (simp add: fault_simps)
  with Cons.IH[of ?d] Cons.prems show ?case by auto
qed simp

text \<open>The byte the quantiser stores for a block.\<close>

definition scale_byte :: "f32 list \<Rightarrow> nat \<Rightarrow> nat \<Rightarrow> u8" where
  "scale_byte input n b = (if \<exists>i \<in> set [8 * b..<min (8 * b + 8) n]. f32_nonzero (input ! i) then 64 else 0)"

lemma mx_quant_step_spec:
  assumes blk: "unat blk = 8 * b" "blk < count" and c: "unat count \<le> 2 ^ 32 - 8"
    and len: "unat count \<le> length input" "unat count \<le> length data" "(unat count + 7) div 8 \<le> length scales"
  shows "\<exists>data'. mx_quant_step input data scales count blk = Some (data', scales[b := scale_byte input (unat count) b]) \<and>
    length data' = length data \<and> (\<forall>j \<ge> unat count. data' ! j = data ! j)"
proof -
  have lt: "8 * b < unat count" using blk by (simp add: word_less_nat_alt)
  have "unat (blk + 8) = 8 * b + 8" using blk(1) lt c by (subst unat_add_lem[THEN iffD1]) simp_all
  then have e: "unat (if blk + 8 > count then count else blk + 8) = min (8 * b + 8) (unat count)"
    by (simp add: word_less_nat_alt)
  have d: "unat (blk div 8) = b" using blk(1) by (simp add: unat_div)
  let ?is = "[8 * b..<min (8 * b + 8) (unat count)]"
  have zero: "\<not> f32_is_nan 0" "f32_key 0 = 0" by (simp_all add: f32_is_nan_def f32_key_def f32_mag_def)
  obtain a where a: "mx_amax input 0 ?is = Some a" "\<not> f32_is_nan a"
    "0 < f32_key a \<longleftrightarrow> (\<exists>i \<in> set ?is. f32_nonzero (input ! i))"
    using mx_amax_spec[of 0 ?is input] len(1) zero by auto
  have byte: "(if f32_gt a 0 then 64 else 0) = scale_byte input (unat count) b"
    using a(2,3) by (simp add: f32_gt_zero scale_byte_def)
  let ?inv = "f32_div f32_one (if f32_gt a 0 then f32_div a f32_448 else f32_one)"
  obtain data' where q: "mx_quant_block input ?inv data ?is = Some data'" "length data' = length data"
    "\<forall>j. j \<notin> set ?is \<longrightarrow> data' ! j = data ! j"
    using mx_quant_block_total[of ?is input data ?inv] len(1,2) by auto
  have "b < length scales" using lt len(3) by linarith
  then have "mx_quant_step input data scales count blk = Some (data', scales[b := scale_byte input (unat count) b])"
    unfolding mx_quant_step_def Let_def e d blk(1) using a(1) q(1) byte by (simp add: fault_simps)
  then show ?thesis using q by auto
qed

lemma mx_quant_loop_spec:
  assumes "unat blk = 8 * b" "unat count \<le> 2 ^ 32 - 8"
    and "unat count \<le> length input" "unat count \<le> length data" "(unat count + 7) div 8 \<le> length scales"
  shows "\<exists>data' scales'. mx_quant_loop input data scales count blk = Some (data', scales') \<and>
    length data' = length data \<and> length scales' = length scales \<and> (\<forall>j \<ge> unat count. data' ! j = data ! j) \<and>
    (\<forall>j. scales' ! j = (if b \<le> j \<and> j < (unat count + 7) div 8 then scale_byte input (unat count) j else scales ! j))"
  using assms
proof (induction "unat count - 8 * b" arbitrary: b blk data scales rule: less_induct)
  case less
  show ?case
  proof (cases "blk < count")
    case False
    then have "(unat count + 7) div 8 \<le> b" using less.prems(1) by (simp add: word_less_nat_alt)
    then show ?thesis using False by (auto simp: mx_quant_loop.simps[of input data scales count blk])
  next
    case True
    then have lt: "8 * b < unat count" using less.prems(1) by (simp add: word_less_nat_alt)
    have nx: "unat (blk + 8) = 8 * (b + 1)"
      using less.prems(1,2) lt by (subst unat_add_lem[THEN iffD1]) simp_all
    let ?sc = "scales[b := scale_byte input (unat count) b]"
    obtain d where st: "mx_quant_step input data scales count blk = Some (d, ?sc)"
      "length d = length data" "\<forall>j \<ge> unat count. d ! j = data ! j"
      using mx_quant_step_spec[OF less.prems(1) True less.prems(2-5)] by blast
    have step: "mx_quant_loop input data scales count blk = mx_quant_loop input d ?sc count (blk + 8)"
      using True st(1) by (simp add: mx_quant_loop.simps[of input data scales count blk])
    have b: "b < (unat count + 7) div 8" "b < length scales" using lt less.prems(5) by linarith+
    have "unat count - 8 * (b + 1) < unat count - 8 * b" using lt by simp
    from less.hyps[OF this nx less.prems(2,3), of d ?sc] less.prems(4,5) st(2) obtain data' scales' where
      h: "mx_quant_loop input d ?sc count (blk + 8) = Some (data', scales')" "length data' = length data"
      "length scales' = length scales" "\<forall>j \<ge> unat count. data' ! j = d ! j"
      "\<forall>j. scales' ! j = (if b + 1 \<le> j \<and> j < (unat count + 7) div 8 then scale_byte input (unat count) j else ?sc ! j)"
      by auto
    have "scales' ! j = (if b \<le> j \<and> j < (unat count + 7) div 8 then scale_byte input (unat count) j else scales ! j)" for j
      using h(5)[rule_format, of j] b by (cases "j = b") auto
    then show ?thesis unfolding step using h(1-4) st(3) by auto
  qed
qed

section \<open>Rounding to BF16\<close>

lemma round_half_carry:
  fixes u :: int
  assumes "0 \<le> u"
  shows "(u + (0x7FFF + u div 0x10000 mod 2)) div 0x10000 = round_ne u 0x10000"
proof -
  define d where "d = u div 0x10000"
  define r where "r = u mod 0x10000"
  have u: "u = r + d * 0x10000" "0 \<le> r" "r < 0x10000" by (simp_all add: d_def r_def)
  have odd: "d mod 2 = (if odd d then 1 else 0)" by (simp add: odd_iff_mod_2_eq_one even_iff_mod_2_eq_zero)
  have "(u + (0x7FFF + d mod 2)) div 0x10000 = (r + 0x7FFF + d mod 2 + d * 0x10000) div 0x10000"
    using u(1) by (simp add: algebra_simps)
  also have "\<dots> = (r + 0x7FFF + d mod 2) div 0x10000 + d" by (subst div_mult_self1) simp_all
  also have "(r + 0x7FFF + d mod 2) div 0x10000 =
      (if 0x10000 < 2 * r \<or> (2 * r = 0x10000 \<and> odd d) then 1 else 0)"
    using u(2,3) int_div_pos_eq[of "r + 0x7FFF + d mod 2" "0x10000" 1 "r + 0x7FFF + d mod 2 - 0x10000"]
    by (auto simp: odd)
  finally show ?thesis
    unfolding round_ne_def Let_def d_def[symmetric] r_def[symmetric] by auto
qed

lemma uint_f32_to_bf16:
  assumes "uint w < 0xFFFF8000"
  shows "uint (f32_to_bf16 w) = round_ne (uint w) 0x10000"
proof -
  define l where "l = drop_bit 16 w AND 1"
  have l: "uint l = uint w div 0x10000 mod 2"
  proof -
    have "l = drop_bit 16 w AND mask 1" by (simp add: l_def mask_eq_exp_minus_1)
    then show ?thesis by (simp only: uint_field) simp
  qed
  have lb: "0 \<le> uint l" "uint l \<le> 1" using l by simp_all
  have "uint (0x7FFF + l) = 0x7FFF + uint l" using lb by (simp add: uint_word_ariths)
  then have "uint (w + (0x7FFF + l)) = uint w + (0x7FFF + uint l)"
    using assms lb by (simp add: uint_word_ariths)
  then have b: "uint (w + (0x7FFF + l)) div 0x10000 = round_ne (uint w) 0x10000"
    using round_half_carry[of "uint w"] l by simp
  have "uint (f32_to_bf16 w) = take_bit 16 (drop_bit 16 (uint (w + (0x7FFF + l))))"
    unfolding f32_to_bf16_def Let_def l_def[symmetric]
    by (rule bit_eqI) (auto simp: bit_simps dest: bit_imp_le_length)
  also have "\<dots> = uint (w + (0x7FFF + l)) div 0x10000 mod 0x10000"
    by (simp add: take_bit_eq_mod drop_bit_eq_div)
  also have "\<dots> = uint (w + (0x7FFF + l)) div 0x10000"
    using uint_f32[of "w + (0x7FFF + l)"] by (intro mod_pos_pos_trivial) (simp_all add: pos_imp_zdiv_nonneg_iff)
  finally show ?thesis using b by simp
qed

lemma bf16_undo: "f32_to_bf16 (bf16_to_f32 d) = d"
proof -
  have "uint d < 0x10000" using uint_bounded[of d] by simp
  then have "uint (bf16_to_f32 d) < 0xFFFF8000" unfolding uint_bf16_to_f32 by simp
  then have "uint (f32_to_bf16 (bf16_to_f32 d)) = uint d"
    using uint_f32_to_bf16 round_ne_exact[of "0x10000" "uint d"] by (simp only: uint_bf16_to_f32)
  then show ?thesis by (rule word_uint_eqI)
qed

section \<open>Properties\<close>

text \<open>C36: \<open>f32_to_bf16\<close> rounds the pattern to nearest, ties to even, whenever the addition of the
  rounding bias does not wrap (in particular for every finite value of either sign), and undoes
  \<open>bf16_to_f32\<close> on all 65536 patterns. A NaN with all fraction bits set is turned into \<open>-0.0\<close>.\<close>

theorem bf16_rounds_to_even:
  "(uint w < 0xFFFF8000 \<longrightarrow> uint (f32_to_bf16 w) = round_ne (uint w) 0x10000) \<and>
   f32_to_bf16 (bf16_to_f32 d) = d \<and>
   f32_is_nan 0x7FFFFFFF \<and> f32_to_bf16 0x7FFFFFFF = 0x8000"
proof (intro conjI impI)
  show "uint w < 0xFFFF8000 \<Longrightarrow> uint (f32_to_bf16 w) = round_ne (uint w) 0x10000"
    by (rule uint_f32_to_bf16)
  show "f32_to_bf16 (bf16_to_f32 d) = d" by (rule bf16_undo)
  show "f32_is_nan 0x7FFFFFFF" "f32_to_bf16 0x7FFFFFFF = 0x8000" by code_simp+
qed

theorem bf16_rounds_to_even_witness: "uint (f32_to_bf16 0x3FC08000) = 0x3FC0 \<and> uint (f32_to_bf16 0x3FC18000) = 0x3FC2"
  using bf16_rounds_to_even[of "0x3FC08000"] bf16_rounds_to_even[of "0x3FC18000"] by (simp add: round_ne_def)

text \<open>C23: \<open>mx_dequant_bf16\<close> writes exactly the products. With arrays as long as the loop reads, and every
  scale code it uses one whose conversion is defined, every element up to \<open>count\<close> becomes the BF16
  value times the scale factor of its group of eight, with no rounding error and no underflow,
  unless the product exceeds the largest float; elements beyond \<open>count\<close> stay. A code with an
  exponent from 1 to 6 makes the conversion shift by a negative count, which is undefined. The
  codes 0x7F and 0xFF, which the E4M3 format reserves for NaN, are converted to \<open>480.0\<close> and
  \<open>-480.0\<close> like any other code.\<close>

theorem mx_dequant_exact:
  assumes "unat count \<le> length data" "unat count \<le> length out" "(unat count + 7) div 8 \<le> length scales"
  shows "(if scales_defined scales 0 (unat count) then
      \<exists>out'. mx_dequant_bf16 data scales out count = Some out' \<and> length out' = length out \<and>
        drop (unat count) out' = drop (unat count) out \<and>
        (\<forall>i < unat count. bf16_finite (data ! i) \<and> bf16_units (data ! i) * fp8_units (scales ! (i div 8)) * 2 ^ 7 < 2 ^ 277 \<longrightarrow>
          f32_is (out' ! i) (bf16_sign (data ! i) \<noteq> fp8_sign (scales ! (i div 8)))
            (bf16_units (data ! i) * fp8_units (scales ! (i div 8)) * 2 ^ 7))
    else mx_dequant_bf16 data scales out count = None) \<and>
    fp8_e4m3_to_f32 0x7F = Some 0x43F00000 \<and> fp8_e4m3_to_f32 0xFF = Some 0xC3F00000"
proof -
  define f where "f i = f32_mul (bf16_to_f32 (data ! i)) (fp8_value (scales ! (i div 8)))" for i
  have d: "mx_dequant_bf16 data scales out count = (if scales_defined scales 0 (unat count)
      then Some (map f [0..<unat count] @ drop (unat count) out) else None)"
    using mx_dequant_loop_spec[of 0 "unat count"] assms by (simp add: mx_dequant_bf16_def f_def)
  have "fp8_e4m3_to_f32 (scales ! (i div 8)) = Some (fp8_value (scales ! (i div 8)))"
    if "scales_defined scales 0 (unat count)" "i < unat count" for i
    using that fp8_value by (simp add: scales_defined_def)
  then have "f32_is (f i) (bf16_sign (data ! i) \<noteq> fp8_sign (scales ! (i div 8)))
      (bf16_units (data ! i) * fp8_units (scales ! (i div 8)) * 2 ^ 7)"
    if "scales_defined scales 0 (unat count)" "i < unat count" "bf16_finite (data ! i)"
      "bf16_units (data ! i) * fp8_units (scales ! (i div 8)) * 2 ^ 7 < 2 ^ 277" for i
    using that mx_product_exact unfolding f_def by blast
  moreover have "fp8_e4m3_to_f32 0x7F = Some 0x43F00000" "fp8_e4m3_to_f32 0xFF = Some 0xC3F00000" by code_simp+
  ultimately show ?thesis using assms unfolding d by (auto simp: nth_append)
qed

theorem mx_dequant_exact_witness:
  "\<exists>out'. mx_dequant_bf16 [0x3FC0, 0xC000] [0x44] [0, 0] 2 = Some out' \<and>
    f32_is (out' ! 0) False (bf16_units 0x3FC0 * fp8_units 0x44 * 2 ^ 7) \<and>
    f32_is (out' ! 1) True (bf16_units 0xC000 * fp8_units 0x44 * 2 ^ 7)"
proof -
  have s: "bf16_finite 0x3FC0" "bf16_finite 0xC000" "\<not> bf16_sign 0x3FC0" "bf16_sign 0xC000" "\<not> fp8_sign 0x44"
    "bf16_units 0x3FC0 * fp8_units 0x44 * 2 ^ 7 < 2 ^ 277" "bf16_units 0xC000 * fp8_units 0x44 * 2 ^ 7 < 2 ^ 277"
    "fp8_defined 0x44"
    by code_simp+
  then have "scales_defined [0x44] 0 2" by (auto simp: scales_defined_def)
  with mx_dequant_exact[of 2 "[0x3FC0, 0xC000]" "[0, 0]" "[0x44]"] obtain out' where o:
    "mx_dequant_bf16 [0x3FC0, 0xC000] [0x44] [0, 0] 2 = Some out'"
    "\<forall>i < 2. bf16_finite ([0x3FC0, 0xC000] ! i) \<and>
      bf16_units ([0x3FC0, 0xC000] ! i) * fp8_units ([0x44] ! (i div 8)) * 2 ^ 7 < 2 ^ 277 \<longrightarrow>
      f32_is (out' ! i) (bf16_sign ([0x3FC0, 0xC000] ! i) \<noteq> fp8_sign ([0x44] ! (i div 8)))
        (bf16_units ([0x3FC0, 0xC000] ! i) * fp8_units ([0x44] ! (i div 8)) * 2 ^ 7)"
    by auto
  from o(2)[rule_format, of 0] o(2)[rule_format, of 1] s o(1) show ?thesis
    by (simp del: power_numeral)
qed

text \<open>The reference for the fused loop: dequantise everything first, then take the dot product.\<close>

definition dot_f32 :: "f32 list \<Rightarrow> f32 list \<Rightarrow> f32" where
  "dot_f32 xs ys = fold (\<lambda>(x, y) acc. f32_add acc (f32_mul x y)) (zip xs ys) 0"

text \<open>C10: the fused \<open>mx_dot_product\<close> equals the two-pass computation it avoids: dequantising the second
  operand into a buffer and taking the plain dot product gives the same float, bit for bit. Both
  are defined for the same inputs, namely when no scale code in use has an exponent from 1 to 6.\<close>

theorem mx_dot_fused:
  assumes "unat dim \<le> length a" "unat dim \<le> length b" "(unat dim + 7) div 8 \<le> length scales"
    and "length buf = unat dim"
  shows "mx_dot_product a b scales dim =
      map_option (dot_f32 (map bf16_to_f32 (take (unat dim) a))) (mx_dequant_bf16 b scales buf dim) \<and>
    (mx_dot_product a b scales dim \<noteq> None \<longleftrightarrow> scales_defined scales 0 (unat dim))"
proof -
  define n where "n = unat dim"
  define f where "f i = f32_mul (bf16_to_f32 (b ! i)) (fp8_value (scales ! (i div 8)))" for i
  have "mx_dequant_bf16 b scales buf dim = (if scales_defined scales 0 n then Some (map f [0..<n]) else None)"
    using mx_dequant_loop_spec[of 0 n b buf scales] assms by (simp add: mx_dequant_bf16_def f_def n_def)
  moreover have "take n a = map ((!) a) [0..<n]"
    using assms(1) by (simp add: n_def list_eq_iff_nth_eq)
  then have "zip (map bf16_to_f32 (take n a)) (map f [0..<n]) = map (\<lambda>i. (bf16_to_f32 (a ! i), f i)) [0..<n]"
    by (simp add: zip_map_map map_zip_map2 zip_same_conv_map comp_def)
  then have "dot_f32 (map bf16_to_f32 (take n a)) (map f [0..<n]) =
      fold (\<lambda>i acc. f32_add acc (f32_mul (bf16_to_f32 (a ! i)) (f i))) [0..<n] 0"
    by (simp add: dot_f32_def fold_map comp_def)
  moreover have "mx_dot_product a b scales dim = (if scales_defined scales 0 n
      then Some (fold (\<lambda>i acc. f32_add acc (f32_mul (bf16_to_f32 (a ! i)) (f i))) [0..<n] 0) else None)"
    using mx_dot_loop_fused[of 0 n b a scales 0] assms by (simp add: mx_dot_product_def f_def n_def)
  ultimately show ?thesis by (simp add: n_def)
qed

theorem mx_dot_fused_witness:
  "mx_dot_product [0x3F80, 0x4040] [0x3F80, 0x4000] [0x38] 2 =
    map_option (dot_f32 [0x3F800000, 0x40400000]) (mx_dequant_bf16 [0x3F80, 0x4000] [0x38] [0, 0] 2) \<and>
   mx_dot_product [0x3F80, 0x4040] [0x3F80, 0x4000] [0x38] 2 \<noteq> None"
proof -
  have c: "bf16_to_f32 0x3F80 = 0x3F800000" "bf16_to_f32 0x4040 = 0x40400000" "fp8_defined 0x38" by code_simp+
  then have d: "scales_defined [0x38] 0 2" by (auto simp: scales_defined_def)
  have l: "unat (2::u32) = 2" "take 2 [a, b] = [a, b]" for a b :: bf16 by simp_all
  have "mx_dot_product [0x3F80, 0x4040] [0x3F80, 0x4000] [0x38] 2 =
      map_option (dot_f32 (map bf16_to_f32 (take (unat (2::u32)) [0x3F80, 0x4040])))
        (mx_dequant_bf16 [0x3F80, 0x4000] [0x38] [0, 0] 2) \<and>
      (mx_dot_product [0x3F80, 0x4040] [0x3F80, 0x4000] [0x38] 2 \<noteq> None \<longleftrightarrow> scales_defined [0x38] 0 (unat (2::u32)))"
    by (rule mx_dot_fused) simp_all
  then show ?thesis using d unfolding l list.map c(1,2) by blast
qed

text \<open>\<open>mx_quant_to_bf16\<close> does not store the scale it divides by. For every input of at most \<open>2^32 - 8\<close>
  elements (beyond that the block counter wraps) and arrays of the sizes the loop needs, the
  quantiser returns, and the scale byte of a block is 64 (that is \<open>2.0\<close>) if the block has an element
  that is neither zero nor NaN, and 0 otherwise: the magnitudes of the input have no influence on
  it. So the inputs \<open>1.0\<close> and \<open>448.0\<close> get the same data and the same scale, no decoder can tell them
  apart, and \<open>mx_dequant_bf16\<close> turns both into \<open>896.0\<close>.\<close>

theorem mx_quant_forgets_scale:
  "(unat count \<le> 2 ^ 32 - 8 \<and> unat count \<le> length input \<and> unat count \<le> length data \<and>
      (unat count + 7) div 8 \<le> length scales \<longrightarrow>
    (\<exists>data' scales'. mx_quant_to_bf16 input data scales count = Some (data', scales') \<and>
      length data' = length data \<and> length scales' = length scales \<and>
      (\<forall>j. scales' ! j = (if j < (unat count + 7) div 8 then scale_byte input (unat count) j else scales ! j)))) \<and>
   mx_quant_to_bf16 [f32_one] [0] [0] 1 = Some ([0x43E0], [64]) \<and>
   mx_quant_to_bf16 [f32_448] [0] [0] 1 = Some ([0x43E0], [64]) \<and>
   mx_dequant_bf16 [0x43E0] [64] [0] 1 = Some [0x44600000]"
proof -
  have "mx_quant_step [f32_one] [0] [0] 1 0 = Some ([0x43E0], [64])" by code_simp
  moreover have "mx_quant_step [f32_448] [0] [0] 1 0 = Some ([0x43E0], [64])" by code_simp
  moreover have "mx_dequant_bf16 [0x43E0] [64] [0] 1 = Some [0x44600000]" by code_simp
  moreover have "\<not> (8::u32) < 1" by simp
  moreover have "\<exists>data' scales'. mx_quant_to_bf16 input data scales count = Some (data', scales') \<and>
      length data' = length data \<and> length scales' = length scales \<and>
      (\<forall>j. scales' ! j = (if j < (unat count + 7) div 8 then scale_byte input (unat count) j else scales ! j))"
    if "unat count \<le> 2 ^ 32 - 8" "unat count \<le> length input" "unat count \<le> length data"
      "(unat count + 7) div 8 \<le> length scales"
    using mx_quant_loop_spec[of 0 0, OF _ that] unfolding mx_quant_to_bf16_def by auto
  ultimately show ?thesis
    by (simp add: mx_quant_to_bf16_def mx_quant_loop.simps[of _ _ _ _ 0] mx_quant_loop.simps[of _ _ _ _ 8])
qed

theorem mx_quant_forgets_scale_witness:
  "\<exists>data' scales'. mx_quant_to_bf16 [f32_one, 0] [0, 0] [7] 2 = Some (data', scales') \<and> scales' ! 0 = 64"
proof -
  have "scale_byte [f32_one, 0] 2 0 = 64" by code_simp
  then show ?thesis
    using mx_quant_forgets_scale[of 2 "[f32_one, 0]" "[0, 0]" "[7]"] by auto
qed

end
