(* ===== verification/Attention.thy ===== *)
theory Attention
  imports Mx
begin

text \<open>
  The CPU attention kernel (\<open>userspace/compute/ace_attention.c\<close>): feature probe, the scalar
  reference path, the AVX-512 path and the entry point that selects one. A BF16 pointer is a view
  (element number to value, \<open>None\<close> outside the memory it points into), the output is a list with
  checked stores; the stack space of the \<open>scores\<close> arrays is not modelled. \<open>expf\<close> of the C library and the two vector instructions are parameters.
\<close>

type_synonym bf16_view = "nat \<Rightarrow> bf16 option"

datatype kllm_isa_level = ISA_NONE | ISA_AVX512_BF16 | ISA_AMX_BF16 | ISA_ACE_BF16

definition kllm_ace_probe :: "u32 \<Rightarrow> u32 \<Rightarrow> kllm_isa_level \<Rightarrow> kllm_isa_level" where
  "kllm_ace_probe eax_7_1 edx_7_0 g_isa_level =
    (let g = (if eax_7_1 AND push_bit 5 1 \<noteq> 0 then ISA_AVX512_BF16 else g_isa_level)
     in if edx_7_0 AND push_bit 22 1 \<noteq> 0 then ISA_AMX_BF16 else g)"

record kllm_attention_params =
  ap_num_heads :: u32
  ap_head_dim :: u32
  ap_seq_len :: u32
  ap_query_len :: u32
  ap_scale :: f32

definition f32_minus_inf :: f32 where "f32_minus_inf = 0xFF800000"

section \<open>Scalar path\<close>

text \<open>Offset of the vector of position \<open>i\<close> and head \<open>h\<close>, in 32-bit arithmetic.\<close>

definition vec_off :: "kllm_attention_params \<Rightarrow> nat \<Rightarrow> nat \<Rightarrow> nat" where
  "vec_off p i h = unat ((of_nat i * ap_num_heads p + of_nat h) * ap_head_dim p)"

fun attn_dot :: "bf16_view \<Rightarrow> nat \<Rightarrow> bf16_view \<Rightarrow> nat \<Rightarrow> f32 \<Rightarrow> nat list \<Rightarrow> f32 option" where
  "attn_dot q qo k ko dot [] = Some dot"
| "attn_dot q qo k ko dot (d # ds) = do {
     a \<leftarrow> q (qo + d);
     b \<leftarrow> k (ko + d);
     attn_dot q qo k ko (f32_add dot (f32_mul (bf16_to_f32 a) (bf16_to_f32 b))) ds }"

definition score_scalar :: "kllm_attention_params \<Rightarrow> bf16_view \<Rightarrow> nat \<Rightarrow> bf16_view \<Rightarrow> nat \<Rightarrow> f32 option" where
  "score_scalar p q qo k ko = do {
     dot \<leftarrow> attn_dot q qo k ko 0 [0..<unat (ap_head_dim p)];
     Some (f32_mul dot (ap_scale p)) }"

type_synonym score_fn = "kllm_attention_params \<Rightarrow> bf16_view \<Rightarrow> nat \<Rightarrow> bf16_view \<Rightarrow> nat \<Rightarrow> f32 option"

fun attn_scores :: "score_fn \<Rightarrow> kllm_attention_params \<Rightarrow> bf16_view \<Rightarrow> nat \<Rightarrow> bf16_view \<Rightarrow> nat \<Rightarrow>
    f32 list \<Rightarrow> f32 \<Rightarrow> nat list \<Rightarrow> (f32 list \<times> f32) option" where
  "attn_scores sc p q qo k h scores max_score [] = Some (scores, max_score)"
| "attn_scores sc p q qo k h scores max_score (si # sis) = do {
     s \<leftarrow> sc p q qo k (vec_off p si h);
     attn_scores sc p q qo k h (scores @ [s]) (if f32_gt s max_score then s else max_score) sis }"

definition attn_softmax :: "(f32 \<Rightarrow> f32) \<Rightarrow> f32 list \<Rightarrow> f32 \<Rightarrow> f32 list" where
  "attn_softmax expf scores max_score =
    (let es = map (\<lambda>s. expf (f32_sub s max_score)) scores;
         sum = foldl f32_add 0 es
     in map (\<lambda>e. f32_div e sum) es)"

fun attn_weighted :: "kllm_attention_params \<Rightarrow> bf16_view \<Rightarrow> nat \<Rightarrow> nat \<Rightarrow> f32 \<Rightarrow> (nat \<times> f32) list \<Rightarrow> f32 option" where
  "attn_weighted p v h d acc [] = Some acc"
| "attn_weighted p v h d acc ((si, w) # ws) = do {
     x \<leftarrow> v (vec_off p si h + d);
     attn_weighted p v h d (f32_add acc (f32_mul w (bf16_to_f32 x))) ws }"

fun attn_store :: "kllm_attention_params \<Rightarrow> bf16_view \<Rightarrow> nat \<Rightarrow> f32 list \<Rightarrow> nat \<Rightarrow> bf16 list \<Rightarrow> nat list \<Rightarrow>
    bf16 list option" where
  "attn_store p v h weights oo out [] = Some out"
| "attn_store p v h weights oo out (d # ds) = do {
     acc \<leftarrow> attn_weighted p v h d 0 (enumerate 0 weights);
     out' \<leftarrow> arr_set out (oo + d) (f32_to_bf16 acc);
     attn_store p v h weights oo out' ds }"

definition attn_row :: "score_fn \<Rightarrow> (f32 \<Rightarrow> f32) \<Rightarrow> kllm_attention_params \<Rightarrow> bf16_view \<Rightarrow> bf16_view \<Rightarrow> bf16_view \<Rightarrow>
    bf16 list \<Rightarrow> nat \<Rightarrow> nat \<Rightarrow> bf16 list option" where
  "attn_row sc expf p q k v out h qi = do {
     (scores, max_score) \<leftarrow>
       attn_scores sc p q (vec_off p qi h) k h [] f32_minus_inf [0..<unat (ap_seq_len p)];
     attn_store p v h (attn_softmax expf scores max_score) (vec_off p qi h) out
       [0..<unat (ap_head_dim p)] }"

fun attn_rows :: "score_fn \<Rightarrow> (f32 \<Rightarrow> f32) \<Rightarrow> kllm_attention_params \<Rightarrow> bf16_view \<Rightarrow> bf16_view \<Rightarrow> bf16_view \<Rightarrow>
    bf16 list \<Rightarrow> (nat \<times> nat) list \<Rightarrow> bf16 list option" where
  "attn_rows sc expf p q k v out [] = Some out"
| "attn_rows sc expf p q k v out ((h, qi) # rows) = do {
     out' \<leftarrow> attn_row sc expf p q k v out h qi;
     attn_rows sc expf p q k v out' rows }"

definition head_rows :: "kllm_attention_params \<Rightarrow> (nat \<times> nat) list" where
  "head_rows p = List.product [0..<unat (ap_num_heads p)] [0..<unat (ap_query_len p)]"

definition attention_scalar :: "(f32 \<Rightarrow> f32) \<Rightarrow> bf16_view \<Rightarrow> bf16_view \<Rightarrow> bf16_view \<Rightarrow> bf16 list \<Rightarrow>
    kllm_attention_params \<Rightarrow> bf16 list option" where
  "attention_scalar expf q k v out p = attn_rows score_scalar expf p q k v out (head_rows p)"

section \<open>AVX-512 path\<close>

record avx_ops =
  mm512_dpbf16_ps :: "f32 list \<Rightarrow> bf16 list \<Rightarrow> bf16 list \<Rightarrow> f32 list"
  mm512_reduce_add_ps :: "f32 list \<Rightarrow> f32"

definition load32 :: "bf16_view \<Rightarrow> nat \<Rightarrow> bf16 list option" where
  "load32 v off = those (map (\<lambda>i. v (off + i)) [0..<32])"

text \<open>The chunk loop \<open>for (; d + 32 <= head_dim; d += 32)\<close> with its 32-bit counter, which wraps: \<open>None\<close> is
  a load outside the memory or a loop that does not end.\<close>

partial_function (option) avx_chunks :: "avx_ops \<Rightarrow> bf16_view \<Rightarrow> nat \<Rightarrow> bf16_view \<Rightarrow> nat \<Rightarrow> u32 \<Rightarrow> f32 list \<Rightarrow> u32 \<Rightarrow>
    (f32 list \<times> u32) option" where
  "avx_chunks ops q qo k ko head_dim acc d =
    (if d + 32 \<le> head_dim then do {
       a \<leftarrow> load32 q (qo + unat d);
       b \<leftarrow> load32 k (ko + unat d);
       avx_chunks ops q qo k ko head_dim (mm512_dpbf16_ps ops acc a b) (d + 32) }
     else Some (acc, d))"

fun avx_remainder :: "kllm_attention_params \<Rightarrow> bf16_view \<Rightarrow> nat \<Rightarrow> bf16_view \<Rightarrow> nat \<Rightarrow> f32 \<Rightarrow> nat list \<Rightarrow> f32 option" where
  "avx_remainder p q qo k ko s [] = Some s"
| "avx_remainder p q qo k ko s (d # ds) = do {
     a \<leftarrow> q (qo + d);
     b \<leftarrow> k (ko + d);
     avx_remainder p q qo k ko
       (f32_add s (f32_mul (f32_mul (bf16_to_f32 a) (bf16_to_f32 b)) (ap_scale p))) ds }"

definition score_avx512 :: "avx_ops \<Rightarrow> score_fn" where
  "score_avx512 ops p q qo k ko = do {
     (acc, d) \<leftarrow> avx_chunks ops q qo k ko (ap_head_dim p) (replicate 16 0) 0;
     avx_remainder p q qo k ko (f32_mul (mm512_reduce_add_ps ops acc) (ap_scale p))
       [unat d..<unat (ap_head_dim p)] }"

definition attention_avx512_bf16 :: "avx_ops \<Rightarrow> (f32 \<Rightarrow> f32) \<Rightarrow> bf16_view \<Rightarrow> bf16_view \<Rightarrow> bf16_view \<Rightarrow>
    bf16 list \<Rightarrow> kllm_attention_params \<Rightarrow> bf16 list option" where
  "attention_avx512_bf16 ops expf q k v out p = attn_rows (score_avx512 ops) expf p q k v out (head_rows p)"

section \<open>Selection\<close>

text \<open>The preprocessor symbols of the build.\<close>

record build_flags =
  have_amx_bf16 :: bool
  have_avx512bf16 :: bool

definition attention_amx_bf16 :: "build_flags \<Rightarrow> avx_ops \<Rightarrow> (f32 \<Rightarrow> f32) \<Rightarrow> bf16_view \<Rightarrow> bf16_view \<Rightarrow> bf16_view \<Rightarrow>
    bf16 list \<Rightarrow> kllm_attention_params \<Rightarrow> bf16 list option" where
  "attention_amx_bf16 bf ops expf q k v out p =
    (if have_avx512bf16 bf then attention_avx512_bf16 ops expf q k v out p
     else attention_scalar expf q k v out p)"

definition select_attention :: "build_flags \<Rightarrow> kllm_isa_level \<Rightarrow> avx_ops \<Rightarrow> (f32 \<Rightarrow> f32) \<Rightarrow> bf16_view \<Rightarrow>
    bf16_view \<Rightarrow> bf16_view \<Rightarrow> bf16 list \<Rightarrow> kllm_attention_params \<Rightarrow> bf16 list option" where
  "select_attention bf isa ops expf q k v out p =
    (if have_amx_bf16 bf \<and> (isa = ISA_ACE_BF16 \<or> isa = ISA_AMX_BF16)
     then attention_amx_bf16 bf ops expf q k v out p
     else if have_avx512bf16 bf \<and> isa = ISA_AVX512_BF16
     then attention_avx512_bf16 ops expf q k v out p
     else attention_scalar expf q k v out p)"

text \<open>The entry point; a null pointer is \<open>None\<close>, the outer \<open>None\<close> a fault.\<close>

definition kllm_ace_attention :: "build_flags \<Rightarrow> kllm_isa_level \<Rightarrow> avx_ops \<Rightarrow> (f32 \<Rightarrow> f32) \<Rightarrow> bf16_view option \<Rightarrow>
    bf16_view option \<Rightarrow> bf16_view option \<Rightarrow> bf16 list option \<Rightarrow> kllm_attention_params option \<Rightarrow>
    (int \<times> bf16 list option) option" where
  "kllm_ace_attention bf isa ops expf q k v output params =
    (case (q, k, v, output, params) of
       (Some q, Some k, Some v, Some out, Some p) \<Rightarrow>
         if ap_head_dim p = 0 \<or> ap_seq_len p = 0 \<or> ap_num_heads p = 0 then Some (- 1, output)
         else do {
           out' \<leftarrow> select_attention bf isa ops expf q k v out p;
           Some (0, Some out') }
     | _ \<Rightarrow> Some (- 1, output))"

section \<open>Bounds\<close>

definition attn_fits :: "kllm_attention_params \<Rightarrow> bool" where
  "attn_fits p \<longleftrightarrow> unat (ap_seq_len p) * unat (ap_num_heads p) * unat (ap_head_dim p) < 2 ^ 32 \<and>
     unat (ap_query_len p) * unat (ap_num_heads p) * unat (ap_head_dim p) < 2 ^ 32"

definition view_upto :: "bf16_view \<Rightarrow> nat \<Rightarrow> bool" where
  "view_upto v n \<longleftrightarrow> (\<forall>i < n. v i \<noteq> None)"

lemma row_bound:
  fixes i n h m d D :: nat
  assumes "i < n" "h < m" "d < D"
  shows "(i * m + h) * D + d < n * m * D"
proof -
  have "i * m + h < n * m"
    using assms(1,2) mult_le_mono1[of "Suc i" n m] by simp
  then have "Suc (i * m + h) * D \<le> n * m * D" by (intro mult_le_mono1) simp
  with assms(3) show ?thesis by simp
qed

lemma vec_off_exact:
  assumes "i < n" "h < unat (ap_num_heads p)" "n * unat (ap_num_heads p) * unat (ap_head_dim p) < 2 ^ 32"
    "0 < unat (ap_head_dim p)"
  shows "vec_off p i h = (i * unat (ap_num_heads p) + h) * unat (ap_head_dim p)"
proof -
  have lt: "(i * unat (ap_num_heads p) + h) * unat (ap_head_dim p) < 2 ^ 32"
    using less_trans[OF row_bound[OF assms(1,2,4)] assms(3)] by simp
  have "(of_nat i * ap_num_heads p + of_nat h) * ap_head_dim p =
      of_nat ((i * unat (ap_num_heads p) + h) * unat (ap_head_dim p))"
    by simp
  then show ?thesis using lt by (simp only: vec_off_def unat_of_nat) simp
qed

lemma attn_dot_total:
  "\<lbrakk>\<forall>d \<in> set ds. q (qo + d) \<noteq> None; \<forall>d \<in> set ds. k (ko + d) \<noteq> None\<rbrakk> \<Longrightarrow> \<exists>r. attn_dot q qo k ko acc ds = Some r"
  by (induction ds arbitrary: acc) fastforce+

lemma those_total: "(\<forall>x \<in> set xs. x \<noteq> None) \<Longrightarrow> \<exists>ys. those xs = Some ys"
  by (induction xs) (auto split: option.splits)

lemma load32_total: "\<forall>i < 32. v (off + i) \<noteq> None \<Longrightarrow> \<exists>ys. load32 v off = Some ys"
  unfolding load32_def by (auto intro!: those_total)

text \<open>Below \<open>2^32 - 32\<close> the counter does not wrap and the loop stops at a position of the vector.\<close>

lemma avx_chunks_total:
  assumes "unat D < 2 ^ 32 - 32" "unat d \<le> unat D" "\<forall>i < unat D. q (qo + i) \<noteq> None \<and> k (ko + i) \<noteq> None"
  shows "\<exists>acc' d'. avx_chunks ops q qo k ko D acc d = Some (acc', d') \<and> unat d' \<le> unat D"
  using assms(2)
proof (induction "unat D - unat d" arbitrary: acc d rule: less_induct)
  case less
  have nx: "unat (d + 32) = unat d + 32" using less.prems assms(1) by (subst unat_add_lem[THEN iffD1]) simp_all
  show ?case
  proof (cases "d + 32 \<le> D")
    case False
    then show ?thesis using less.prems by (simp add: avx_chunks.simps[of ops q qo k ko D acc d])
  next
    case True
    then have le: "unat d + 32 \<le> unat D" using nx by (simp add: word_le_nat_alt)
    obtain a b where ab: "load32 q (qo + unat d) = Some a" "load32 k (ko + unat d) = Some b"
      using load32_total[of q "qo + unat d"] load32_total[of k "ko + unat d"] le assms(3) by (auto simp: add.assoc)
    have "avx_chunks ops q qo k ko D acc d = avx_chunks ops q qo k ko D (mm512_dpbf16_ps ops acc a b) (d + 32)"
      using True ab by (simp add: avx_chunks.simps[of ops q qo k ko D acc d])
    then show ?thesis using less.hyps[of "d + 32" "mm512_dpbf16_ps ops acc a b"] nx le by simp
  qed
qed

text \<open>From \<open>2^32 - 32\<close> on the counter wraps to zero: the loop reads past the vector or runs for ever.\<close>

lemma chunk_counter_wraps:
  fixes D d :: u32
  assumes "2 ^ 32 - 32 \<le> unat D" "32 dvd unat d"
  shows "d + 32 \<le> D \<and> 32 dvd unat (d + 32)"
proof -
  have w: "unat (d + 32) = (unat d + 32) mod 2 ^ 32" by (simp add: unat_word_ariths)
  have "32 dvd unat d + 32" using assms(2) by simp
  then have dv: "32 dvd unat (d + 32)" unfolding w by (simp add: dvd_mod)
  then obtain c where c: "unat (d + 32) = 32 * c" by (elim dvdE)
  then have "c < 2 ^ 27" using unsigned_less[of "d + 32", where ?'a = nat] by simp
  then have "unat (d + 32) \<le> 2 ^ 32 - 32" using c by simp
  with dv assms(1) show ?thesis by (simp add: word_le_nat_alt)
qed

lemma avx_chunks_diverges:
  assumes "2 ^ 32 - 32 \<le> unat D" "32 dvd unat d"
  shows "avx_chunks ops q qo k ko D acc d = None"
proof -
  have "2 ^ 32 - 32 \<le> unat D \<longrightarrow> \<not> 32 dvd unat d" if "avx_chunks ops q qo k ko D acc d = Some r" for r
  proof (rule avx_chunks.raw_induct[where P = "\<lambda>ops q qo k ko D acc d r. 2 ^ 32 - 32 \<le> unat D \<longrightarrow> \<not> 32 dvd unat d", OF _ that])
    fix f :: "avx_ops \<Rightarrow> bf16_view \<Rightarrow> nat \<Rightarrow> bf16_view \<Rightarrow> nat \<Rightarrow> u32 \<Rightarrow> f32 list \<Rightarrow> u32 \<Rightarrow> (f32 list \<times> u32) option"
      and ops q qo k ko D acc d r
    assume ih: "\<And>ops q qo k ko D acc d r. f ops q qo k ko D acc d = Some r \<Longrightarrow> 2 ^ 32 - 32 \<le> unat D \<longrightarrow> \<not> 32 dvd unat d"
      and body: "(if d + 32 \<le> D then do {
         a \<leftarrow> load32 q (qo + unat d);
         b \<leftarrow> load32 k (ko + unat d);
         f ops q qo k ko D (mm512_dpbf16_ps ops acc a b) (d + 32) }
       else Some (acc, d)) = Some r"
    show "2 ^ 32 - 32 \<le> unat D \<longrightarrow> \<not> 32 dvd unat d"
    proof (intro impI notI)
      assume D: "2 ^ 32 - 32 \<le> unat D" and d: "32 dvd unat d"
      note nx = chunk_counter_wraps[OF D d]
      then obtain a b where "f ops q qo k ko D (mm512_dpbf16_ps ops acc a b) (d + 32) = Some r"
        using body by (auto split: Option.bind_splits)
      from ih[OF this] nx D show False by simp
    qed
  qed
  then show ?thesis using assms by (cases "avx_chunks ops q qo k ko D acc d") auto
qed

lemma avx_remainder_total:
  "\<lbrakk>\<forall>d \<in> set ds. q (qo + d) \<noteq> None; \<forall>d \<in> set ds. k (ko + d) \<noteq> None\<rbrakk> \<Longrightarrow>
    \<exists>r. avx_remainder p q qo k ko s ds = Some r"
  by (induction ds arbitrary: s) fastforce+

text \<open>A score function that reads only the two vectors.\<close>

definition score_reads :: "score_fn \<Rightarrow> kllm_attention_params \<Rightarrow> bool" where
  "score_reads sc p \<longleftrightarrow> (\<forall>q qo k ko. (\<forall>d < unat (ap_head_dim p). q (qo + d) \<noteq> None \<and> k (ko + d) \<noteq> None) \<longrightarrow>
     sc p q qo k ko \<noteq> None)"

lemma score_scalar_reads: "score_reads score_scalar p"
  unfolding score_reads_def
proof (intro allI impI)
  fix q k :: bf16_view and qo ko
  assume "\<forall>d < unat (ap_head_dim p). q (qo + d) \<noteq> None \<and> k (ko + d) \<noteq> None"
  then have "\<exists>r. attn_dot q qo k ko 0 [0..<unat (ap_head_dim p)] = Some r"
    by (intro attn_dot_total) auto
  then show "score_scalar p q qo k ko \<noteq> None" by (auto simp: score_scalar_def)
qed

lemma score_avx512_reads:
  assumes "unat (ap_head_dim p) < 2 ^ 32 - 32"
  shows "score_reads (score_avx512 ops) p"
  unfolding score_reads_def
proof (intro allI impI)
  fix q k :: bf16_view and qo ko
  let ?D = "unat (ap_head_dim p)"
  assume a: "\<forall>d < ?D. q (qo + d) \<noteq> None \<and> k (ko + d) \<noteq> None"
  obtain acc d where acc: "avx_chunks ops q qo k ko (ap_head_dim p) (replicate 16 0) 0 = Some (acc, d)"
    using avx_chunks_total[OF assms _ a, of 0 ops "replicate 16 0"] by auto
  have "\<exists>r. avx_remainder p q qo k ko s [unat d..<?D] = Some r" for s
    using a by (intro avx_remainder_total) auto
  then show "score_avx512 ops p q qo k ko \<noteq> None" by (auto simp: score_avx512_def acc)
qed

lemma score_avx512_diverges: "2 ^ 32 - 32 \<le> unat (ap_head_dim p) \<Longrightarrow> score_avx512 ops p q qo k ko = None"
  by (simp add: score_avx512_def avx_chunks_diverges)

lemma attn_scores_total:
  assumes "score_reads sc p" "\<forall>d < unat (ap_head_dim p). q (qo + d) \<noteq> None"
    and "\<forall>si \<in> set sis. \<forall>d < unat (ap_head_dim p). k (vec_off p si h + d) \<noteq> None"
  shows "\<exists>r m. attn_scores sc p q qo k h scores mx sis = Some (scores @ r, m) \<and> length r = length sis"
  using assms(3)
proof (induction sis arbitrary: scores mx)
  case (Cons si sis)
  then have "sc p q qo k (vec_off p si h) \<noteq> None"
    using assms(1,2) unfolding score_reads_def by simp
  then obtain s where s: "sc p q qo k (vec_off p si h) = Some s" by blast
  from Cons.IH[of "scores @ [s]" "if f32_gt s mx then s else mx"] Cons.prems
  show ?case by (auto simp: s intro!: exI[of _ "s # _"])
qed simp

lemma attn_weighted_total:
  "\<forall>x \<in> set ws. v (vec_off p (fst x) h + d) \<noteq> None \<Longrightarrow> \<exists>r. attn_weighted p v h d acc ws = Some r"
  by (induction p v h d acc ws rule: attn_weighted.induct) fastforce+

lemma attn_store_total:
  assumes "\<forall>si < length ws. \<forall>d < unat (ap_head_dim p). v (vec_off p si h + d) \<noteq> None"
    and "\<forall>d \<in> set ds. d < unat (ap_head_dim p) \<and> oo + d < length out"
  shows "\<exists>out'. attn_store p v h ws oo out ds = Some out' \<and> length out' = length out"
  using assms(2)
proof (induction ds arbitrary: out)
  case (Cons d ds)
  have "\<forall>x \<in> set (enumerate 0 ws). v (vec_off p (fst x) h + d) \<noteq> None"
    using assms(1) Cons.prems by (auto simp: set_zip enumerate_eq_zip)
  then obtain acc where "attn_weighted p v h d 0 (enumerate 0 ws) = Some acc"
    using attn_weighted_total by blast
  with Cons.prems Cons.IH[of "out[oo + d := f32_to_bf16 acc]"] show ?case by (simp add: fault_simps)
qed simp

lemma length_attn_softmax [simp]: "length (attn_softmax expf scores m) = length scores"
  by (simp add: attn_softmax_def Let_def)

text \<open>What a call may read and write: the whole query, key and value tensors and the output.\<close>

definition attn_memory :: "kllm_attention_params \<Rightarrow> bf16_view \<Rightarrow> bf16_view \<Rightarrow> bf16_view \<Rightarrow> bf16 list \<Rightarrow> bool" where
  "attn_memory p q k v out \<longleftrightarrow>
     view_upto q (unat (ap_query_len p) * unat (ap_num_heads p) * unat (ap_head_dim p)) \<and>
     view_upto k (unat (ap_seq_len p) * unat (ap_num_heads p) * unat (ap_head_dim p)) \<and>
     view_upto v (unat (ap_seq_len p) * unat (ap_num_heads p) * unat (ap_head_dim p)) \<and>
     unat (ap_query_len p) * unat (ap_num_heads p) * unat (ap_head_dim p) \<le> length out"

lemma vec_elem:
  assumes "n * unat (ap_num_heads p) * unat (ap_head_dim p) < 2 ^ 32"
    and "i < n" "h < unat (ap_num_heads p)" "d < unat (ap_head_dim p)"
  shows "vec_off p i h + d < n * unat (ap_num_heads p) * unat (ap_head_dim p)"
  using vec_off_exact[OF assms(2,3,1)] row_bound[OF assms(2-4)] assms(4) by simp

lemma attn_row_total:
  assumes "attn_fits p" "attn_memory p q k v out" "score_reads sc p"
    and "h < unat (ap_num_heads p)" "qi < unat (ap_query_len p)"
  shows "\<exists>out'. attn_row sc expf p q k v out h qi = Some out' \<and> length out' = length out"
proof -
  let ?N = "unat (ap_seq_len p)" and ?D = "unat (ap_head_dim p)"
  have qe: "vec_off p qi h + d < unat (ap_query_len p) * unat (ap_num_heads p) * ?D" if "d < ?D" for d
    using vec_elem assms that by (simp add: attn_fits_def)
  have ke: "vec_off p si h + d < ?N * unat (ap_num_heads p) * ?D" if "d < ?D" "si < ?N" for d si
    using vec_elem assms that by (simp add: attn_fits_def)
  obtain r m where r: "attn_scores sc p q (vec_off p qi h) k h [] f32_minus_inf [0..<?N] = Some (r, m)"
    "length r = ?N"
    using attn_scores_total[OF assms(3), of q "vec_off p qi h" "[0..<?N]" k h "[]" f32_minus_inf]
      assms(2) qe ke by (auto simp: attn_memory_def view_upto_def)
  have "\<exists>out'. attn_store p v h (attn_softmax expf r m) (vec_off p qi h) out [0..<?D] = Some out' \<and>
      length out' = length out"
    using assms(2) qe ke r(2)
    by (intro attn_store_total) (auto simp: attn_memory_def view_upto_def intro: less_le_trans[OF qe])
  with r(1) show ?thesis by (simp add: attn_row_def)
qed

lemma attn_rows_total:
  assumes "attn_fits p" "score_reads sc p"
  shows "\<lbrakk>attn_memory p q k v out; \<forall>(h, qi) \<in> set rows. h < unat (ap_num_heads p) \<and> qi < unat (ap_query_len p)\<rbrakk> \<Longrightarrow>
    \<exists>out'. attn_rows sc expf p q k v out rows = Some out' \<and> length out' = length out"
proof (induction rows arbitrary: out)
  case (Cons row rows)
  obtain h qi where row: "row = (h, qi)" "h < unat (ap_num_heads p)" "qi < unat (ap_query_len p)"
    using Cons.prems(2) by (cases row) auto
  obtain out1 where out1: "attn_row sc expf p q k v out h qi = Some out1" "length out1 = length out"
    using attn_row_total[OF assms(1) Cons.prems(1) assms(2) row(2,3)] by blast
  then have "attn_memory p q k v out1" using Cons.prems(1) by (simp add: attn_memory_def)
  from Cons.IH[OF this] Cons.prems(2) out1 row(1) show ?case by auto
qed simp

text \<open>Whether the build and the detected features select the vector path.\<close>

definition avx_selected :: "build_flags \<Rightarrow> kllm_isa_level \<Rightarrow> bool" where
  "avx_selected bf isa \<longleftrightarrow> have_avx512bf16 bf \<and>
     (isa = ISA_AVX512_BF16 \<or> have_amx_bf16 bf \<and> (isa = ISA_ACE_BF16 \<or> isa = ISA_AMX_BF16))"

lemma select_attention_path:
  "select_attention bf isa ops expf q k v out p =
    attn_rows (if avx_selected bf isa then score_avx512 ops else score_scalar) expf p q k v out (head_rows p)"
  by (auto simp: select_attention_def attention_amx_bf16_def attention_scalar_def attention_avx512_bf16_def avx_selected_def)

lemma select_attention_total:
  assumes "attn_fits p" "attn_memory p q k v out" "avx_selected bf isa \<longrightarrow> unat (ap_head_dim p) < 2 ^ 32 - 32"
  shows "\<exists>out'. select_attention bf isa ops expf q k v out p = Some out' \<and> length out' = length out"
proof -
  have "\<forall>(h, qi) \<in> set (head_rows p). h < unat (ap_num_heads p) \<and> qi < unat (ap_query_len p)"
    by (auto simp: head_rows_def)
  moreover have "score_reads (if avx_selected bf isa then score_avx512 ops else score_scalar) p"
    using score_scalar_reads score_avx512_reads assms(3) by simp
  ultimately show ?thesis unfolding select_attention_path using attn_rows_total[OF assms(1) _ assms(2)] by blast
qed

lemma select_attention_diverges:
  assumes "avx_selected bf isa" "2 ^ 32 - 32 \<le> unat (ap_head_dim p)"
    and "ap_num_heads p \<noteq> 0" "ap_query_len p \<noteq> 0" "ap_seq_len p \<noteq> 0"
  shows "select_attention bf isa ops expf q k v out p = None"
proof -
  have pos: "0 < unat (ap_num_heads p)" "0 < unat (ap_query_len p)" "0 < unat (ap_seq_len p)"
    using assms(3-5) by (simp_all add: unat_gt_0)
  then obtain rows where "head_rows p = (0, 0) # rows" by (simp add: head_rows_def upt_conv_Cons)
  moreover have "attn_scores (score_avx512 ops) p q qo k h ss m [0..<unat (ap_seq_len p)] = None" for qo h ss m
    using pos(3) score_avx512_diverges[OF assms(2)] by (simp add: upt_conv_Cons)
  ultimately show ?thesis unfolding select_attention_path using assms(1) by (simp add: attn_row_def)
qed

section \<open>Attention over one position\<close>

lemma f32_mul_one: "f32_finite w \<Longrightarrow> f32_mul f32_one w = w"
  using f32_mul_finite[of f32_one w] f32_isD[OF f32_is_one] f32_is_one f32_round_exact_frac[of w "2 ^ 149" "f32_sign w"]
  by (simp add: f32_is_def mult.commute)

lemma f32_zero_parts [simp]: "\<not> f32_is_nan 0" "\<not> f32_is_inf 0" "\<not> f32_sign 0" "f32_scaled 0 = 0"
  by (simp_all add: f32_is_nan_def f32_is_inf_def f32_sign_def f32_mag_def f32_scaled_def f32_scaled_mag_def)

lemma f32_scaled_mag_pos: "f32_mag w \<noteq> 0 \<Longrightarrow> 0 < f32_scaled_mag w"
proof -
  assume nz: "f32_mag w \<noteq> 0"
  obtain e m where em: "f32_mag w = e * 0x800000 + m" "0 \<le> e" "0 \<le> m" "m < 0x800000"
    "f32_scaled_mag w = (if e = 0 then m else (m + 0x800000) * 2 ^ nat (e - 1))"
    by (rule f32_mag_split)
  then show ?thesis using nz by auto
qed

lemma f32_add_zero: "f32_finite w \<Longrightarrow> f32_mag w \<noteq> 0 \<Longrightarrow> f32_add 0 w = w"
  using f32_scaled_mag_pos[of w] f32_round_exact[of w] f32_make_mag[of w]
  by (cases "f32_sign w")
    (simp_all add: f32_add_def f32_finite_def f32_is_nan_def[of w] f32_is_inf_def[of w] f32_scaled_def[of w] Let_def
      del: f32_make_mag)

lemma f32_add_zero_zero: "f32_mag w = 0 \<Longrightarrow> f32_add 0 w = 0"
  by (simp add: f32_add_def f32_is_nan_def[of w] f32_is_inf_def[of w] f32_scaled_def[of w]
      f32_scaled_mag_zero Let_def f32_make_def)

lemma f32_sub_self: "f32_finite w \<Longrightarrow> f32_sub w w = 0"
  by (simp add: f32_sub_def f32_add_def f32_finite_def f32_is_nan_def f32_is_inf_def f32_scaled_def
      f32_scaled_mag_def[of "f32_neg w"] flip: f32_scaled_mag_def)
    (simp add: f32_make_def)

lemma f32_one_over_one: "f32_div f32_one (f32_add 0 f32_one) = f32_one"
  by code_simp

lemma softmax_single:
  assumes "expf 0 = f32_one" "f32_finite s"
  shows "attn_softmax expf [s] s = [f32_one]"
  using assms by (simp add: attn_softmax_def f32_sub_self f32_one_over_one)

lemma finite_above_minus_inf: "f32_finite s \<Longrightarrow> f32_gt s f32_minus_inf"
proof -
  assume fin: "f32_finite s"
  have m: "f32_mag f32_minus_inf = 0x7F800000" "f32_sign f32_minus_inf"
    by (simp_all add: f32_mag_def f32_sign_def f32_minus_inf_def)
  show ?thesis
    using fin order_less_le_trans[OF _ f32_mag_bounds(1)[of s], of "- 0x7F800000"]
    by (simp add: f32_gt_def f32_is_nan_def f32_key_def m f32_finite_def)
qed

text \<open>The value that comes out for a value \<open>x\<close> that goes in: the same, a negative zero loses its
  sign.\<close>

definition bf16_norm :: "bf16 \<Rightarrow> bf16" where
  "bf16_norm x = (if x = 0x8000 then 0 else x)"

lemma weight_one:
  assumes "bf16_finite x"
  shows "f32_to_bf16 (f32_add 0 (f32_mul f32_one (bf16_to_f32 x))) = bf16_norm x"
proof -
  have fin: "f32_finite (bf16_to_f32 x)" using bf16_is[OF assms] by (simp add: f32_is_def)
  show ?thesis
  proof (cases "f32_mag (bf16_to_f32 x) = 0")
    case True
    have "f32_make (f32_sign (bf16_to_f32 x)) 0 = bf16_to_f32 x"
      using f32_make_mag[of "bf16_to_f32 x"] unfolding True .
    moreover have "f32_make s 0 = (if s then 0x80000000 else 0)" for s by (simp add: f32_make_def)
    ultimately have "bf16_to_f32 x = 0 \<or> bf16_to_f32 x = 0x80000000" by metis
    then have "uint (bf16_to_f32 x) = 0 \<or> uint (bf16_to_f32 x) = 0x80000000" by auto
    then have "uint x = uint (0::bf16) \<or> uint x = uint (0x8000::bf16)" unfolding uint_bf16_to_f32 by auto
    then have "x = 0 \<or> x = 0x8000" by (simp only: word_uint_eq_iff[symmetric])
    moreover have "f32_to_bf16 0 = 0" by code_simp
    ultimately show ?thesis using True fin by (auto simp: bf16_norm_def f32_mul_one f32_add_zero_zero)
  next
    case False
    then have "x \<noteq> 0x8000" by (auto simp: f32_mag_def uint_bf16_to_f32)
    with False fin show ?thesis
      by (simp add: f32_mul_one f32_add_zero bf16_norm_def bf16_undo)
  qed
qed

lemma attn_store_single:
  assumes "\<forall>d \<in> set ds. v (vec_off p 0 h + d) = Some (x d) \<and> bf16_finite (x d) \<and> oo + d < length out" "distinct ds"
  shows "\<exists>out'. attn_store p v h [f32_one] oo out ds = Some out' \<and> length out' = length out \<and>
    (\<forall>j < length out. out' ! j = (if oo \<le> j \<and> j - oo \<in> set ds then bf16_norm (x (j - oo)) else out ! j))"
  using assms
proof (induction ds arbitrary: out)
  case (Cons d ds)
  let ?o = "out[oo + d := bf16_norm (x d)]"
  have "attn_store p v h [f32_one] oo out (d # ds) = attn_store p v h [f32_one] oo ?o ds"
    using Cons.prems(1) by (simp add: fault_simps weight_one)
  moreover obtain out' where "attn_store p v h [f32_one] oo ?o ds = Some out'" "length out' = length out"
    "\<forall>j < length out. out' ! j = (if oo \<le> j \<and> j - oo \<in> set ds then bf16_norm (x (j - oo)) else ?o ! j)"
    using Cons.IH[of ?o] Cons.prems by auto
  ultimately show ?case using Cons.prems(2) by (auto simp: nth_list_update)
qed simp

lemma attn_row_single:
  assumes "expf 0 = f32_one" "ap_seq_len p = 1" "sc p q (vec_off p 0 h) k (vec_off p 0 h) = Some s" "f32_finite s"
  shows "attn_row sc expf p q k v out h 0 =
    attn_store p v h [f32_one] (vec_off p 0 h) out [0..<unat (ap_head_dim p)]"
  using assms softmax_single[where expf = expf, OF assms(1,4)] finite_above_minus_inf[OF assms(4)]
  by (simp add: attn_row_def)

lemma attn_rows_single:
  fixes x :: "nat \<Rightarrow> bf16"
  assumes "expf 0 = f32_one" "ap_seq_len p = 1" "0 < unat (ap_head_dim p)"
    and "unat (ap_num_heads p) * unat (ap_head_dim p) < 2 ^ 32"
    and sc: "\<forall>h < unat (ap_num_heads p). \<exists>s. sc p q (vec_off p 0 h) k (vec_off p 0 h) = Some s \<and> f32_finite s"
    and v: "\<forall>i < unat (ap_num_heads p) * unat (ap_head_dim p). v i = Some (x i) \<and> bf16_finite (x i)"
    and "unat (ap_num_heads p) * unat (ap_head_dim p) \<le> length out"
  shows "n \<le> unat (ap_num_heads p) \<Longrightarrow> \<exists>out'. attn_rows sc expf p q k v out (map (\<lambda>h. (h, 0)) [0..<n]) = Some out' \<and>
    length out' = length out \<and> (\<forall>i < n * unat (ap_head_dim p). out' ! i = bf16_norm (x i))"
proof (induction n)
  case (Suc n)
  let ?D = "unat (ap_head_dim p)"
  obtain out1 where out1: "attn_rows sc expf p q k v out (map (\<lambda>h. (h, 0)) [0..<n]) = Some out1"
    "length out1 = length out" "\<forall>i < n * ?D. out1 ! i = bf16_norm (x i)"
    using Suc by auto
  have off: "vec_off p 0 n = n * ?D"
    using vec_off_exact[of 0 1 n p] Suc.prems assms(3,4) by simp
  have le: "n * ?D + ?D \<le> unat (ap_num_heads p) * ?D"
    using mult_le_mono1[OF Suc.prems, of ?D] by simp
  obtain s where "sc p q (vec_off p 0 n) k (vec_off p 0 n) = Some s" "f32_finite s"
    using sc[rule_format, of n] Suc.prems by auto
  note row = attn_row_single[where expf = expf and sc = sc and p = p and q = q and k = k and h = n and v = v and out = out1, OF assms(1,2) this]
  have "\<forall>d \<in> set [0..<?D]. v (vec_off p 0 n + d) = Some (x (n * ?D + d)) \<and> bf16_finite (x (n * ?D + d)) \<and>
      n * ?D + d < length out1"
    using v le assms(7) out1(2) by (simp add: off)
  from attn_store_single[OF this] obtain out2 where out2:
    "attn_store p v n [f32_one] (n * ?D) out1 [0..<?D] = Some out2" "length out2 = length out"
    "\<forall>j < length out. out2 ! j = (if n * ?D \<le> j \<and> j - n * ?D < ?D then bf16_norm (x j) else out1 ! j)"
    using out1(2) by auto
  have app: "attn_rows sc expf p q k v out (xs @ [(h, qi)]) =
      Option.bind (attn_rows sc expf p q k v out xs) (\<lambda>o'. attn_row sc expf p q k v o' h qi)" for xs h qi out
    by (induction xs arbitrary: out) (auto simp: Option.bind_assoc)
  have "attn_rows sc expf p q k v out (map (\<lambda>h. (h, 0)) [0..<Suc n]) = Some out2"
    using out1(1) row out2(1) by (simp add: app off)
  moreover have "\<forall>i < Suc n * ?D. out2 ! i = bf16_norm (x i)"
    using out2(3) out1(3) le assms(7) by auto
  ultimately show ?case using out2(2) by blast
qed simp

section \<open>Properties\<close>

text \<open>C13: memory safety of \<open>kllm_ace_attention\<close> on every path. Take query, key and value tensors of
  the stated sizes, an output that has room for the query, and products that fit in 32 bits. A zero
  dimension gives -1 and leaves the output as it was. Otherwise no access leaves the tensors and the
  call returns 0, with one exception: when the vector path is selected and \<open>head_dim\<close> is at least
  \<open>2^32 - 32\<close>, the counter of its chunk loop wraps to zero and the call, for a non-empty query, reads
  past the vectors or never returns. (The stack space of the \<open>scores\<close> arrays is not part of the model.)\<close>

theorem ace_attention_safe:
  assumes "attn_fits p" "attn_memory p q k v out"
  shows "if ap_head_dim p = 0 \<or> ap_seq_len p = 0 \<or> ap_num_heads p = 0
    then kllm_ace_attention bf isa ops expf (Some q) (Some k) (Some v) (Some out) (Some p) = Some (- 1, Some out)
    else if avx_selected bf isa \<and> 2 ^ 32 - 32 \<le> unat (ap_head_dim p) \<and> ap_query_len p \<noteq> 0
    then kllm_ace_attention bf isa ops expf (Some q) (Some k) (Some v) (Some out) (Some p) = None
    else \<exists>out'. kllm_ace_attention bf isa ops expf (Some q) (Some k) (Some v) (Some out) (Some p) = Some (0, Some out') \<and>
      length out' = length out"
proof -
  let ?sel = "select_attention bf isa ops expf q k v out p"
  have product_nil: "List.product xs [] = ([] :: (nat \<times> nat) list)" for xs :: "nat list" by (induction xs) simp_all
  have "?sel = None" if "avx_selected bf isa" "2 ^ 32 - 32 \<le> unat (ap_head_dim p)" "ap_query_len p \<noteq> 0"
      "ap_seq_len p \<noteq> 0" "ap_num_heads p \<noteq> 0"
    by (rule select_attention_diverges[OF that(1,2,5,3,4)])
  moreover have "\<exists>out'. ?sel = Some out' \<and> length out' = length out"
    if "\<not> (avx_selected bf isa \<and> 2 ^ 32 - 32 \<le> unat (ap_head_dim p))"
    using that by (intro select_attention_total[OF assms]) (simp add: not_le)
  moreover have "?sel = Some out" if "ap_query_len p = 0"
    using that product_nil by (simp add: select_attention_path head_rows_def)
  ultimately show ?thesis by (auto simp: kllm_ace_attention_def)
qed

definition sample_attn :: kllm_attention_params where
  "sample_attn = \<lparr>ap_num_heads = 1, ap_head_dim = 2, ap_seq_len = 1, ap_query_len = 1, ap_scale = f32_one\<rparr>"

definition sample_avx :: avx_ops where
  "sample_avx = \<lparr>mm512_dpbf16_ps = (\<lambda>acc a b. acc), mm512_reduce_add_ps = (\<lambda>acc. foldl f32_add 0 acc)\<rparr>"

lemma sample_attn_fields:
  "ap_num_heads sample_attn = 1" "ap_head_dim sample_attn = 2" "ap_seq_len sample_attn = 1" "ap_query_len sample_attn = 1"
  by (simp_all add: sample_attn_def)

definition sample_bf16_vec :: "bf16 list" where "sample_bf16_vec = [0x3F80, 0xC000]"

theorem ace_attention_safe_witness:
  "\<exists>out'. kllm_ace_attention \<lparr>have_amx_bf16 = False, have_avx512bf16 = True\<rparr> ISA_AVX512_BF16 sample_avx (\<lambda>_. f32_one)
     (Some (arr_get sample_bf16_vec)) (Some (arr_get sample_bf16_vec)) (Some (arr_get sample_bf16_vec))
     (Some [0, 0]) (Some sample_attn) = Some (0, Some out') \<and> length out' = 2"
proof -
  have "attn_memory sample_attn (arr_get sample_bf16_vec) (arr_get sample_bf16_vec) (arr_get sample_bf16_vec) [0, 0]"
    by (auto simp: attn_memory_def view_upto_def sample_attn_def sample_bf16_vec_def arr_get_def)
  moreover have "attn_fits sample_attn" by (simp add: attn_fits_def sample_attn_def)
  moreover have "ap_head_dim sample_attn \<noteq> 0" "ap_seq_len sample_attn \<noteq> 0" "ap_num_heads sample_attn \<noteq> 0"
    "\<not> 2 ^ 32 - 32 \<le> unat (ap_head_dim sample_attn)"
    by (simp_all add: sample_attn_def)
  ultimately show ?thesis
    using ace_attention_safe[of sample_attn "arr_get sample_bf16_vec" "arr_get sample_bf16_vec"
        "arr_get sample_bf16_vec" "[0, 0]" "\<lparr>have_amx_bf16 = False, have_avx512bf16 = True\<rparr>" ISA_AVX512_BF16 sample_avx]
    by fastforce
qed

text \<open>C37: attention over a single cached position returns that position's value vector. For a C
  library whose \<open>expf(0)\<close> is \<open>1.0\<close>, finite scores and finite values, the softmax weight is exactly one
  and the scalar path copies \<open>V\<close> to the output bit for bit (a negative zero becomes a positive one).\<close>

theorem attention_single_token:
  assumes "expf 0 = f32_one" "ap_seq_len p = 1" "ap_query_len p = 1" "0 < unat (ap_head_dim p)"
    and "unat (ap_num_heads p) * unat (ap_head_dim p) < 2 ^ 32"
    and "\<forall>h < unat (ap_num_heads p). \<exists>s. score_scalar p q (vec_off p 0 h) k (vec_off p 0 h) = Some s \<and> f32_finite s"
    and "\<forall>i < unat (ap_num_heads p) * unat (ap_head_dim p). v i = Some (x i) \<and> bf16_finite (x i)"
    and "unat (ap_num_heads p) * unat (ap_head_dim p) \<le> length out"
  shows "\<exists>out'. attention_scalar expf q k v out p = Some out' \<and> length out' = length out \<and>
    (\<forall>i < unat (ap_num_heads p) * unat (ap_head_dim p). out' ! i = bf16_norm (x i))"
proof -
  have "List.product xs [0::nat] = map (\<lambda>h. (h, 0)) xs" for xs :: "nat list" by (induction xs) auto
  then have "head_rows p = map (\<lambda>h. (h, 0)) [0..<unat (ap_num_heads p)]"
    using assms(3) by (simp add: head_rows_def)
  then show ?thesis
    using attn_rows_single[where sc = score_scalar and expf = expf and x = x and v = v, OF assms(1,2,4-8), of "unat (ap_num_heads p)"]
    by (simp add: attention_scalar_def)
qed

theorem attention_single_token_witness:
  "\<exists>out'. attention_scalar (\<lambda>_. f32_one) (arr_get sample_bf16_vec) (arr_get sample_bf16_vec) (arr_get sample_bf16_vec)
     [0, 0] sample_attn = Some out' \<and> out' = [0x3F80, 0xC000]"
proof -
  have "score_scalar sample_attn (arr_get sample_bf16_vec) (vec_off sample_attn 0 0) (arr_get sample_bf16_vec)
      (vec_off sample_attn 0 0) = Some 0x40A00000" "f32_finite 0x40A00000"
    by code_simp+
  moreover have "bf16_finite 0x3F80" "bf16_finite 0xC000" "bf16_norm 0x3F80 = 0x3F80" "bf16_norm 0xC000 = 0xC000"
    by code_simp+
  ultimately obtain out' where out': "attention_scalar (\<lambda>_. f32_one) (arr_get sample_bf16_vec) (arr_get sample_bf16_vec)
      (arr_get sample_bf16_vec) [0, 0] sample_attn = Some out'" "length out' = 2" "out' ! 0 = 0x3F80" "out' ! 1 = 0xC000"
    using attention_single_token[of "\<lambda>_. f32_one" sample_attn "arr_get sample_bf16_vec" "arr_get sample_bf16_vec"
        "arr_get sample_bf16_vec" "\<lambda>i. sample_bf16_vec ! i" "[0, 0]"]
    by (auto simp: sample_attn_fields sample_bf16_vec_def arr_get_def less_2_cases_iff)
  from out'(2) have "out' = [out' ! 0, out' ! 1]" by (simp add: list_eq_iff_nth_eq less_2_cases_iff nth_Cons')
  then show ?thesis using out' by metis
qed

end
