(* ===== verification/Trace.thy ===== *)
theory Trace
  imports Kllm_Prelude "HOL-Library.AList"
begin

text \<open>
  The eBPF latency tracer (\<open>bpf/kllm_trace.bpf.c\<close>): per-request state in a bounded hash map keyed
  by process id, events in a ring buffer, per-CPU statistics. The clock readings, the current
  process, the CPU and whether the ring buffer has room are arguments of the handlers. Array
  accesses are checked; \<open>None\<close> would be an access outside an array.
\<close>

datatype kllm_trace_stage =
  STAGE_CHARDEV_WRITE | STAGE_TOKENIZE_START | STAGE_TOKENIZE_END | STAGE_RING_PRODUCE
  | STAGE_REACTOR_CONSUME | STAGE_DISPATCH_DECIDE | STAGE_CACHE_LOOKUP | STAGE_ATTENTION_START
  | STAGE_ATTENTION_END | STAGE_SAMPLE | STAGE_RESPONSE_EMIT | STAGE_GPU_SUBMIT
  | STAGE_GPU_COMPLETE | STAGE_EOS

fun stage_code :: "kllm_trace_stage \<Rightarrow> u32" where
  "stage_code STAGE_CHARDEV_WRITE = 0"
| "stage_code STAGE_TOKENIZE_START = 1"
| "stage_code STAGE_TOKENIZE_END = 2"
| "stage_code STAGE_RING_PRODUCE = 3"
| "stage_code STAGE_REACTOR_CONSUME = 4"
| "stage_code STAGE_DISPATCH_DECIDE = 5"
| "stage_code STAGE_CACHE_LOOKUP = 6"
| "stage_code STAGE_ATTENTION_START = 7"
| "stage_code STAGE_ATTENTION_END = 8"
| "stage_code STAGE_SAMPLE = 9"
| "stage_code STAGE_RESPONSE_EMIT = 10"
| "stage_code STAGE_GPU_SUBMIT = 11"
| "stage_code STAGE_GPU_COMPLETE = 12"
| "stage_code STAGE_EOS = 13"

definition KLLM_STAGE_MAX :: u32 where "KLLM_STAGE_MAX = 14"
definition KLLM_MAX_TRACKED :: nat where "KLLM_MAX_TRACKED = 1024"

record kllm_trace_event =
  ev_timestamp_ns :: u64
  ev_request_id :: u32
  ev_stage :: u32
  ev_seq_len :: u32
  ev_token_count :: u32
  ev_latency_ns :: u64

record kllm_request_trace =
  rt_stage_ts :: "u64 list"
  rt_last_stage :: u32
  rt_seq_len :: u32

record kllm_trace_stats =
  st_total_requests :: u64
  st_total_tokens :: u64
  st_total_latency_ns :: u64
  st_max_latency_ns :: u64
  st_stage_totals :: "u64 list"

record trace_maps =
  trace_events :: "kllm_trace_event list"
  request_state :: "(u32 \<times> kllm_request_trace) list"
  global_stats :: "nat \<Rightarrow> kllm_trace_stats"

text \<open>\<open>bpf_map_update_elem\<close> with \<open>BPF_ANY\<close>: a new key needs room in the map.\<close>

definition bpf_map_update :: "u32 \<Rightarrow> kllm_request_trace \<Rightarrow> (u32 \<times> kllm_request_trace) list \<Rightarrow>
    (u32 \<times> kllm_request_trace) list" where
  "bpf_map_update k v m =
    (if map_of m k \<noteq> None \<or> length m < KLLM_MAX_TRACKED then AList.update k v m else m)"

text \<open>The in-flight part of \<open>emit_trace\<close>: the latency since the last stage and the updated entry.\<close>

definition touch_request :: "u64 \<Rightarrow> u32 \<Rightarrow> u32 \<Rightarrow> kllm_request_trace \<Rightarrow> (u64 \<times> kllm_request_trace) option" where
  "touch_request now stage seq_len rt = do {
     delta \<leftarrow> (if rt_last_stage rt < KLLM_STAGE_MAX
              then do { t \<leftarrow> arr_get (rt_stage_ts rt) (unat (rt_last_stage rt)); Some (now - t) }
              else Some 0);
     ts \<leftarrow> (if stage < KLLM_STAGE_MAX then arr_set (rt_stage_ts rt) (unat stage) now
           else Some (rt_stage_ts rt));
     Some (delta, rt\<lparr>rt_stage_ts := ts, rt_last_stage := stage, rt_seq_len := seq_len\<rparr>) }"

definition emit_trace :: "u64 \<Rightarrow> nat \<Rightarrow> bool \<Rightarrow> u32 \<Rightarrow> u32 \<Rightarrow> u32 \<Rightarrow> u32 \<Rightarrow> trace_maps \<Rightarrow> trace_maps option" where
  "emit_trace now cpu reserve_ok request_id stage seq_len token_count m = do {
     (delta, m) \<leftarrow> (case map_of (request_state m) request_id of
        None \<Rightarrow> Some (0, m)
      | Some rt \<Rightarrow> do {
          (delta, rt') \<leftarrow> touch_request now stage seq_len rt;
          Some (delta, m\<lparr>request_state := AList.update request_id rt' (request_state m)\<rparr>) });
     if \<not> reserve_ok then Some m
     else do {
       m \<leftarrow> Some (m\<lparr>trace_events := trace_events m @
         [\<lparr>ev_timestamp_ns = now, ev_request_id = request_id, ev_stage = stage, ev_seq_len = seq_len,
           ev_token_count = token_count, ev_latency_ns = delta\<rparr>]\<rparr>);
       if stage < KLLM_STAGE_MAX then do {
         total \<leftarrow> arr_get (st_stage_totals (global_stats m cpu)) (unat stage);
         totals \<leftarrow> arr_set (st_stage_totals (global_stats m cpu)) (unat stage) (total + delta);
         Some (m\<lparr>global_stats := (global_stats m)(cpu := (global_stats m cpu)\<lparr>st_stage_totals := totals\<rparr>)\<rparr>) }
       else Some m } }"

definition start_request :: "u64 \<Rightarrow> nat \<Rightarrow> u32 \<Rightarrow> trace_maps \<Rightarrow> trace_maps option" where
  "start_request now cpu request_id m = do {
     ts \<leftarrow> arr_set (replicate (unat KLLM_STAGE_MAX) 0) (unat (stage_code STAGE_CHARDEV_WRITE)) now;
     let rt = \<lparr>rt_stage_ts = ts, rt_last_stage = stage_code STAGE_CHARDEV_WRITE, rt_seq_len = 0\<rparr>;
         st = global_stats m cpu
     in Some (m\<lparr>request_state := bpf_map_update request_id rt (request_state m),
         global_stats := (global_stats m)(cpu := st\<lparr>st_total_requests := st_total_requests st + 1\<rparr>)\<rparr>) }"

definition end_request :: "u64 \<Rightarrow> nat \<Rightarrow> u32 \<Rightarrow> trace_maps \<Rightarrow> trace_maps option" where
  "end_request now cpu request_id m = do {
     m \<leftarrow> (case map_of (request_state m) request_id of
        None \<Rightarrow> Some m
      | Some rt \<Rightarrow> do {
          t \<leftarrow> arr_get (rt_stage_ts rt) (unat (stage_code STAGE_CHARDEV_WRITE));
          let total = now - t;
              st = (global_stats m cpu)\<lparr>st_total_latency_ns := st_total_latency_ns (global_stats m cpu) + total\<rparr>;
              st = (if total > st_max_latency_ns st then st\<lparr>st_max_latency_ns := total\<rparr> else st)
          in Some (m\<lparr>global_stats := (global_stats m)(cpu := st)\<rparr>) });
     Some (m\<lparr>request_state := AList.delete request_id (request_state m)\<rparr>) }"

section \<open>Probe handlers\<close>

text \<open>The context of a probe: process, CPU, room in the ring buffer, and the clock readings its
  handler takes in order.\<close>

record probe_ctx =
  pc_pid :: u32
  pc_cpu :: nat
  pc_reserve :: bool
  pc_t1 :: u64
  pc_t2 :: u64

definition trace_chardev_write :: "probe_ctx \<Rightarrow> u64 \<Rightarrow> trace_maps \<Rightarrow> trace_maps option" where
  "trace_chardev_write c count m = do {
     m \<leftarrow> start_request (pc_t1 c) (pc_cpu c) (pc_pid c) m;
     emit_trace (pc_t2 c) (pc_cpu c) (pc_reserve c) (pc_pid c) (stage_code STAGE_CHARDEV_WRITE) 0 (ucast count) m }"

definition trace_chardev_write_exit :: "probe_ctx \<Rightarrow> trace_maps \<Rightarrow> trace_maps option" where
  "trace_chardev_write_exit c m =
    emit_trace (pc_t1 c) (pc_cpu c) (pc_reserve c) (pc_pid c) (stage_code STAGE_TOKENIZE_END) 0 0 m"

definition trace_reactor_consume :: "probe_ctx \<Rightarrow> trace_maps \<Rightarrow> trace_maps option" where
  "trace_reactor_consume c m =
    emit_trace (pc_t1 c) (pc_cpu c) (pc_reserve c) (pc_pid c) (stage_code STAGE_REACTOR_CONSUME) 0 0 m"

definition trace_dispatch_decide :: "probe_ctx \<Rightarrow> trace_maps \<Rightarrow> trace_maps option" where
  "trace_dispatch_decide c m =
    emit_trace (pc_t1 c) (pc_cpu c) (pc_reserve c) (pc_pid c) (stage_code STAGE_DISPATCH_DECIDE) 0 0 m"

definition trace_attention_start :: "probe_ctx \<Rightarrow> trace_maps \<Rightarrow> trace_maps option" where
  "trace_attention_start c m =
    emit_trace (pc_t1 c) (pc_cpu c) (pc_reserve c) (pc_pid c) (stage_code STAGE_ATTENTION_START) 0 0 m"

definition trace_attention_end :: "probe_ctx \<Rightarrow> trace_maps \<Rightarrow> trace_maps option" where
  "trace_attention_end c m =
    emit_trace (pc_t1 c) (pc_cpu c) (pc_reserve c) (pc_pid c) (stage_code STAGE_ATTENTION_END) 0 0 m"

definition trace_response_emit :: "probe_ctx \<Rightarrow> trace_maps \<Rightarrow> trace_maps option" where
  "trace_response_emit c m =
    (let st = global_stats m (pc_cpu c)
     in emit_trace (pc_t1 c) (pc_cpu c) (pc_reserve c) (pc_pid c) (stage_code STAGE_RESPONSE_EMIT) 0 1
          (m\<lparr>global_stats := (global_stats m)(pc_cpu c := st\<lparr>st_total_tokens := st_total_tokens st + 1\<rparr>)\<rparr>))"

definition trace_eos :: "probe_ctx \<Rightarrow> trace_maps \<Rightarrow> trace_maps option" where
  "trace_eos c m = do {
     m \<leftarrow> emit_trace (pc_t1 c) (pc_cpu c) (pc_reserve c) (pc_pid c) (stage_code STAGE_EOS) 0 0 m;
     end_request (pc_t2 c) (pc_cpu c) (pc_pid c) m }"

datatype probe_event = PWrite u64 | PWriteExit | PConsume | PDecide | PAttnStart | PAttnEnd | PEmit | PEos

fun probe_handler :: "probe_event \<Rightarrow> probe_ctx \<Rightarrow> trace_maps \<Rightarrow> trace_maps option" where
  "probe_handler (PWrite n) c m = trace_chardev_write c n m"
| "probe_handler PWriteExit c m = trace_chardev_write_exit c m"
| "probe_handler PConsume c m = trace_reactor_consume c m"
| "probe_handler PDecide c m = trace_dispatch_decide c m"
| "probe_handler PAttnStart c m = trace_attention_start c m"
| "probe_handler PAttnEnd c m = trace_attention_end c m"
| "probe_handler PEmit c m = trace_response_emit c m"
| "probe_handler PEos c m = trace_eos c m"

fun probe_run :: "(probe_event \<times> probe_ctx) list \<Rightarrow> trace_maps \<Rightarrow> trace_maps option" where
  "probe_run [] m = Some m"
| "probe_run ((e, c) # es) m = do { m' \<leftarrow> probe_handler e c m; probe_run es m' }"

section \<open>Well-formed maps\<close>

definition rt_wf :: "kllm_request_trace \<Rightarrow> bool" where
  "rt_wf rt \<longleftrightarrow> length (rt_stage_ts rt) = 14 \<and> rt_last_stage rt < 14"

definition trace_wf :: "trace_maps \<Rightarrow> bool" where
  "trace_wf m \<longleftrightarrow> (\<forall>k rt. map_of (request_state m) k = Some rt \<longrightarrow> rt_wf rt) \<and>
     length (request_state m) \<le> KLLM_MAX_TRACKED \<and> (\<forall>cpu. length (st_stage_totals (global_stats m cpu)) = 14)"

lemma trace_wfD:
  assumes "trace_wf m"
  shows "map_of (request_state m) k = Some rt \<Longrightarrow> rt_wf rt" "length (request_state m) \<le> KLLM_MAX_TRACKED"
    "length (st_stage_totals (global_stats m cpu)) = 14"
  using assms unfolding trace_wf_def by blast+

lemma stage_bound [simp]: "stage_code s < 14" "unat (stage_code s) < 14"
  by (cases s; simp)+

definition last_time :: "kllm_request_trace \<Rightarrow> u64" where
  "last_time rt = rt_stage_ts rt ! unat (rt_last_stage rt)"

lemma touch_request_spec:
  assumes "rt_wf rt" "stage < 14"
  obtains rt' where "touch_request now stage seq_len rt = Some (now - last_time rt, rt')" "rt_wf rt'"
    "last_time rt' = now" "stage \<noteq> 0 \<Longrightarrow> rt_stage_ts rt' ! 0 = rt_stage_ts rt ! 0"
proof -
  let ?rt = "rt\<lparr>rt_stage_ts := (rt_stage_ts rt)[unat stage := now], rt_last_stage := stage, rt_seq_len := seq_len\<rparr>"
  have b: "unat (rt_last_stage rt) < 14" "unat stage < 14"
    using assms by (simp_all add: rt_wf_def word_less_nat_alt)
  have "touch_request now stage seq_len rt = Some (now - last_time rt, ?rt)"
    using assms b by (simp add: touch_request_def rt_wf_def KLLM_STAGE_MAX_def last_time_def fault_simps)
  moreover have "rt_wf ?rt" using assms by (simp add: rt_wf_def)
  moreover have "last_time ?rt = now" using assms b by (simp add: last_time_def rt_wf_def)
  moreover have "stage \<noteq> 0 \<Longrightarrow> rt_stage_ts ?rt ! 0 = rt_stage_ts rt ! 0" by (simp add: unat_eq_0)
  ultimately show thesis by (rule that)
qed

lemma length_alist_update: "map_of xs k \<noteq> None \<Longrightarrow> length (AList.update k v xs) = length xs"
  by (induction xs) (auto split: if_splits)

lemma length_alist_update_le: "length (AList.update k v xs) \<le> Suc (length xs)"
  by (induction xs) auto

text \<open>What \<open>emit_trace\<close> does to everything a later handler can see.\<close>

definition emitted :: "u64 \<Rightarrow> bool \<Rightarrow> u32 \<Rightarrow> trace_maps \<Rightarrow> trace_maps \<Rightarrow> bool" where
  "emitted now reserve_ok rid m m' \<longleftrightarrow> trace_wf m' \<and>
     (\<forall>k. k \<noteq> rid \<longrightarrow> map_of (request_state m') k = map_of (request_state m) k) \<and>
     (map_of (request_state m) rid = None \<longrightarrow> map_of (request_state m') rid = None) \<and>
     (\<forall>rt. map_of (request_state m) rid = Some rt \<longrightarrow>
        (\<exists>rt'. map_of (request_state m') rid = Some rt' \<and> last_time rt' = now)) \<and>
     (\<forall>cpu. st_total_latency_ns (global_stats m' cpu) = st_total_latency_ns (global_stats m cpu)) \<and>
     (\<exists>ev. trace_events m' = trace_events m @ (if reserve_ok then [ev] else []) \<and> ev_request_id ev = rid \<and>
        (\<forall>rt. map_of (request_state m) rid = Some rt \<longrightarrow> ev_latency_ns ev = now - last_time rt))"

lemma emit_trace_spec:
  assumes wf: "trace_wf m" and st: "stage < 14"
  shows "\<exists>m'. emit_trace now cpu reserve_ok rid stage seq_len tc m = Some m' \<and> emitted now reserve_ok rid m m'"
proof -
  define d where "d = (case map_of (request_state m) rid of None \<Rightarrow> 0 | Some rt \<Rightarrow> now - last_time rt)"
  obtain rs where rs: "(case map_of (request_state m) rid of
        None \<Rightarrow> Some (0, m)
      | Some rt \<Rightarrow> do { (delta, rt') \<leftarrow> touch_request now stage seq_len rt;
          Some (delta, m\<lparr>request_state := AList.update rid rt' (request_state m)\<rparr>) }) = Some (d, m\<lparr>request_state := rs\<rparr>)"
    "\<forall>k. k \<noteq> rid \<longrightarrow> map_of rs k = map_of (request_state m) k" "length rs = length (request_state m)"
    "case map_of (request_state m) rid of None \<Rightarrow> map_of rs rid = None
      | Some rt \<Rightarrow> (\<exists>rt'. map_of rs rid = Some rt' \<and> last_time rt' = now \<and> rt_wf rt')"
  proof (cases "map_of (request_state m) rid")
    case None
    then show thesis using that[of "request_state m"] by (simp add: d_def)
  next
    case (Some rt)
    obtain rt' where rt': "touch_request now stage seq_len rt = Some (now - last_time rt, rt')" "rt_wf rt'"
      "last_time rt' = now"
      using touch_request_spec[OF trace_wfD(1)[OF wf Some] st] by blast
    show thesis
      using that[of "AList.update rid rt' (request_state m)"] Some rt'
      by (simp add: d_def update_conv' length_alist_update)
  qed
  have wf1: "\<forall>k rt. map_of rs k = Some rt \<longrightarrow> rt_wf rt" "length rs \<le> KLLM_MAX_TRACKED"
  proof (intro allI impI)
    fix k rt assume k: "map_of rs k = Some rt"
    show "rt_wf rt"
    proof (cases "k = rid")
      case True
      then show ?thesis using k rs(4) by (cases "map_of (request_state m) rid") auto
    next
      case False
      then show ?thesis using k rs(2) trace_wfD(1)[OF wf] by simp
    qed
  qed (simp add: rs(3) trace_wfD(2)[OF wf])
  have rid: "map_of (request_state m) rid = None \<longrightarrow> map_of rs rid = None"
    "\<forall>rt. map_of (request_state m) rid = Some rt \<longrightarrow> (\<exists>rt'. map_of rs rid = Some rt' \<and> last_time rt' = now)"
    using rs(4) by (auto split: option.splits)
  have lat: "\<forall>rt. map_of (request_state m) rid = Some rt \<longrightarrow> d = now - last_time rt" by (simp add: d_def)
  have len: "\<And>c. length (st_stage_totals (global_stats m c)) = 14" by (rule trace_wfD(3)[OF wf])
  have u: "unat stage < 14" using st by (simp add: word_less_nat_alt)
  show ?thesis
  proof (cases reserve_ok)
    case False
    have "emit_trace now cpu reserve_ok rid stage seq_len tc m = Some (m\<lparr>request_state := rs\<rparr>)"
      using False by (simp add: emit_trace_def rs(1))
    moreover have "emitted now reserve_ok rid m (m\<lparr>request_state := rs\<rparr>)"
      unfolding emitted_def trace_wf_def using False rs(2) rid wf1 len
      by (auto intro!: exI[of _ "\<lparr>ev_timestamp_ns = 0, ev_request_id = rid, ev_stage = 0, ev_seq_len = 0,
        ev_token_count = 0, ev_latency_ns = d\<rparr>"] simp: lat)
    ultimately show ?thesis by blast
  next
    case True
    let ?ev = "\<lparr>ev_timestamp_ns = now, ev_request_id = rid, ev_stage = stage, ev_seq_len = seq_len,
           ev_token_count = tc, ev_latency_ns = d\<rparr>"
    let ?tot = "(st_stage_totals (global_stats m cpu))[unat stage := st_stage_totals (global_stats m cpu) ! unat stage + d]"
    let ?m = "m\<lparr>request_state := rs, trace_events := trace_events m @ [?ev],
      global_stats := (global_stats m)(cpu := (global_stats m cpu)\<lparr>st_stage_totals := ?tot\<rparr>)\<rparr>"
    have "emit_trace now cpu reserve_ok rid stage seq_len tc m = Some ?m"
      using True st u len by (simp add: emit_trace_def rs(1) KLLM_STAGE_MAX_def fault_simps)
    moreover have "emitted now reserve_ok rid m ?m"
      unfolding emitted_def trace_wf_def using True rs(2) rid wf1 len
      by (auto intro!: exI[of _ ?ev] simp: lat)
    ultimately show ?thesis by blast
  qed
qed

lemma start_request_spec:
  assumes wf: "trace_wf m"
  shows "\<exists>m'. start_request now cpu rid m = Some m' \<and> trace_wf m' \<and> trace_events m' = trace_events m \<and>
    (\<forall>k. k \<noteq> rid \<longrightarrow> map_of (request_state m') k = map_of (request_state m) k) \<and>
    (\<forall>c. st_total_latency_ns (global_stats m' c) = st_total_latency_ns (global_stats m c)) \<and>
    (map_of (request_state m) rid \<noteq> None \<or> length (request_state m) < KLLM_MAX_TRACKED \<longrightarrow>
      (\<exists>rt. map_of (request_state m') rid = Some rt \<and> last_time rt = now))"
proof -
  let ?rt = "\<lparr>rt_stage_ts = (replicate 14 0)[0 := now], rt_last_stage = 0, rt_seq_len = 0\<rparr>"
  let ?rs = "bpf_map_update rid ?rt (request_state m)"
  let ?m = "m\<lparr>request_state := ?rs, global_stats := (global_stats m)(cpu :=
      (global_stats m cpu)\<lparr>st_total_requests := st_total_requests (global_stats m cpu) + 1\<rparr>)\<rparr>"
  have s: "start_request now cpu rid m = Some ?m"
    by (simp add: start_request_def KLLM_STAGE_MAX_def arr_set_def Let_def)
  have len: "length ?rs \<le> KLLM_MAX_TRACKED"
    using trace_wfD(2)[OF wf] length_alist_update[of "request_state m" rid ?rt]
      length_alist_update_le[of rid ?rt "request_state m"]
    by (auto simp: bpf_map_update_def)
  have rt: "rt_wf ?rt" "last_time ?rt = now" by (simp_all add: rt_wf_def last_time_def)
  have "\<forall>k rt. map_of ?rs k = Some rt \<longrightarrow> rt_wf rt"
    using trace_wfD(1)[OF wf] rt(1) by (auto simp: bpf_map_update_def update_conv' split: if_splits)
  then have "trace_wf ?m" unfolding trace_wf_def using len trace_wfD(3)[OF wf] by simp
  moreover have "\<forall>k. k \<noteq> rid \<longrightarrow> map_of ?rs k = map_of (request_state m) k"
    by (simp add: bpf_map_update_def update_conv')
  moreover have "map_of (request_state m) rid \<noteq> None \<or> length (request_state m) < KLLM_MAX_TRACKED \<longrightarrow>
      map_of ?rs rid = Some ?rt"
    by (auto simp: bpf_map_update_def update_conv')
  ultimately show ?thesis using s rt(2) by (intro exI[of _ ?m]) simp
qed

lemma end_request_spec:
  assumes wf: "trace_wf m"
  shows "\<exists>m'. end_request now cpu rid m = Some m' \<and> trace_wf m' \<and> trace_events m' = trace_events m \<and>
    map_of (request_state m') rid = None \<and>
    (\<forall>k. k \<noteq> rid \<longrightarrow> map_of (request_state m') k = map_of (request_state m) k) \<and>
    (map_of (request_state m) rid = None \<longrightarrow> global_stats m' = global_stats m)"
proof -
  have rs: "(\<forall>k rt. map_of (AList.delete rid (request_state m)) k = Some rt \<longrightarrow> rt_wf rt)"
    "length (AList.delete rid (request_state m)) \<le> KLLM_MAX_TRACKED"
    using trace_wfD(1,2)[OF wf] length_delete_le[of rid "request_state m"]
    by (auto simp: delete_conv' split: if_splits)
  show ?thesis
  proof (cases "map_of (request_state m) rid")
    case None
    then show ?thesis using rs wf
      by (simp add: end_request_def trace_wf_def delete_conv')
  next
    case (Some rt)
    then have "length (rt_stage_ts rt) = 14" using trace_wfD(1)[OF wf] by (simp add: rt_wf_def)
    with Some rs wf show ?thesis
      by (simp add: end_request_def trace_wf_def delete_conv' fault_simps Let_def)
  qed
qed

section \<open>Runs\<close>

text \<open>Every handler but the write probe is one emission, followed by the end of the request for
  \<open>PEos\<close>.\<close>

lemma handler_emits:
  assumes "trace_wf m" "\<And>n. e \<noteq> PWrite n" "e \<noteq> PEos"
  shows "\<exists>m'. probe_handler e c m = Some m' \<and> emitted (pc_t1 c) (pc_reserve c) (pc_pid c) m m'"
proof (cases "e = PEmit")
  case True
  let ?st = "global_stats m (pc_cpu c)"
  let ?m = "m\<lparr>global_stats := (global_stats m)(pc_cpu c := ?st\<lparr>st_total_tokens := st_total_tokens ?st + 1\<rparr>)\<rparr>"
  have wf: "trace_wf ?m" using assms(1) unfolding trace_wf_def by simp
  obtain m' where m': "emit_trace (pc_t1 c) (pc_cpu c) (pc_reserve c) (pc_pid c) (stage_code STAGE_RESPONSE_EMIT) 0 1 ?m = Some m'"
    "emitted (pc_t1 c) (pc_reserve c) (pc_pid c) ?m m'"
    using emit_trace_spec[OF wf stage_bound(1)] by blast
  then have "emitted (pc_t1 c) (pc_reserve c) (pc_pid c) m m'" unfolding emitted_def by simp
  with m'(1) True show ?thesis by (simp add: trace_response_emit_def Let_def)
next
  case False
  with assms(2,3) have "\<exists>s sl tc. probe_handler e c m =
      emit_trace (pc_t1 c) (pc_cpu c) (pc_reserve c) (pc_pid c) (stage_code s) sl tc m"
    by (cases e) (simp_all add: trace_chardev_write_exit_def trace_reactor_consume_def trace_dispatch_decide_def
        trace_attention_start_def trace_attention_end_def del: stage_code.simps, blast+)
  then show ?thesis using emit_trace_spec[OF assms(1) stage_bound(1)] by metis
qed

lemma write_handler:
  assumes "trace_wf m"
  shows "\<exists>m1 m'. start_request (pc_t1 c) (pc_cpu c) (pc_pid c) m = Some m1 \<and> trace_wf m1 \<and>
    probe_handler (PWrite n) c m = Some m' \<and> emitted (pc_t2 c) (pc_reserve c) (pc_pid c) m1 m'"
proof -
  obtain m1 where m1: "start_request (pc_t1 c) (pc_cpu c) (pc_pid c) m = Some m1" "trace_wf m1"
    using start_request_spec[OF assms, of "pc_t1 c" "pc_cpu c" "pc_pid c"] by blast
  from emit_trace_spec[OF m1(2) stage_bound(1)[of STAGE_CHARDEV_WRITE]] m1 show ?thesis
    by (fastforce simp: trace_chardev_write_def)
qed

lemma eos_handler:
  assumes "trace_wf m"
  shows "\<exists>m1 m'. emitted (pc_t1 c) (pc_reserve c) (pc_pid c) m m1 \<and>
    end_request (pc_t2 c) (pc_cpu c) (pc_pid c) m1 = Some m' \<and> probe_handler PEos c m = Some m' \<and> trace_wf m'"
proof -
  obtain m1 where m1: "emit_trace (pc_t1 c) (pc_cpu c) (pc_reserve c) (pc_pid c) (stage_code STAGE_EOS) 0 0 m = Some m1"
    "emitted (pc_t1 c) (pc_reserve c) (pc_pid c) m m1"
    using emit_trace_spec[OF assms stage_bound(1)] by blast
  then have "trace_wf m1" unfolding emitted_def by simp
  from end_request_spec[OF this, of "pc_t2 c" "pc_cpu c" "pc_pid c"] m1 show ?thesis
    by (fastforce simp: trace_eos_def)
qed

text \<open>The handlers keep the maps well-formed and never leave an array.\<close>

lemma handler_wf: "trace_wf m \<Longrightarrow> \<exists>m'. probe_handler e c m = Some m' \<and> trace_wf m'"
proof (cases e)
  case (PWrite n)
  assume "trace_wf m"
  with write_handler[of m c n] PWrite show ?thesis unfolding emitted_def by blast
next
  case PEos
  assume "trace_wf m"
  with eos_handler[of m c] PEos show ?thesis by blast
qed (use handler_emits[of m e c] in \<open>auto simp: emitted_def simp del: probe_handler.simps\<close>)

lemma run_wf: "trace_wf m \<Longrightarrow> \<exists>m'. probe_run es m = Some m' \<and> trace_wf m'"
proof (induction es arbitrary: m)
  case (Cons x es)
  obtain e c where x: "x = (e, c)" by (cases x)
  obtain m1 where "probe_handler e c m = Some m1" "trace_wf m1" using handler_wf[OF Cons.prems] by blast
  with Cons.IH[of m1] x show ?case by (simp del: probe_handler.simps)
qed simp

text \<open>The latencies the events report for one request.\<close>

definition latencies :: "u32 \<Rightarrow> kllm_trace_event list \<Rightarrow> u64" where
  "latencies rid evs = sum_list (map ev_latency_ns (filter (\<lambda>e. ev_request_id e = rid) evs))"

text \<open>What may happen while a request of the process \<open>rid\<close> is in flight: anything at all on other
  processes, and on \<open>rid\<close> itself every probe that finds room in the ring buffer and neither starts
  nor ends a request.\<close>

definition mid_request :: "u32 \<Rightarrow> probe_event \<times> probe_ctx \<Rightarrow> bool" where
  "mid_request rid x = (case x of (e, c) \<Rightarrow> pc_pid c = rid \<longrightarrow>
     pc_reserve c \<and> (case e of PWrite _ \<Rightarrow> False | PEos \<Rightarrow> False | _ \<Rightarrow> True))"

text \<open>The time of the last probe of a process in a run, and the start otherwise.\<close>

definition last_probe :: "u32 \<Rightarrow> u64 \<Rightarrow> (probe_event \<times> probe_ctx) list \<Rightarrow> u64" where
  "last_probe rid t es = fold (\<lambda>(e, c) t. if pc_pid c = rid then pc_t1 c else t) es t"

lemma latencies_append: "latencies rid (xs @ ys) = latencies rid xs + latencies rid ys"
  by (simp add: latencies_def)

lemma probe_run_append: "probe_run (xs @ ys) m = do { m' \<leftarrow> probe_run xs m; probe_run ys m' }"
  by (induction xs arbitrary: m) (auto split: Option.bind_splits simp del: probe_handler.simps)

text \<open>An emission for the traced process reports the time since its last stage; one for another
  process changes neither its entry nor its latencies.\<close>

lemma emitted_own:
  assumes "emitted now True rid m m'" "map_of (request_state m) rid = Some rt"
  shows "\<exists>rt'. map_of (request_state m') rid = Some rt' \<and> last_time rt' = now \<and>
    latencies rid (trace_events m') = latencies rid (trace_events m) + (now - last_time rt)"
  using assms unfolding emitted_def by (auto simp: latencies_def)

lemma emitted_foreign:
  assumes "emitted now ok k m m'" "k \<noteq> rid"
  shows "map_of (request_state m') rid = map_of (request_state m) rid"
    "latencies rid (trace_events m') = latencies rid (trace_events m)"
  using assms unfolding emitted_def by (auto simp: latencies_def)

lemma foreign_handler:
  assumes wf: "trace_wf m" and p: "pc_pid c \<noteq> rid"
  shows "\<exists>m'. probe_handler e c m = Some m' \<and> trace_wf m' \<and>
    map_of (request_state m') rid = map_of (request_state m) rid \<and>
    latencies rid (trace_events m') = latencies rid (trace_events m)"
proof -
  consider n where "e = PWrite n" | "e = PEos" | "\<And>n. e \<noteq> PWrite n" "e \<noteq> PEos" by blast
  then show ?thesis
  proof cases
    case 1
    from write_handler[OF wf, of c n] obtain m1 m' where h: "start_request (pc_t1 c) (pc_cpu c) (pc_pid c) m = Some m1"
      "probe_handler (PWrite n) c m = Some m'" "emitted (pc_t2 c) (pc_reserve c) (pc_pid c) m1 m'" by blast
    have s: "trace_events m1 = trace_events m" "map_of (request_state m1) rid = map_of (request_state m) rid"
      using start_request_spec[OF wf, of "pc_t1 c" "pc_cpu c" "pc_pid c"] h(1) p by auto
    have "trace_wf m'" using h(3) by (simp add: emitted_def)
    then show ?thesis using emitted_foreign[OF h(3) p] s h(2) 1 by simp
  next
    case 2
    from eos_handler[OF wf, of c] obtain m1 m' where h: "emitted (pc_t1 c) (pc_reserve c) (pc_pid c) m m1"
      "end_request (pc_t2 c) (pc_cpu c) (pc_pid c) m1 = Some m'" "probe_handler PEos c m = Some m'" "trace_wf m'" by blast
    have "trace_wf m1" using h(1) by (simp add: emitted_def)
    from end_request_spec[OF this, of "pc_t2 c" "pc_cpu c" "pc_pid c"] h(2) p
    have "trace_events m' = trace_events m1" "map_of (request_state m') rid = map_of (request_state m1) rid" by auto
    then show ?thesis using emitted_foreign[OF h(1) p] h(3,4) 2 by simp
  next
    case 3
    from handler_emits[OF wf 3, of c] obtain m' where h: "probe_handler e c m = Some m'"
      "emitted (pc_t1 c) (pc_reserve c) (pc_pid c) m m'" by blast
    have "trace_wf m'" using h(2) by (simp add: emitted_def)
    then show ?thesis using emitted_foreign[OF h(2) p] h(1) by simp
  qed
qed

lemma mid_handler:
  assumes wf: "trace_wf m" and rt: "map_of (request_state m) rid = Some rt" and x: "mid_request rid (e, c)"
  shows "\<exists>m' rt'. probe_handler e c m = Some m' \<and> trace_wf m' \<and> map_of (request_state m') rid = Some rt' \<and>
    last_time rt' = (if pc_pid c = rid then pc_t1 c else last_time rt) \<and>
    latencies rid (trace_events m') = latencies rid (trace_events m) + (last_time rt' - last_time rt)"
proof (cases "pc_pid c = rid")
  case True
  with x have e: "\<And>n. e \<noteq> PWrite n" "e \<noteq> PEos" "pc_reserve c" by (auto simp: mid_request_def)
  obtain m1 where m1: "probe_handler e c m = Some m1" "emitted (pc_t1 c) True rid m m1"
    using handler_emits[OF wf e(1,2), of c] e(3) True by auto
  have "trace_wf m1" using m1(2) by (simp add: emitted_def)
  then show ?thesis using emitted_own[OF m1(2) rt] m1(1) True by auto
next
  case False
  from foreign_handler[OF wf False, of e] rt obtain m' where "probe_handler e c m = Some m'" "trace_wf m'"
    "map_of (request_state m') rid = Some rt" "latencies rid (trace_events m') = latencies rid (trace_events m)" by auto
  then show ?thesis using False by (intro exI[of _ m'] exI[of _ rt]) simp
qed

lemma latencies_telescope:
  assumes "trace_wf m" "map_of (request_state m) rid = Some rt" "\<forall>x \<in> set es. mid_request rid x"
  shows "\<exists>m' rt'. probe_run es m = Some m' \<and> trace_wf m' \<and> map_of (request_state m') rid = Some rt' \<and>
    last_time rt' = last_probe rid (last_time rt) es \<and>
    latencies rid (trace_events m') = latencies rid (trace_events m) + (last_time rt' - last_time rt)"
  using assms
proof (induction es arbitrary: m rt)
  case Nil
  then show ?case by (simp add: last_probe_def)
next
  case (Cons x es)
  obtain e c where x: "x = (e, c)" by (cases x)
  with Cons.prems(3) have "mid_request rid (e, c)" by simp
  from mid_handler[OF Cons.prems(1,2) this] obtain m1 rt1 where
    m1: "probe_handler e c m = Some m1" "trace_wf m1" "map_of (request_state m1) rid = Some rt1"
    "last_time rt1 = (if pc_pid c = rid then pc_t1 c else last_time rt)"
    "latencies rid (trace_events m1) = latencies rid (trace_events m) + (last_time rt1 - last_time rt)" by blast
  have l: "last_probe rid (last_time rt) (x # es) = last_probe rid (last_time rt1) es"
    using m1(4) x by (simp add: last_probe_def)
  from Cons.IH[OF m1(2,3)] Cons.prems(3) obtain m' rt' where
    h: "probe_run es m1 = Some m'" "trace_wf m'" "map_of (request_state m') rid = Some rt'"
    "last_time rt' = last_probe rid (last_time rt1) es"
    "latencies rid (trace_events m') = latencies rid (trace_events m1) + (last_time rt' - last_time rt1)"
    by auto
  have "probe_run (x # es) m = Some m'" using x m1(1) h(1) by (simp del: probe_handler.simps)
  then show ?case unfolding l using h m1(5) by simp
qed

text \<open>The write probe opens the entry, if the map has room, and the end-of-stream probe closes it.\<close>

lemma write_opens:
  assumes wf: "trace_wf m" and c: "pc_pid c = rid" "pc_reserve c"
    and room: "map_of (request_state m) rid \<noteq> None \<or> length (request_state m) < KLLM_MAX_TRACKED"
  shows "\<exists>m' rt. probe_handler (PWrite n) c m = Some m' \<and> trace_wf m' \<and> map_of (request_state m') rid = Some rt \<and>
    last_time rt = pc_t2 c \<and> latencies rid (trace_events m') = latencies rid (trace_events m) + (pc_t2 c - pc_t1 c)"
proof -
  from write_handler[OF wf, of c n] c obtain m1 m' where h: "start_request (pc_t1 c) (pc_cpu c) rid m = Some m1"
    "probe_handler (PWrite n) c m = Some m'" "emitted (pc_t2 c) True rid m1 m'" by auto
  obtain rt where s: "trace_events m1 = trace_events m" "map_of (request_state m1) rid = Some rt" "last_time rt = pc_t1 c"
    using start_request_spec[OF wf, of "pc_t1 c" "pc_cpu c" rid] h(1) room by auto
  have "trace_wf m'" using h(3) by (simp add: emitted_def)
  then show ?thesis using emitted_own[OF h(3) s(2)] s h(2) by auto
qed

lemma eos_closes:
  assumes wf: "trace_wf m" and c: "pc_pid c = rid" "pc_reserve c" and rt: "map_of (request_state m) rid = Some rt"
  shows "\<exists>m'. probe_handler PEos c m = Some m' \<and> trace_wf m' \<and> map_of (request_state m') rid = None \<and>
    latencies rid (trace_events m') = latencies rid (trace_events m) + (pc_t1 c - last_time rt)"
proof -
  from eos_handler[OF wf, of c] c obtain m1 m' where h: "emitted (pc_t1 c) True rid m m1"
    "end_request (pc_t2 c) (pc_cpu c) rid m1 = Some m'" "probe_handler PEos c m = Some m'" "trace_wf m'" by auto
  have "trace_wf m1" using h(1) by (simp add: emitted_def)
  from end_request_spec[OF this, of "pc_t2 c" "pc_cpu c" rid] h(2)
  have "trace_events m' = trace_events m1" "map_of (request_state m') rid = None" by auto
  then show ?thesis using emitted_own[OF h(1) rt] h(3,4) by auto
qed

text \<open>Probes of other processes leave a request alone.\<close>

lemma foreign_probe:
  assumes "trace_wf m" "pc_pid c \<noteq> w" "map_of (request_state m) (pc_pid c) = None" "\<And>n. e \<noteq> PWrite n"
  shows "\<exists>m'. probe_handler e c m = Some m' \<and> trace_wf m' \<and>
    (\<forall>k. map_of (request_state m') k = map_of (request_state m) k) \<and>
    (\<forall>cpu. st_total_latency_ns (global_stats m' cpu) = st_total_latency_ns (global_stats m cpu))"
proof (cases "e = PEos")
  case False
  then obtain m' where "probe_handler e c m = Some m'" "emitted (pc_t1 c) (pc_reserve c) (pc_pid c) m m'"
    using handler_emits[OF assms(1,4)] by blast
  then show ?thesis using assms(3) unfolding emitted_def by metis
next
  case True
  obtain m1 m' where m1: "emitted (pc_t1 c) (pc_reserve c) (pc_pid c) m m1"
    "end_request (pc_t2 c) (pc_cpu c) (pc_pid c) m1 = Some m'" "probe_handler PEos c m = Some m'" "trace_wf m'"
    using eos_handler[OF assms(1)] by blast
  then have wf1: "trace_wf m1" and k: "\<forall>k. map_of (request_state m1) k = map_of (request_state m) k"
    and st: "\<forall>cpu. st_total_latency_ns (global_stats m1 cpu) = st_total_latency_ns (global_stats m cpu)"
    using assms(3) unfolding emitted_def by metis+
  then show ?thesis
    using end_request_spec[OF wf1, of "pc_t2 c" "pc_cpu c" "pc_pid c"] m1 True assms(3)
    by (metis option.inject)
qed

section \<open>Properties\<close>

text \<open>C11: the events of a request account for its whole time. A process \<open>rid\<close> writes a prompt when
  the map of tracked requests holds it already or has room; then any sequence of probes runs, in
  which other processes may do anything (start and end requests of their own included) and the process
  \<open>rid\<close> itself runs probes other than the write and the end of stream; then \<open>rid\<close> reaches the end of
  stream. If the probes of \<open>rid\<close> find room in the ring buffer, the latencies its events report, the
  first and the last included, add up to the time from the start of the write to the end of stream,
  in the 64-bit arithmetic of the clock; the entry of the request is gone, and no handler leaves an
  array.\<close>

theorem trace_latencies_telescope:
  assumes "trace_wf m" "map_of (request_state m) rid \<noteq> None \<or> length (request_state m) < KLLM_MAX_TRACKED"
    and "pc_pid w = rid" "pc_reserve w" "pc_pid z = rid" "pc_reserve z" "\<forall>x \<in> set es. mid_request rid x"
  shows "\<exists>m'. probe_run ((PWrite n, w) # es @ [(PEos, z)]) m = Some m' \<and> trace_wf m' \<and>
    map_of (request_state m') rid = None \<and>
    latencies rid (trace_events m') - latencies rid (trace_events m) = pc_t1 z - pc_t1 w"
proof -
  obtain m1 rt1 where 1: "probe_handler (PWrite n) w m = Some m1" "trace_wf m1"
    "map_of (request_state m1) rid = Some rt1" "last_time rt1 = pc_t2 w"
    "latencies rid (trace_events m1) = latencies rid (trace_events m) + (pc_t2 w - pc_t1 w)"
    using write_opens[OF assms(1,3,4,2)] by blast
  obtain m2 rt2 where 2: "probe_run es m1 = Some m2" "trace_wf m2" "map_of (request_state m2) rid = Some rt2"
    "latencies rid (trace_events m2) = latencies rid (trace_events m1) + (last_time rt2 - last_time rt1)"
    using latencies_telescope[OF 1(2,3) assms(7)] by blast
  obtain m3 where 3: "probe_handler PEos z m2 = Some m3" "trace_wf m3" "map_of (request_state m3) rid = None"
    "latencies rid (trace_events m3) = latencies rid (trace_events m2) + (pc_t1 z - last_time rt2)"
    using eos_closes[OF 2(2) assms(5,6) 2(3)] by blast
  have "probe_run ((PWrite n, w) # es @ [(PEos, z)]) m = Some m3"
    using 1(1) 2(1) 3(1) by (simp add: probe_run_append del: probe_handler.simps)
  then show ?thesis using 1(4,5) 2(4) 3(2-4) by simp
qed

definition empty_stats :: kllm_trace_stats where
  "empty_stats = \<lparr>st_total_requests = 0, st_total_tokens = 0, st_total_latency_ns = 0, st_max_latency_ns = 0,
     st_stage_totals = replicate 14 0\<rparr>"

definition sample_rt :: kllm_request_trace where
  "sample_rt = \<lparr>rt_stage_ts = 100 # replicate 13 0, rt_last_stage = 0, rt_seq_len = 0\<rparr>"

definition sample_trace :: trace_maps where
  "sample_trace = \<lparr>trace_events = [], request_state = [(7, sample_rt)], global_stats = (\<lambda>_. empty_stats)\<rparr>"

lemma sample_trace_wf: "trace_wf sample_trace"
  by (simp add: trace_wf_def sample_trace_def sample_rt_def rt_wf_def empty_stats_def KLLM_MAX_TRACKED_def)

definition sample_probe :: "u32 \<Rightarrow> u64 \<Rightarrow> probe_ctx" where
  "sample_probe pid t = \<lparr>pc_pid = pid, pc_cpu = 0, pc_reserve = True, pc_t1 = t, pc_t2 = t + 1\<rparr>"

theorem trace_latencies_telescope_witness:
  "\<exists>m'. probe_run [(PWrite 5, sample_probe 8 130), (PWrite 3, sample_probe 9 140), (PWriteExit, sample_probe 8 150),
      (PEos, sample_probe 9 160), (PDecide, sample_probe 8 180), (PEos, sample_probe 8 210)] sample_trace = Some m' \<and>
    latencies 8 (trace_events m') = 80"
proof -
  let ?es = "[(PWrite 3, sample_probe 9 140), (PWriteExit, sample_probe 8 150),
      (PEos, sample_probe 9 160), (PDecide, sample_probe 8 180)]"
  have "trace_events sample_trace = []" "length (request_state sample_trace) < KLLM_MAX_TRACKED"
    by (simp_all add: sample_trace_def KLLM_MAX_TRACKED_def)
  moreover have "\<forall>x \<in> set ?es. mid_request 8 x" by (simp add: mid_request_def sample_probe_def)
  moreover have p: "pc_pid (sample_probe 8 t) = 8" "pc_reserve (sample_probe 8 t)" "pc_t1 (sample_probe 8 t) = t" for t
    by (simp_all add: sample_probe_def)
  ultimately show ?thesis
    using trace_latencies_telescope[OF sample_trace_wf, of 8 "sample_probe 8 130" "sample_probe 8 210" ?es 5]
    by (auto simp: latencies_def simp del: probe_run.simps)
qed

text \<open>C38: the probes identify a request by the process that runs them. A writer \<open>w\<close> that is being
  traced stays in the map, and its end-to-end latency is never recorded, whatever probes a reactor
  process other than \<open>w\<close> runs (its end-of-stream probe included): after any such run the entry of
  \<open>w\<close> is as it was and the total latency has not changed.\<close>

theorem trace_reactor_never_ends_request:
  assumes "trace_wf m" "r \<noteq> w" "map_of (request_state m) r = None"
    and "\<forall>(e, c) \<in> set es. pc_pid c = r \<and> (\<forall>n. e \<noteq> PWrite n)"
  shows "\<exists>m'. probe_run es m = Some m' \<and> map_of (request_state m') w = map_of (request_state m) w \<and>
    (\<forall>cpu. st_total_latency_ns (global_stats m' cpu) = st_total_latency_ns (global_stats m cpu))"
  using assms(1,3,4)
proof (induction es arbitrary: m)
  case (Cons x es)
  obtain e c where x: "x = (e, c)" by (cases x)
  then have c: "pc_pid c = r" "\<And>n. e \<noteq> PWrite n" using Cons.prems(3) by auto
  obtain m1 where m1: "probe_handler e c m = Some m1" "trace_wf m1"
    "\<forall>k. map_of (request_state m1) k = map_of (request_state m) k"
    "\<forall>cpu. st_total_latency_ns (global_stats m1 cpu) = st_total_latency_ns (global_stats m cpu)"
    using foreign_probe[OF Cons.prems(1) _ _ c(2), of c w] c(1) Cons.prems(2) assms(2) by auto
  from Cons.IH[OF m1(2)] Cons.prems m1 x show ?case by (auto simp del: probe_handler.simps)
qed simp

theorem trace_reactor_never_ends_request_witness:
  "\<exists>m'. probe_run [(PConsume, sample_probe 9 150), (PEos, sample_probe 9 190)] sample_trace = Some m' \<and>
    map_of (request_state m') 7 = Some sample_rt \<and> st_total_latency_ns (global_stats m' 0) = 0"
proof -
  have "map_of (request_state sample_trace) 9 = None" "map_of (request_state sample_trace) 7 = Some sample_rt"
    "st_total_latency_ns (global_stats sample_trace 0) = 0"
    by (simp_all add: sample_trace_def empty_stats_def)
  then show ?thesis
    using trace_reactor_never_ends_request[OF sample_trace_wf, of 9 7
        "[(PConsume, sample_probe 9 150), (PEos, sample_probe 9 190)]"]
    by (auto simp: sample_probe_def simp del: probe_run.simps)
qed

end
