(* ===== verification/Wavefront.thy ===== *)
theory Wavefront
  imports Kllm_Prelude
begin

text \<open>
  Batched block fetches (\<open>userspace/gpu/nvme_ep_wavefront.c\<close>): submission and polling, which are
  placeholders in the code, and the two builders that fill a wavefront with content-addressed
  keys. \<open>SHA256\<close> of OpenSSL is a parameter. \<open>None\<close> is a read outside the token array or the key
  buffer.
\<close>

definition KLLM_WAVEFRONT_MAX_BLOCKS :: u32 where "KLLM_WAVEFRONT_MAX_BLOCKS = 64"
definition KLLM_WF_FLAG_WEIGHT_LOAD :: u32 where "KLLM_WF_FLAG_WEIGHT_LOAD = 1"
definition KLLM_WF_FLAG_KV_FETCH :: u32 where "KLLM_WF_FLAG_KV_FETCH = 2"

record kllm_wf_block_desc =
  bd_obj_key :: "u8 list"
  bd_vram_dest_addr :: u64
  bd_block_size :: u32
  bd_layer_start :: u32
  bd_layer_count :: u32

record kllm_wavefront =
  wf_num_blocks :: u32
  wf_flags :: u32
  wf_sequence_id :: u64
  wf_blocks :: "kllm_wf_block_desc list"

record kllm_wf_completion =
  wc_sequence_id :: u64
  wc_blocks_completed :: u32
  wc_blocks_failed :: u32
  wc_total_bytes :: u64
  wc_latency_ns :: u64

record kllm_wavefront_ctx =
  wx_device_path :: "u8 list option"
  wx_next_seq_id :: u64

definition zero_desc :: kllm_wf_block_desc where
  "zero_desc = \<lparr>bd_obj_key = replicate 32 0, bd_vram_dest_addr = 0, bd_block_size = 0,
     bd_layer_start = 0, bd_layer_count = 0\<rparr>"

definition zero_wavefront :: kllm_wavefront where
  "zero_wavefront = \<lparr>wf_num_blocks = 0, wf_flags = 0, wf_sequence_id = 0, wf_blocks = replicate 64 zero_desc\<rparr>"

definition kllm_wavefront_create :: "bool \<Rightarrow> bool \<Rightarrow> u8 list \<Rightarrow> kllm_wavefront_ctx option" where
  "kllm_wavefront_create calloc_ok strdup_ok dev =
    (if \<not> calloc_ok then None
     else Some \<lparr>wx_device_path = (if strdup_ok then Some dev else None), wx_next_seq_id = 1\<rparr>)"

definition kllm_wavefront_submit :: "kllm_wavefront_ctx option \<Rightarrow> kllm_wavefront option \<Rightarrow> int" where
  "kllm_wavefront_submit ctx wv =
    (case (ctx, wv) of
       (Some c, Some w) \<Rightarrow> if wf_num_blocks w = 0 then - 1 else 0
     | _ \<Rightarrow> - 1)"

definition kllm_wavefront_poll :: "kllm_wavefront_ctx option \<Rightarrow> kllm_wf_completion \<Rightarrow> int \<Rightarrow> int \<times> kllm_wf_completion" where
  "kllm_wavefront_poll ctx completions max_completions = (0, completions)"

section \<open>Content addresses\<close>

text \<open>The bytes of a token array on a little-endian machine.\<close>

definition token_bytes :: "u32 list \<Rightarrow> u8 list" where
  "token_bytes ts = concat (map (\<lambda>t. [ucast t, ucast (drop_bit 8 t), ucast (drop_bit 16 t), ucast (drop_bit 24 t)]) ts)"

definition sha_tokens :: "(u8 list \<Rightarrow> u8 list) \<Rightarrow> u32 list \<Rightarrow> u32 \<Rightarrow> u8 list option" where
  "sha_tokens sha ids n = (if unat n \<le> length ids then Some (sha (token_bytes (take (unat n) ids))) else None)"

fun kv_fill :: "(u8 list \<Rightarrow> u8 list) \<Rightarrow> u32 list \<Rightarrow> u32 \<Rightarrow> u64 \<Rightarrow> u32 \<Rightarrow> kllm_wf_block_desc list \<Rightarrow> nat list \<Rightarrow>
    kllm_wf_block_desc list option" where
  "kv_fill sha ids seq_len base bs blocks [] = Some blocks"
| "kv_fill sha ids seq_len base bs blocks (i # is) = do {
     let prefix_end = (of_nat i + 1) * 128 in do {
       key \<leftarrow> sha_tokens sha ids (if prefix_end > seq_len then seq_len else prefix_end);
       blocks' \<leftarrow> arr_set blocks i \<lparr>bd_obj_key = key, bd_vram_dest_addr = base + of_nat i * ucast bs,
         bd_block_size = bs, bd_layer_start = 0, bd_layer_count = 0\<rparr>;
       kv_fill sha ids seq_len base bs blocks' is } }"

definition kv_blocks_needed :: "u32 \<Rightarrow> u32" where
  "kv_blocks_needed seq_len =
    (let n = (seq_len + 128 - 1) div 128
     in if n > KLLM_WAVEFRONT_MAX_BLOCKS then KLLM_WAVEFRONT_MAX_BLOCKS else n)"

definition kllm_wavefront_build_kv_fetch :: "(u8 list \<Rightarrow> u8 list) \<Rightarrow> u32 list \<Rightarrow> u32 \<Rightarrow> u64 \<Rightarrow> u32 \<Rightarrow>
    (int \<times> kllm_wavefront) option" where
  "kllm_wavefront_build_kv_fetch sha ids seq_len base bs =
    (let n = kv_blocks_needed seq_len;
         wv = zero_wavefront\<lparr>wf_num_blocks := n, wf_flags := KLLM_WF_FLAG_KV_FETCH\<rparr>
     in do {
       blocks \<leftarrow> kv_fill sha ids seq_len base bs (wf_blocks wv) [0..<unat n];
       Some (uint n, wv\<lparr>wf_blocks := blocks\<rparr>) })"

section \<open>Weight keys\<close>

function dec_digits :: "nat \<Rightarrow> u8 list" where
  "dec_digits n = (if n < 10 then [of_nat (48 + n)] else dec_digits (n div 10) @ [of_nat (48 + n mod 10)])"
  by pat_completeness auto
termination by (relation "measure id") auto

declare dec_digits.simps [simp del]

definition ascii :: "string \<Rightarrow> u8 list" where "ascii s = map of_char s"

text \<open>\<open>snprintf\<close> into a buffer of 512 bytes returns the full length and stores at most 511 bytes and
  a terminator; \<open>SHA256\<close> then reads the full length from the buffer.\<close>

definition weight_key :: "u8 list \<Rightarrow> u32 \<Rightarrow> u8 list" where
  "weight_key path layer = path @ ascii '':layer_'' @ dec_digits (unat layer)"

definition sha_key_buffer :: "(u8 list \<Rightarrow> u8 list) \<Rightarrow> u8 list \<Rightarrow> u8 list option" where
  "sha_key_buffer sha s =
    (if length s \<le> 511 then Some (sha s)
     else if length s = 512 then Some (sha (take 511 s @ [0]))
     else None)"

fun weight_fill :: "(u8 list \<Rightarrow> u8 list) \<Rightarrow> u8 list \<Rightarrow> u32 \<Rightarrow> u64 \<Rightarrow> kllm_wf_block_desc list \<Rightarrow> nat list \<Rightarrow>
    kllm_wf_block_desc list option" where
  "weight_fill sha path start dest blocks [] = Some blocks"
| "weight_fill sha path start dest blocks (i # is) = do {
     key \<leftarrow> sha_key_buffer sha (weight_key path (start + of_nat i));
     b \<leftarrow> arr_get blocks i;
     blocks' \<leftarrow> arr_set blocks i (b\<lparr>bd_obj_key := key, bd_vram_dest_addr := dest,
       bd_layer_start := start + of_nat i, bd_layer_count := 1\<rparr>);
     weight_fill sha path start dest blocks' is }"

definition kllm_wavefront_build_weight_load :: "(u8 list \<Rightarrow> u8 list) \<Rightarrow> u8 list \<Rightarrow> u32 \<Rightarrow> u32 \<Rightarrow> u64 \<Rightarrow>
    (int \<times> kllm_wavefront) option" where
  "kllm_wavefront_build_weight_load sha path layer_start layer_count dest =
    (let n = (if layer_count > KLLM_WAVEFRONT_MAX_BLOCKS then KLLM_WAVEFRONT_MAX_BLOCKS else layer_count);
         wv = zero_wavefront\<lparr>wf_num_blocks := n, wf_flags := KLLM_WF_FLAG_WEIGHT_LOAD\<rparr>
     in do {
       blocks \<leftarrow> weight_fill sha path layer_start dest (wf_blocks wv) [0..<unat n];
       Some (uint n, wv\<lparr>wf_blocks := blocks\<rparr>) })"

section \<open>What the builders produce\<close>

definition kv_desc :: "(u8 list \<Rightarrow> u8 list) \<Rightarrow> u32 list \<Rightarrow> nat \<Rightarrow> u64 \<Rightarrow> u32 \<Rightarrow> nat \<Rightarrow> kllm_wf_block_desc" where
  "kv_desc sha ids n base bs i = \<lparr>bd_obj_key = sha (token_bytes (take (min (128 * Suc i) n) ids)),
     bd_vram_dest_addr = base + of_nat i * ucast bs, bd_block_size = bs, bd_layer_start = 0, bd_layer_count = 0\<rparr>"

lemma prefix_end_nat: "i < 64 \<Longrightarrow> unat ((of_nat i + 1) * 128 :: u32) = 128 * Suc i"
proof -
  assume "i < 64"
  then have "128 * Suc i < 2 ^ LENGTH(32)" by simp
  moreover have "(of_nat i + 1) * 128 = (of_nat (128 * Suc i) :: u32)" by simp
  ultimately show ?thesis by (simp only: unat_of_nat) simp
qed

lemma kv_fill_spec:
  assumes "k \<le> n" "n \<le> 64" "length blocks = 64" "unat seq_len \<le> length ids"
  shows "kv_fill sha ids seq_len base bs blocks [k..<n] =
    Some (take k blocks @ map (kv_desc sha ids (unat seq_len) base bs) [k..<n] @ drop n blocks)"
  using assms(1,3)
proof (induction "n - k" arbitrary: k blocks)
  case 0
  then show ?case by simp
next
  case (Suc x)
  have k: "k < n" "k < 64" using Suc.hyps(2) assms(2) by simp_all
  let ?pe = "(of_nat k + 1) * 128 :: u32"
  have "unat (if ?pe > seq_len then seq_len else ?pe) = min (128 * Suc k) (unat seq_len)"
    using prefix_end_nat[OF k(2)] by (simp only: word_less_nat_alt min_def split: if_splits) simp
  then have "sha_tokens sha ids (if ?pe > seq_len then seq_len else ?pe) =
      Some (sha (token_bytes (take (min (128 * Suc k) (unat seq_len)) ids)))"
    using assms(4) by (simp only: sha_tokens_def min.cobounded2 le_trans[OF min.cobounded2] if_True)
  then have "kv_fill sha ids seq_len base bs blocks [k..<n] =
      kv_fill sha ids seq_len base bs (blocks[k := kv_desc sha ids (unat seq_len) base bs k]) [Suc k..<n]"
    using k Suc.prems(2) unfolding upt_conv_Cons[OF k(1)] kv_fill.simps Let_def
    by (simp only: bind.simps arr_set_in kv_desc_def)
  also have "\<dots> = Some (take (Suc k) (blocks[k := kv_desc sha ids (unat seq_len) base bs k]) @
      map (kv_desc sha ids (unat seq_len) base bs) [Suc k..<n] @
      drop n (blocks[k := kv_desc sha ids (unat seq_len) base bs k]))"
    using Suc.hyps Suc.prems(2) k by (intro Suc.hyps(1)) simp_all
  also have "take (Suc k) (blocks[k := kv_desc sha ids (unat seq_len) base bs k]) =
      take k blocks @ [kv_desc sha ids (unat seq_len) base bs k]"
    using k Suc.prems(2) by (simp add: take_Suc_conv_app_nth)
  finally show ?case using k by (simp add: upt_conv_Cons)
qed

lemma blocks_needed_nat:
  assumes "unat seq_len + 127 < 2 ^ 32"
  shows "unat (kv_blocks_needed seq_len) = min 64 ((unat seq_len + 127) div 128)"
proof -
  have "seq_len + 128 - 1 = seq_len + 127" by simp
  moreover have "unat (seq_len + 127) = unat seq_len + 127" using assms by (simp add: unat_word_ariths)
  ultimately have "unat ((seq_len + 128 - 1) div 128) = (unat seq_len + 127) div 128"
    by (simp only: unat_div_distrib) simp
  then show ?thesis
    by (simp add: kv_blocks_needed_def KLLM_WAVEFRONT_MAX_BLOCKS_def word_less_nat_alt min_def Let_def)
qed

lemma weight_fill_overread:
  assumes "512 < length (weight_key path (start + of_nat k))"
  shows "weight_fill sha path start dest blocks (k # ks) = None"
  using assms by (simp add: sha_key_buffer_def)

section \<open>Properties\<close>

text \<open>C18: \<open>kllm_wavefront_build_kv_fetch\<close> addresses blocks by the content of their whole prefix. It
  describes the first \<open>min 64 (ceil (seq_len / 128))\<close> blocks; block \<open>i\<close> has the hash of the tokens up
  to its end as key and lands at offset \<open>i * block_size\<close>; every other descriptor is zero. Two
  sequences that share their first \<open>128 * (i + 1)\<close> tokens get the same key for block \<open>i\<close>. Tokens
  beyond the 8192nd are not fetched, and the caller is not told.\<close>

theorem kv_fetch_prefix_keys:
  assumes "unat seq_len \<le> length ids" "unat seq_len + 127 < 2 ^ 32"
  shows "\<exists>wv. kllm_wavefront_build_kv_fetch sha ids seq_len base bs =
      Some (int (min 64 ((unat seq_len + 127) div 128)), wv) \<and>
    wf_blocks wv = map (kv_desc sha ids (unat seq_len) base bs) [0..<min 64 ((unat seq_len + 127) div 128)] @
      replicate (64 - min 64 ((unat seq_len + 127) div 128)) zero_desc \<and>
    (\<forall>i ids'. 128 * Suc i \<le> unat seq_len \<and> take (128 * Suc i) ids' = take (128 * Suc i) ids \<longrightarrow>
       bd_obj_key (kv_desc sha ids' (length ids') base bs i) = bd_obj_key (kv_desc sha ids (unat seq_len) base bs i))"
proof -
  define n where "n = min 64 ((unat seq_len + 127) div 128)"
  have un: "unat (kv_blocks_needed seq_len) = n" using blocks_needed_nat[OF assms(2)] by (simp add: n_def)
  then have "uint (kv_blocks_needed seq_len) = int n" by (simp only: uint_nat)
  moreover have "kv_fill sha ids seq_len base bs (replicate 64 zero_desc) [0..<n] =
      Some (map (kv_desc sha ids (unat seq_len) base bs) [0..<n] @ replicate (64 - n) zero_desc)"
    using kv_fill_spec[of 0 n "replicate 64 zero_desc" seq_len ids] assms(1) by (simp add: n_def)
  moreover have "bd_obj_key (kv_desc sha ids' (length ids') base bs i) = bd_obj_key (kv_desc sha ids (unat seq_len) base bs i)"
    if "128 * Suc i \<le> unat seq_len" "take (128 * Suc i) ids' = take (128 * Suc i) ids" for i ids'
  proof -
    have "length (take (128 * Suc i) ids') = 128 * Suc i" using that assms(1) by simp
    then have "128 * Suc i \<le> length ids'" by simp
    then show ?thesis using that by (simp add: kv_desc_def min_def)
  qed
  ultimately show ?thesis
    by (simp add: kllm_wavefront_build_kv_fetch_def un zero_wavefront_def Let_def n_def)
qed

definition sample_ids :: "u32 list" where "sample_ids = replicate 200 7"

theorem kv_fetch_prefix_keys_witness:
  "\<exists>wv. kllm_wavefront_build_kv_fetch (\<lambda>bs. take 32 bs) sample_ids 200 4096 64 = Some (2, wv) \<and>
    bd_vram_dest_addr (wf_blocks wv ! 1) = 4160"
proof -
  have l: "length sample_ids = 200" by (simp only: sample_ids_def length_replicate)
  have n: "min 64 ((200 + 127) div 128) = (2::nat)" by simp
  obtain wv where wv: "kllm_wavefront_build_kv_fetch (\<lambda>bs. take 32 bs) sample_ids 200 4096 64 = Some (int 2, wv)"
    "wf_blocks wv = map (kv_desc (\<lambda>bs. take 32 bs) sample_ids 200 4096 64) [0..<2] @ replicate (64 - 2) zero_desc"
    using kv_fetch_prefix_keys[of 200 sample_ids "\<lambda>bs. take 32 bs" 4096 64] l unfolding unat_numeral
    by (simp only: n) auto
  have "wf_blocks wv ! 1 = kv_desc (\<lambda>bs. take 32 bs) sample_ids 200 4096 64 1"
    unfolding wv(2) by (subst nth_append) simp
  then have "bd_vram_dest_addr (wf_blocks wv ! 1) = 4160" by (simp only: kv_desc_def) simp
  with wv(1) show ?thesis by auto
qed

text \<open>C39: \<open>kllm_wavefront_build_weight_load\<close> reads past its key buffer for long model paths. Whenever the
  string \<open>path:layer_N\<close> of the first layer is longer than the 512-byte buffer, the length \<open>snprintf\<close> returns
  makes \<open>SHA256\<close> read beyond it.\<close>

theorem weight_key_overread:
  assumes "0 < layer_count" "512 < length (weight_key path layer_start)"
  shows "kllm_wavefront_build_weight_load sha path layer_start layer_count dest = None"
proof -
  define n where "n = unat (if layer_count > KLLM_WAVEFRONT_MAX_BLOCKS then KLLM_WAVEFRONT_MAX_BLOCKS else layer_count)"
  have "0 < n" using assms(1) by (simp add: n_def KLLM_WAVEFRONT_MAX_BLOCKS_def word_less_nat_alt)
  then obtain ks where "[0..<n] = 0 # ks" by (metis upt_conv_Cons)
  with weight_fill_overread[of path layer_start 0] assms(2) show ?thesis
    by (simp add: kllm_wavefront_build_weight_load_def Let_def flip: n_def)
qed

theorem weight_key_overread_witness:
  "kllm_wavefront_build_weight_load (\<lambda>bs. bs) (replicate 505 97) 0 1 0 = None"
  by (rule weight_key_overread) (simp_all add: weight_key_def ascii_def dec_digits.simps)

end
