(* ===== verification/Gpu_Runtime.thy ===== *)
theory Gpu_Runtime
  imports Float32
begin

text \<open>
  The GPU layer below the inference path: peer-to-peer memory regions
  (\<open>userspace/gpu/p2p_dma.c\<close>) and the backend dispatch (\<open>userspace/gpu/gpu_attention.c\<close>). Results of
  the operating system (\<open>open\<close>, \<open>mmap\<close>, \<open>dlopen\<close>, allocations) are arguments; descriptors,
  mappings and heap objects held are explicit, so that leaks are visible. A run either returns, faults,
  or does not return.
\<close>

datatype 'a run = Fault | Hang | Ret 'a

fun rbind :: "'a run \<Rightarrow> ('a \<Rightarrow> 'b run) \<Rightarrow> 'b run" where
  "rbind Fault f = Fault"
| "rbind Hang f = Hang"
| "rbind (Ret x) f = f x"

definition run_of :: "'a option \<Rightarrow> 'a run" where
  "run_of x = (case x of None \<Rightarrow> Fault | Some y \<Rightarrow> Ret y)"

record os_resources =
  rs_fds :: "int list"
  rs_maps :: "(u64 \<times> u64) list"
  rs_heap :: int

definition heap_alloc :: "bool \<Rightarrow> os_resources \<Rightarrow> os_resources" where
  "heap_alloc ok rs = (if ok then rs\<lparr>rs_heap := rs_heap rs + 1\<rparr> else rs)"

definition heap_free :: "os_resources \<Rightarrow> os_resources" where
  "heap_free rs = rs\<lparr>rs_heap := rs_heap rs - 1\<rparr>"

section \<open>Backend dispatch\<close>

datatype kllm_gpu_backend = KLLM_GPU_NONE | KLLM_GPU_XE | KLLM_GPU_CUDA | KLLM_GPU_ROCM

record kllm_gpu_ctx =
  gx_backend :: kllm_gpu_backend
  gx_stream :: u64
  gx_lib_handle :: u64

record kllm_gpu_attention_params =
  gp_output :: u64
  gp_query :: u64
  gp_block_tables :: "u64 list"
  gp_seq_lens :: "int list"
  gp_num_seqs :: int
  gp_num_heads :: int
  gp_num_kv_heads :: int
  gp_head_dim :: int
  gp_max_blocks_per_seq :: int
  gp_scale :: f32
  gp_stream :: u64

definition detect_gpu :: "bool \<Rightarrow> bool \<Rightarrow> bool \<Rightarrow> kllm_gpu_backend" where
  "detect_gpu dl_ze dl_cuda dl_hip =
    (if dl_ze then KLLM_GPU_XE else if dl_cuda then KLLM_GPU_CUDA else if dl_hip then KLLM_GPU_ROCM
     else KLLM_GPU_NONE)"

definition kllm_gpu_create :: "bool \<Rightarrow> bool \<Rightarrow> bool \<Rightarrow> bool \<Rightarrow> kllm_gpu_ctx option" where
  "kllm_gpu_create calloc_ok dl_ze dl_cuda dl_hip =
    (if calloc_ok then Some \<lparr>gx_backend = detect_gpu dl_ze dl_cuda dl_hip, gx_stream = 0, gx_lib_handle = 0\<rparr> else None)"

definition kllm_gpu_get_backend :: "kllm_gpu_ctx \<Rightarrow> kllm_gpu_backend" where
  "kllm_gpu_get_backend ctx = gx_backend ctx"

text \<open>The device kernels are a parameter: what each backend's entry point returns.\<close>

definition kllm_gpu_paged_attention :: "(kllm_gpu_backend \<Rightarrow> kllm_gpu_attention_params \<Rightarrow> u64 \<Rightarrow> int) \<Rightarrow>
    kllm_gpu_ctx \<Rightarrow> kllm_gpu_attention_params \<Rightarrow> int" where
  "kllm_gpu_paged_attention launch ctx p =
    (let stream = (if gp_stream p \<noteq> 0 then gp_stream p else gx_stream ctx)
     in case gx_backend ctx of
          KLLM_GPU_XE \<Rightarrow> launch KLLM_GPU_XE p stream
        | KLLM_GPU_CUDA \<Rightarrow> launch KLLM_GPU_CUDA p stream
        | KLLM_GPU_ROCM \<Rightarrow> launch KLLM_GPU_ROCM p stream
        | KLLM_GPU_NONE \<Rightarrow> - 1)"

definition kllm_gpu_malloc :: "kllm_gpu_ctx option \<Rightarrow> u64 \<Rightarrow> u64" where
  "kllm_gpu_malloc ctx sz = 0"

definition kllm_gpu_free :: "kllm_gpu_ctx option \<Rightarrow> u64 \<Rightarrow> os_resources \<Rightarrow> os_resources" where
  "kllm_gpu_free ctx ptr rs = rs"

definition kllm_gpu_memcpy_h2d :: "kllm_gpu_ctx option \<Rightarrow> u64 \<Rightarrow> u64 \<Rightarrow> u64 \<Rightarrow> int" where
  "kllm_gpu_memcpy_h2d ctx dst src sz = - 1"

definition kllm_gpu_get_stream :: "kllm_gpu_ctx \<Rightarrow> u64" where
  "kllm_gpu_get_stream ctx = gx_stream ctx"

section \<open>Peer-to-peer regions\<close>

record kllm_p2p_region =
  pr_gpu_va :: u64
  pr_bus_addr :: u64
  pr_size_bytes :: u64
  pr_dma_buf_fd :: int
  pr_gpu_id :: u32
  pr_flags :: u32

definition zero_region :: kllm_p2p_region where
  "zero_region = \<lparr>pr_gpu_va = 0, pr_bus_addr = 0, pr_size_bytes = 0, pr_dma_buf_fd = 0, pr_gpu_id = 0, pr_flags = 0\<rparr>"

definition KLLM_P2P_FLAG_UMA :: u32 where "KLLM_P2P_FLAG_UMA = 1"
definition KLLM_P2P_FLAG_PINNED :: u32 where "KLLM_P2P_FLAG_PINNED = 2"

record kllm_p2p_ctx =
  px_gpu_id :: u32
  px_drm_fd :: int
  px_is_uma :: bool

definition kllm_p2p_create :: "bool \<Rightarrow> int \<Rightarrow> u32 \<Rightarrow> os_resources \<Rightarrow> kllm_p2p_ctx option \<times> os_resources" where
  "kllm_p2p_create calloc_ok open_fd gpu_id rs =
    (if \<not> calloc_ok then (None, rs)
     else if open_fd < 0 then (Some \<lparr>px_gpu_id = gpu_id, px_drm_fd = - 1, px_is_uma = True\<rparr>, heap_alloc True rs)
     else (Some \<lparr>px_gpu_id = gpu_id, px_drm_fd = open_fd, px_is_uma = False\<rparr>,
       heap_alloc True (rs\<lparr>rs_fds := open_fd # rs_fds rs\<rparr>)))"

definition kllm_p2p_destroy :: "kllm_p2p_ctx option \<Rightarrow> os_resources \<Rightarrow> os_resources" where
  "kllm_p2p_destroy ctx rs =
    (case ctx of
       None \<Rightarrow> rs
     | Some c \<Rightarrow> heap_free (if px_drm_fd c \<ge> 0 then rs\<lparr>rs_fds := remove1 (px_drm_fd c) (rs_fds rs)\<rparr> else rs))"

text \<open>\<open>mmap\<close> with huge pages and without; \<open>None\<close> is \<open>MAP_FAILED\<close>.\<close>

type_synonym mmap_results = "u64 option \<times> u64 option"

definition kllm_p2p_alloc_region :: "kllm_p2p_ctx \<Rightarrow> mmap_results \<Rightarrow> u64 \<Rightarrow> os_resources \<Rightarrow>
    int \<times> kllm_p2p_region \<times> os_resources" where
  "kllm_p2p_alloc_region ctx maps size_bytes rs =
    (let out = zero_region\<lparr>pr_size_bytes := size_bytes, pr_gpu_id := px_gpu_id ctx\<rparr>
     in if px_is_uma ctx then
          (case (case fst maps of Some p \<Rightarrow> Some p | None \<Rightarrow> snd maps) of
             None \<Rightarrow> (- 1, out, rs)
           | Some ptr \<Rightarrow>
               (0, out\<lparr>pr_gpu_va := ptr, pr_bus_addr := 0, pr_dma_buf_fd := - 1,
                   pr_flags := KLLM_P2P_FLAG_UMA OR KLLM_P2P_FLAG_PINNED\<rparr>,
                rs\<lparr>rs_maps := (ptr, size_bytes) # rs_maps rs\<rparr>))
        else (- 1, out, rs))"

definition kllm_p2p_free_region :: "kllm_p2p_region \<Rightarrow> os_resources \<Rightarrow> kllm_p2p_region \<times> os_resources" where
  "kllm_p2p_free_region region rs =
    (zero_region,
     if pr_flags region AND KLLM_P2P_FLAG_UMA \<noteq> 0 then
       (if pr_gpu_va region \<noteq> 0
        then rs\<lparr>rs_maps := remove1 (pr_gpu_va region, pr_size_bytes region) (rs_maps rs)\<rparr> else rs)
     else
       (if pr_dma_buf_fd region \<ge> 0 then rs\<lparr>rs_fds := remove1 (pr_dma_buf_fd region) (rs_fds rs)\<rparr> else rs))"

definition kllm_p2p_register_spdk :: "kllm_p2p_ctx \<Rightarrow> kllm_p2p_region \<Rightarrow> int" where
  "kllm_p2p_register_spdk ctx region = 0"

definition kllm_p2p_register_rdma :: "kllm_p2p_ctx \<Rightarrow> kllm_p2p_region \<Rightarrow> int \<times> u32" where
  "kllm_p2p_register_rdma ctx region = (0, 0)"

definition kllm_p2p_check_topology :: "u32 \<Rightarrow> u8 list \<Rightarrow> int" where
  "kllm_p2p_check_topology gpu_id nic_pci_addr = 1"

section \<open>Regions come and go\<close>

lemma alloc_region_uma:
  assumes "kllm_p2p_alloc_region ctx maps sz rs = (0, out, rs')"
  obtains ptr where "px_is_uma ctx" "fst maps = Some ptr \<or> snd maps = Some ptr" "pr_gpu_va out = ptr"
    "pr_size_bytes out = sz" "pr_flags out = 3" "rs' = rs\<lparr>rs_maps := (ptr, sz) # rs_maps rs\<rparr>"
  using assms
  by (auto simp: kllm_p2p_alloc_region_def zero_region_def KLLM_P2P_FLAG_UMA_def KLLM_P2P_FLAG_PINNED_def Let_def
      split: if_splits option.splits)

lemma alloc_region_result:
  "kllm_p2p_alloc_region ctx maps sz rs = (r, out, rs') \<Longrightarrow> r = 0 \<or> r = - 1 \<and> rs' = rs"
  by (auto simp: kllm_p2p_alloc_region_def Let_def split: if_splits option.splits)

lemma free_mapped_region:
  assumes "pr_flags out = 3" "pr_gpu_va out = ptr" "pr_size_bytes out = sz" "ptr \<noteq> 0"
  shows "kllm_p2p_free_region out (rs\<lparr>rs_maps := (ptr, sz) # rs_maps rs\<rparr>) = (zero_region, rs)"
  using assms by (simp add: kllm_p2p_free_region_def KLLM_P2P_FLAG_UMA_def)

lemma p2p_create_destroy:
  "kllm_p2p_create c fd g rs = (Some ctx, rs1) \<Longrightarrow> kllm_p2p_destroy (Some ctx) rs1 = rs"
  by (auto simp: kllm_p2p_create_def kllm_p2p_destroy_def heap_alloc_def heap_free_def split: if_splits)

text \<open>A failed allocation leaves a region that looks like one with the exported descriptor 0:
  releasing it closes standard input.\<close>

lemma failed_region_closes_stdin:
  "\<not> px_is_uma ctx \<Longrightarrow> kllm_p2p_alloc_region ctx maps sz rs = (r, out, rs') \<Longrightarrow>
    rs_fds (snd (kllm_p2p_free_region out rs')) = remove1 0 (rs_fds rs)"
  by (auto simp: kllm_p2p_alloc_region_def kllm_p2p_free_region_def zero_region_def)

end
