(* ===== verification/Infer_Result.thy ===== *)
theory Infer_Result
  imports Attention
begin

text \<open>
  The result of an inference step (\<open>struct kllm_infer_result\<close>) and the greedy choice that the CPU
  path, the GPU path and the decode loop all write as the same loop: the first index of a largest
  logit, starting from \<open>-INFINITY\<close>.
\<close>

record kllm_infer_result =
  ir_logits :: "f32 list option"
  ir_vocab_size :: u32
  ir_next_token :: u32

definition infer_result0 :: kllm_infer_result where
  "infer_result0 = \<lparr>ir_logits = None, ir_vocab_size = 0, ir_next_token = 0\<rparr>"

fun argmax_loop :: "f32 list \<Rightarrow> f32 \<Rightarrow> u32 \<Rightarrow> nat list \<Rightarrow> u32 option" where
  "argmax_loop xs max_val max_idx [] = Some max_idx"
| "argmax_loop xs max_val max_idx (i # is) = do {
     x \<leftarrow> arr_get xs i;
     if f32_gt x max_val then argmax_loop xs x (of_nat i) is else argmax_loop xs max_val max_idx is }"

definition f32_argmax :: "f32 list \<Rightarrow> u32 \<Rightarrow> u32 option" where
  "f32_argmax xs n = argmax_loop xs f32_minus_inf 0 [0..<unat n]"

section \<open>Specification of the choice\<close>

text \<open>A logit is a candidate when it is neither NaN nor \<open>-INFINITY\<close>.\<close>

definition candidate :: "f32 \<Rightarrow> bool" where
  "candidate x \<longleftrightarrow> f32_gt x f32_minus_inf"

definition greedy_choice :: "f32 list \<Rightarrow> nat \<Rightarrow> nat \<Rightarrow> bool" where
  "greedy_choice xs n i \<longleftrightarrow>
    (if \<exists>j < n. candidate (xs ! j)
     then i < n \<and> candidate (xs ! i) \<and> (\<forall>j < n. \<not> f32_gt (xs ! j) (xs ! i)) \<and>
       (\<forall>j < i. candidate (xs ! j) \<longrightarrow> f32_gt (xs ! i) (xs ! j))
     else i = 0)"

lemma f32_gt_trans: "f32_gt a b \<Longrightarrow> f32_gt b c \<Longrightarrow> f32_gt a c"
  unfolding f32_gt_def by simp

lemma f32_gt_irrefl: "\<not> f32_gt a a"
  unfolding f32_gt_def by simp

lemma f32_gt_mixed: "f32_gt x m \<Longrightarrow> \<not> f32_gt y m \<Longrightarrow> candidate y \<Longrightarrow> f32_gt x y"
  unfolding f32_gt_def candidate_def by simp

text \<open>The state of the loop after \<open>k\<close> logits.\<close>

definition argmax_inv :: "f32 list \<Rightarrow> nat \<Rightarrow> f32 \<Rightarrow> nat \<Rightarrow> bool" where
  "argmax_inv xs k mv mi \<longleftrightarrow> greedy_choice xs k mi \<and>
     mv = (if \<exists>j < k. candidate (xs ! j) then xs ! mi else f32_minus_inf)"

lemma argmax_inv_step:
  assumes "argmax_inv xs k mv mi"
  shows "argmax_inv xs (Suc k) (if f32_gt (xs ! k) mv then xs ! k else mv) (if f32_gt (xs ! k) mv then k else mi)"
proof (cases "\<exists>j < k. candidate (xs ! j)")
  case some: True
  then have inv: "mi < k" "candidate (xs ! mi)" "\<forall>j < k. \<not> f32_gt (xs ! j) (xs ! mi)"
    "\<forall>j < mi. candidate (xs ! j) \<longrightarrow> f32_gt (xs ! mi) (xs ! j)" "mv = xs ! mi"
    using assms by (simp_all add: argmax_inv_def greedy_choice_def)
  have ex: "\<exists>j < Suc k. candidate (xs ! j)" using some less_SucI by blast
  show ?thesis
  proof (cases "f32_gt (xs ! k) mv")
    case True
    then have "candidate (xs ! k)" using inv(2,5) f32_gt_trans unfolding candidate_def by blast
    moreover have "\<not> f32_gt (xs ! j) (xs ! k)" if "j < Suc k" for j
      using that True inv(3,5) f32_gt_trans f32_gt_irrefl less_Suc_eq by metis
    moreover have "f32_gt (xs ! k) (xs ! j)" if "j < k" "candidate (xs ! j)" for j
      using that True inv(3,5) f32_gt_mixed by blast
    ultimately show ?thesis using True ex by (simp add: argmax_inv_def greedy_choice_def)
  next
    case False
    then show ?thesis using inv ex by (auto simp: argmax_inv_def greedy_choice_def less_Suc_eq)
  qed
next
  case none: False
  have inv: "mi = 0" "mv = f32_minus_inf"
    using assms unfolding argmax_inv_def greedy_choice_def if_not_P[OF none] by blast+
  show ?thesis
  proof (cases "candidate (xs ! k)")
    case True
    then show ?thesis using none inv f32_gt_irrefl
      by (auto dest: f32_gt_trans simp: argmax_inv_def greedy_choice_def candidate_def less_Suc_eq)
  next
    case False
    then have n: "\<not> (\<exists>j < Suc k. candidate (xs ! j))" using none less_Suc_eq by blast
    have "\<not> f32_gt (xs ! k) mv" using False inv by (simp add: candidate_def)
    then show ?thesis unfolding argmax_inv_def greedy_choice_def if_not_P[OF n] using inv by simp
  qed
qed

lemma argmax_loop_spec:
  assumes "k \<le> n" "n \<le> length xs" "argmax_inv xs k mv mi"
  shows "\<exists>i. argmax_loop xs mv (of_nat mi) [k..<n] = Some (of_nat i) \<and> greedy_choice xs n i"
  using assms
proof (induction "n - k" arbitrary: k mv mi)
  case 0
  then show ?case by (auto simp: argmax_inv_def)
next
  case (Suc x)
  then have k: "k < n" "k < length xs" by simp_all
  from Suc.hyps(1)[OF _ _ Suc.prems(2) argmax_inv_step[OF Suc.prems(3)]] Suc.hyps(2) k
  show ?case by (auto simp: upt_conv_Cons fault_simps split: if_splits)
qed

lemma f32_argmax_spec:
  assumes "unat n \<le> length xs"
  obtains i where "f32_argmax xs n = Some (of_nat i)" "greedy_choice xs (unat n) i"
  using argmax_loop_spec[of 0 "unat n" xs f32_minus_inf 0] assms
  by (auto simp: f32_argmax_def argmax_inv_def greedy_choice_def)

lemma greedy_choice_bound: "greedy_choice xs n i \<Longrightarrow> 0 < n \<Longrightarrow> i < n"
  by (auto simp: greedy_choice_def split: if_splits)

end
