(* ===== verification/Infer_Gpu.thy ===== *)
theory Infer_Gpu
  imports Gpu_Runtime Wavefront Infer_Result Block_Format
begin

text \<open>
  GPU inference (\<open>userspace/compute/infer_gpu.c\<close>): set-up and release of the context, fetching the KV
  blocks of a sequence in wavefronts, the attention call, and escalation from the CPU. The loop that
  waits for completions runs on fuel; running out of it is \<^const>\<open>Hang\<close>, so a result that is
  \<^const>\<open>Hang\<close> for every fuel means that the code does not return.
\<close>

record kllm_infer_gpu_ctx =
  ig_gpu :: "kllm_gpu_ctx option"
  ig_wf :: "kllm_wavefront_ctx option"
  ig_p2p :: "kllm_p2p_ctx option"
  ig_model :: kllm_model_config
  ig_kv_region :: kllm_p2p_region
  ig_logits_region :: kllm_p2p_region
  ig_host_logits :: "f32 list option"
  ig_vocab_size :: u32
  ig_block_table :: "u64 list option"
  ig_max_blocks :: u32

record kllm_infer_gpu_config =
  gc_gpu :: "kllm_gpu_ctx option"
  gc_wf :: "kllm_wavefront_ctx option"
  gc_gpu_id :: u32
  gc_model :: kllm_model_config
  gc_vocab_size :: u32
  gc_max_seq_len :: u32

text \<open>The results of the allocations and system calls that \<open>kllm_infer_gpu_create\<close> makes, in order.\<close>

record gpu_env =
  ge_calloc_ctx :: bool
  ge_calloc_p2p :: bool
  ge_open_fd :: int
  ge_kv_maps :: mmap_results
  ge_logits_maps :: mmap_results
  ge_calloc_logits :: bool
  ge_calloc_table :: bool

definition blocks_for :: "u32 \<Rightarrow> u32 \<Rightarrow> u32 option" where
  "blocks_for seq_len tpb = (if tpb = 0 then None else Some ((seq_len + tpb - 1) div tpb))"

definition free_ptr :: "'a option \<Rightarrow> os_resources \<Rightarrow> os_resources" where
  "free_ptr p rs = (case p of None \<Rightarrow> rs | Some _ \<Rightarrow> heap_free rs)"

definition kllm_infer_gpu_destroy :: "kllm_infer_gpu_ctx option \<Rightarrow> os_resources \<Rightarrow> os_resources" where
  "kllm_infer_gpu_destroy ctx rs =
    (case ctx of
       None \<Rightarrow> rs
     | Some c \<Rightarrow>
         let rs = free_ptr (ig_host_logits c) rs;
             rs = free_ptr (ig_block_table c) rs;
             rs = (case ig_p2p c of
                     None \<Rightarrow> rs
                   | Some p \<Rightarrow>
                       let rs = snd (kllm_p2p_free_region (ig_logits_region c) rs);
                           rs = snd (kllm_p2p_free_region (ig_kv_region c) rs)
                       in kllm_p2p_destroy (Some p) rs)
         in heap_free rs)"

definition fill_block_table :: "u64 \<Rightarrow> u64 \<Rightarrow> u32 \<Rightarrow> u64 list" where
  "fill_block_table va block_bytes n = map (\<lambda>i. va + of_nat i * block_bytes) [0..<unat n]"

definition kllm_infer_gpu_create :: "gpu_env \<Rightarrow> kllm_infer_gpu_config \<Rightarrow> os_resources \<Rightarrow>
    (kllm_infer_gpu_ctx option \<times> os_resources) run" where
  "kllm_infer_gpu_create env cfg rs0 =
    (if \<not> ge_calloc_ctx env then Ret (None, rs0)
     else case kllm_p2p_create (ge_calloc_p2p env) (ge_open_fd env) (gc_gpu_id cfg) (heap_alloc True rs0) of
       (None, rs) \<Rightarrow> Ret (None, heap_free rs)
     | (Some p2p, rs) \<Rightarrow>
         let block_bytes = kllm_block_total_bytes (gc_model cfg) in
         rbind (run_of (blocks_for (gc_max_seq_len cfg) (tokens_per_block (gc_model cfg)))) (\<lambda>blocks_needed.
         case kllm_p2p_alloc_region p2p (ge_kv_maps env) (block_bytes * ucast blocks_needed) rs of
           (r, kv, rs) \<Rightarrow>
         if r < 0 then Ret (None, heap_free (kllm_p2p_destroy (Some p2p) rs))
         else case kllm_p2p_alloc_region p2p (ge_logits_maps env) (ucast (gc_vocab_size cfg) * 4) rs of
           (r, lg, rs) \<Rightarrow>
         if r < 0 then Ret (None, heap_free (kllm_p2p_destroy (Some p2p) (snd (kllm_p2p_free_region kv rs))))
         else
           let rs = heap_alloc (ge_calloc_table env) (heap_alloc (ge_calloc_logits env) rs);
               ctx = \<lparr>ig_gpu = gc_gpu cfg, ig_wf = gc_wf cfg, ig_p2p = Some p2p, ig_model = gc_model cfg,
                 ig_kv_region = kv, ig_logits_region = lg,
                 ig_host_logits = (if ge_calloc_logits env then Some (replicate (unat (gc_vocab_size cfg)) 0) else None),
                 ig_vocab_size = gc_vocab_size cfg,
                 ig_block_table = (if ge_calloc_table env then Some (replicate (unat blocks_needed) 0) else None),
                 ig_max_blocks = blocks_needed\<rparr>
           in if \<not> ge_calloc_logits env \<or> \<not> ge_calloc_table env
              then Ret (None, kllm_infer_gpu_destroy (Some ctx) rs)
              else Ret (Some (ctx\<lparr>ig_block_table := Some (fill_block_table (pr_gpu_va kv) block_bytes blocks_needed)\<rparr>), rs)))"

section \<open>Fetching the blocks\<close>

text \<open>One turn of the loop writes a descriptor and submits a full wavefront; \<open>Inl\<close> is the early return.\<close>

definition fetch_step :: "(u8 list \<Rightarrow> u8 list) \<Rightarrow> kllm_infer_gpu_ctx \<Rightarrow> u32 list \<Rightarrow> u32 \<Rightarrow> nat \<Rightarrow> kllm_wavefront \<Rightarrow> u32 \<Rightarrow>
    (int + kllm_wavefront \<times> u32) option" where
  "fetch_step sha ctx ids seq_len b wv submitted = do {
     let prefix_len = (of_nat b + 1) * tokens_per_block (ig_model ctx) in do {
       key \<leftarrow> sha_tokens sha ids (if prefix_len > seq_len then seq_len else prefix_len);
       table \<leftarrow> ig_block_table ctx;
       dest \<leftarrow> arr_get table b;
       blocks \<leftarrow> arr_set (wf_blocks wv) (unat (wf_num_blocks wv)) \<lparr>bd_obj_key = key, bd_vram_dest_addr = dest,
         bd_block_size = ucast (kllm_block_total_bytes (ig_model ctx)), bd_layer_start = 0,
         bd_layer_count = num_layers (ig_model ctx)\<rparr>;
       let wv = wv\<lparr>wf_blocks := blocks, wf_num_blocks := wf_num_blocks wv + 1\<rparr> in
       if wf_num_blocks wv \<ge> KLLM_WAVEFRONT_MAX_BLOCKS then
         (if kllm_wavefront_submit (ig_wf ctx) (Some wv) < 0 then Some (Inl (- 1))
          else Some (Inr (wv\<lparr>wf_num_blocks := 0\<rparr>, submitted + wf_num_blocks wv)))
       else Some (Inr (wv, submitted)) } }"

fun fetch_loop :: "(u8 list \<Rightarrow> u8 list) \<Rightarrow> kllm_infer_gpu_ctx \<Rightarrow> u32 list \<Rightarrow> u32 \<Rightarrow> nat list \<Rightarrow> kllm_wavefront \<Rightarrow> u32 \<Rightarrow>
    (int + kllm_wavefront \<times> u32) option" where
  "fetch_loop sha ctx ids seq_len [] wv submitted = Some (Inr (wv, submitted))"
| "fetch_loop sha ctx ids seq_len (b # bs) wv submitted =
    (case fetch_step sha ctx ids seq_len b wv submitted of
       None \<Rightarrow> None
     | Some (Inl r) \<Rightarrow> Some (Inl r)
     | Some (Inr (wv', submitted')) \<Rightarrow> fetch_loop sha ctx ids seq_len bs wv' submitted')"

text \<open>The wait for completions; the completion record is uninitialised at first.\<close>

fun wait_completions :: "nat \<Rightarrow> kllm_wavefront_ctx option \<Rightarrow> kllm_wf_completion \<Rightarrow> u32 \<Rightarrow> u32 \<Rightarrow> unit run" where
  "wait_completions 0 wx cmpl completed submitted = (if completed < submitted then Hang else Ret ())"
| "wait_completions (Suc fuel) wx cmpl completed submitted =
    (if completed < submitted then
       (case kllm_wavefront_poll wx cmpl 1 of
          (n, cmpl') \<Rightarrow> wait_completions fuel wx cmpl' (if n > 0 then completed + wc_blocks_completed cmpl' else completed) submitted)
     else Ret ())"

definition fetch_kv_blocks :: "nat \<Rightarrow> (u8 list \<Rightarrow> u8 list) \<Rightarrow> kllm_wf_completion \<Rightarrow> kllm_infer_gpu_ctx \<Rightarrow> u32 list \<Rightarrow>
    u32 \<Rightarrow> int run" where
  "fetch_kv_blocks fuel sha cmpl ctx ids seq_len =
    rbind (run_of (blocks_for seq_len (tokens_per_block (ig_model ctx)))) (\<lambda>num_blocks.
    rbind (run_of (fetch_loop sha ctx ids seq_len [0..<unat num_blocks]
        (zero_wavefront\<lparr>wf_flags := KLLM_WF_FLAG_KV_FETCH\<rparr>) 0)) (\<lambda>r.
    case r of
      Inl e \<Rightarrow> Ret e
    | Inr (wv, submitted) \<Rightarrow>
        if wf_num_blocks wv > 0 then
          (if kllm_wavefront_submit (ig_wf ctx) (Some wv) < 0 then Ret (- 1)
           else rbind (wait_completions fuel (ig_wf ctx) cmpl 0 (submitted + wf_num_blocks wv)) (\<lambda>_. Ret 0))
        else rbind (wait_completions fuel (ig_wf ctx) cmpl 0 submitted) (\<lambda>_. Ret 0)))"

section \<open>Inference\<close>

text \<open>\<open>sqrtf\<close>, the device kernels and the result of \<open>calloc\<close> are parameters. The calls of
  \<^const>\<open>kllm_gpu_free\<close> change nothing and are left out.\<close>

definition infer_gpu_attend :: "(kllm_gpu_backend \<Rightarrow> kllm_gpu_attention_params \<Rightarrow> u64 \<Rightarrow> int) \<Rightarrow> (f32 \<Rightarrow> f32) \<Rightarrow>
    kllm_infer_gpu_ctx \<Rightarrow> u32 \<Rightarrow> u32 \<Rightarrow> u64 \<Rightarrow> u64 \<Rightarrow> int option" where
  "infer_gpu_attend launch sqrtf ctx seq_len num_blocks gpu_query gpu_output = do {
     gpu \<leftarrow> ig_gpu ctx;
     table \<leftarrow> ig_block_table ctx;
     let hd = head_dim (ig_model ctx); nh = num_kv_heads (ig_model ctx) in
     Some (kllm_gpu_paged_attention launch gpu
       \<lparr>gp_output = gpu_output, gp_query = gpu_query, gp_block_tables = table, gp_seq_lens = [sint seq_len],
        gp_num_seqs = 1, gp_num_heads = sint nh, gp_num_kv_heads = sint (num_kv_heads (ig_model ctx)),
        gp_head_dim = sint hd, gp_max_blocks_per_seq = sint num_blocks,
        gp_scale = f32_div 0x3F800000 (sqrtf (f32_of_uint (uint hd))), gp_stream = kllm_gpu_get_stream gpu\<rparr>) }"

definition infer_gpu_result :: "bool \<Rightarrow> kllm_infer_gpu_ctx \<Rightarrow> kllm_infer_result \<Rightarrow> (int \<times> kllm_infer_result) option" where
  "infer_gpu_result calloc_ok ctx result =
    (case (case ir_logits result of
             Some l \<Rightarrow> Some l
           | None \<Rightarrow> if calloc_ok then Some (replicate (unat (ig_vocab_size ctx)) 0) else None) of
       None \<Rightarrow> Some (- 1, result)
     | Some l \<Rightarrow> do {
         i \<leftarrow> f32_argmax l (ig_vocab_size ctx);
         Some (0, \<lparr>ir_logits = Some l, ir_vocab_size = ig_vocab_size ctx, ir_next_token = i\<rparr>) })"

definition kllm_infer_gpu :: "nat \<Rightarrow> (u8 list \<Rightarrow> u8 list) \<Rightarrow> kllm_wf_completion \<Rightarrow>
    (kllm_gpu_backend \<Rightarrow> kllm_gpu_attention_params \<Rightarrow> u64 \<Rightarrow> int) \<Rightarrow> (f32 \<Rightarrow> f32) \<Rightarrow> bool \<Rightarrow>
    kllm_infer_gpu_ctx option \<Rightarrow> u32 list option \<Rightarrow> u32 \<Rightarrow> kllm_infer_result \<Rightarrow> (int \<times> kllm_infer_result) run" where
  "kllm_infer_gpu fuel sha cmpl launch sqrtf calloc_ok ctx token_ids seq_len result =
    (case (ctx, token_ids) of
       (Some ctx, Some ids) \<Rightarrow>
         if seq_len = 0 then Ret (- 1, result)
         else rbind (fetch_kv_blocks fuel sha cmpl ctx ids seq_len) (\<lambda>r.
           if r < 0 then Ret (- 1, result)
           else rbind (run_of (blocks_for seq_len (tokens_per_block (ig_model ctx)))) (\<lambda>num_blocks.
             let query_size = ucast (num_kv_heads (ig_model ctx)) * ucast (head_dim (ig_model ctx)) * 2;
                 gpu_query = kllm_gpu_malloc (ig_gpu ctx) query_size;
                 gpu_output = kllm_gpu_malloc (ig_gpu ctx) query_size
             in if gpu_query = 0 \<or> gpu_output = 0 then Ret (- 1, result)
                else rbind (run_of (infer_gpu_attend launch sqrtf ctx seq_len num_blocks gpu_query gpu_output)) (\<lambda>rc.
                  if rc < 0 then Ret (- 1, result)
                  else run_of (infer_gpu_result calloc_ok ctx result))))
     | _ \<Rightarrow> Ret (- 1, result))"

definition kllm_infer_gpu_escalate :: "nat \<Rightarrow> (u8 list \<Rightarrow> u8 list) \<Rightarrow> kllm_wf_completion \<Rightarrow>
    (kllm_gpu_backend \<Rightarrow> kllm_gpu_attention_params \<Rightarrow> u64 \<Rightarrow> int) \<Rightarrow> (f32 \<Rightarrow> f32) \<Rightarrow> bool \<Rightarrow>
    kllm_infer_gpu_ctx option \<Rightarrow> u32 list option \<Rightarrow> u32 \<Rightarrow> kllm_infer_result \<Rightarrow> (int \<times> kllm_infer_result) run" where
  "kllm_infer_gpu_escalate fuel sha cmpl launch sqrtf calloc_ok ctx token_ids seq_len result =
    (if ctx = None \<or> token_ids = None \<or> seq_len = 0 then Ret (- 1, result)
     else kllm_infer_gpu fuel sha cmpl launch sqrtf calloc_ok ctx token_ids seq_len result)"

section \<open>What the loop submits\<close>

lemma fetch_step_ok:
  assumes "unat seq_len \<le> length ids" "ig_block_table ctx = Some table" "b < length table"
    "length (wf_blocks wv) = 64" "unat (wf_num_blocks wv) < 64"
  obtains wv' submitted' where "length (wf_blocks wv') = 64" "unat (wf_num_blocks wv') < 64"
    "submitted' + wf_num_blocks wv' = submitted + wf_num_blocks wv + 1"
    "unat (wf_num_blocks wv) \<noteq> 63 \<longrightarrow> submitted' = submitted"
    "fetch_step sha ctx ids seq_len b wv submitted =
       (if unat (wf_num_blocks wv) = 63 \<and> ig_wf ctx = None then Some (Inl (- 1)) else Some (Inr (wv', submitted')))"
proof -
  define pl where "pl = (of_nat b + 1) * tokens_per_block (ig_model ctx)"
  have "unat (if pl > seq_len then seq_len else pl) \<le> length ids"
    using assms(1) by (simp add: word_less_nat_alt)
  then obtain key where key: "sha_tokens sha ids (if pl > seq_len then seq_len else pl) = Some key"
    by (simp only: sha_tokens_def if_True)
  define blocks where "blocks = (wf_blocks wv)[unat (wf_num_blocks wv) := \<lparr>bd_obj_key = key, bd_vram_dest_addr = table ! b,
    bd_block_size = ucast (kllm_block_total_bytes (ig_model ctx)), bd_layer_start = 0, bd_layer_count = num_layers (ig_model ctx)\<rparr>]"
  define wv1 where "wv1 = wv\<lparr>wf_blocks := blocks, wf_num_blocks := wf_num_blocks wv + 1\<rparr>"
  have n1: "unat (wf_num_blocks wv1) = Suc (unat (wf_num_blocks wv))"
    using assms(5) unfolding wv1_def by (simp add: unat_word_ariths)
  have full: "wf_num_blocks wv1 \<ge> KLLM_WAVEFRONT_MAX_BLOCKS \<longleftrightarrow> unat (wf_num_blocks wv) = 63"
    using n1 assms(5) by (auto simp: word_le_nat_alt KLLM_WAVEFRONT_MAX_BLOCKS_def)
  have "wf_num_blocks wv1 \<noteq> 0" using n1 by (metis Zero_not_Suc unat_0)
  then have sub: "kllm_wavefront_submit (ig_wf ctx) (Some wv1) < 0 \<longleftrightarrow> ig_wf ctx = None"
    by (simp add: kllm_wavefront_submit_def split: option.splits)
  have step: "fetch_step sha ctx ids seq_len b wv submitted =
    (if unat (wf_num_blocks wv) = 63 then
       if ig_wf ctx = None then Some (Inl (- 1)) else Some (Inr (wv1\<lparr>wf_num_blocks := 0\<rparr>, submitted + wf_num_blocks wv1))
     else Some (Inr (wv1, submitted)))"
    unfolding fetch_step_def Let_def pl_def[symmetric] key assms(2) bind.simps
    using assms(3-5) by (simp only: arr_get_in arr_set_in bind.simps full[symmetric] sub[symmetric] blocks_def[symmetric] wv1_def[symmetric])
  have len: "length (wf_blocks wv1) = 64" using assms(4) by (simp add: wv1_def blocks_def)
  show thesis
  proof (cases "unat (wf_num_blocks wv) = 63")
    case True
    with step len show ?thesis by (intro that[of "wv1\<lparr>wf_num_blocks := 0\<rparr>"]) (auto simp: wv1_def)
  next
    case False
    with step len n1 assms(5) show ?thesis by (intro that[of wv1 submitted]) (auto simp: wv1_def)
  qed
qed

lemma fetch_loop_ok:
  assumes "unat seq_len \<le> length ids" "ig_block_table ctx = Some table" "n \<le> length table" "k \<le> n"
    "length (wf_blocks wv) = 64" "unat (wf_num_blocks wv) < 64"
  shows "(\<exists>wv' submitted'. fetch_loop sha ctx ids seq_len [k..<n] wv submitted = Some (Inr (wv', submitted')) \<and>
      submitted' + wf_num_blocks wv' = submitted + wf_num_blocks wv + of_nat (n - k) \<and>
      (ig_wf ctx = None \<longrightarrow> submitted' = submitted)) \<or>
    ig_wf ctx = None \<and> fetch_loop sha ctx ids seq_len [k..<n] wv submitted = Some (Inl (- 1))"
  using assms(4-6)
proof (induction "n - k" arbitrary: k wv submitted)
  case 0
  then show ?case by simp
next
  case (Suc x)
  then have k: "k < n" "k < length table" using assms(3) by simp_all
  obtain wv' submitted' where s: "length (wf_blocks wv') = 64" "unat (wf_num_blocks wv') < 64"
    "submitted' + wf_num_blocks wv' = submitted + wf_num_blocks wv + 1"
    "unat (wf_num_blocks wv) \<noteq> 63 \<longrightarrow> submitted' = submitted"
    "fetch_step sha ctx ids seq_len k wv submitted =
       (if unat (wf_num_blocks wv) = 63 \<and> ig_wf ctx = None then Some (Inl (- 1)) else Some (Inr (wv', submitted')))"
    by (rule fetch_step_ok[OF assms(1,2) k(2) Suc.prems(2,3)])
  show ?case
  proof (cases "unat (wf_num_blocks wv) = 63 \<and> ig_wf ctx = None")
    case True
    with s(5) k(1) show ?thesis by (simp add: upt_conv_Cons)
  next
    case False
    then have step: "fetch_loop sha ctx ids seq_len [k..<n] wv submitted = fetch_loop sha ctx ids seq_len [Suc k..<n] wv' submitted'"
      unfolding upt_conv_Cons[OF k(1)] fetch_loop.simps s(5) if_not_P[OF False] by simp
    have sum: "submitted' + wf_num_blocks wv' + of_nat (n - Suc k) = submitted + wf_num_blocks wv + of_nat (n - k)"
      using s(3) k(1) by (simp add: Suc_diff_Suc[symmetric] add.assoc)
    have keep: "ig_wf ctx = None \<longrightarrow> submitted' = submitted" using s(4) False by blast
    show ?thesis
      using Suc.hyps(1)[of "Suc k" wv' submitted'] Suc.hyps(2) k(1) s(1,2) keep unfolding step sum by auto
  qed
qed

lemma wait_hangs: "0 < submitted \<Longrightarrow> wait_completions fuel wx cmpl 0 submitted = Hang"
  by (induction fuel arbitrary: cmpl) (simp_all add: kllm_wavefront_poll_def)

lemma wait_ret: "wait_completions fuel wx cmpl 0 0 = Ret ()"
  by (cases fuel) simp_all

lemma infer_gpu_not_0: "kllm_infer_gpu fuel sha cmpl launch sqrtf ok ctx ids seq_len result \<noteq> Ret (0, r)"
proof -
  have "rbind x f = Ret y \<Longrightarrow> \<exists>a. f a = Ret y" for x :: "int run" and f and y :: "int \<times> kllm_infer_result"
    by (cases x) auto
  moreover have "rbind x f = Ret y \<Longrightarrow> \<exists>a. f a = Ret y" for x :: "u32 run" and f and y :: "int \<times> kllm_infer_result"
    by (cases x) auto
  ultimately show ?thesis
    unfolding kllm_infer_gpu_def kllm_gpu_malloc_def Let_def by (fastforce split: option.splits if_splits)
qed

text \<open>The blocks of a sequence are there, and the context has room for them.\<close>

definition fetch_ready :: "kllm_infer_gpu_ctx \<Rightarrow> u32 list \<Rightarrow> u32 \<Rightarrow> bool" where
  "fetch_ready ctx ids seq_len \<longleftrightarrow> seq_len \<noteq> 0 \<and> unat seq_len \<le> length ids \<and>
    tokens_per_block (ig_model ctx) \<noteq> 0 \<and> unat seq_len + unat (tokens_per_block (ig_model ctx)) - 1 < 2 ^ 32 \<and>
    (\<exists>table. ig_block_table ctx = Some table \<and>
      (unat seq_len + unat (tokens_per_block (ig_model ctx)) - 1) div unat (tokens_per_block (ig_model ctx)) \<le> length table)"

lemma blocks_for_exact:
  assumes "seq_len \<noteq> 0" "tpb \<noteq> 0" "unat seq_len + unat tpb - 1 < 2 ^ 32"
  obtains n where "blocks_for seq_len tpb = Some n" "unat n = (unat seq_len + unat tpb - 1) div unat tpb" "n \<noteq> 0"
proof -
  have pos: "0 < unat seq_len" "0 < unat tpb" using assms by (simp_all add: unat_gt_0)
  have "seq_len + tpb - 1 = word_of_nat (unat seq_len + unat tpb - 1)"
    using pos by (simp add: of_nat_diff)
  then have "unat (seq_len + tpb - 1) = unat seq_len + unat tpb - 1"
    using assms(3) by (simp only: unat_of_nat) simp
  then have u: "unat ((seq_len + tpb - 1) div tpb) = (unat seq_len + unat tpb - 1) div unat tpb"
    by (simp only: unat_div_distrib)
  moreover have "0 < (unat seq_len + unat tpb - 1) div unat tpb"
    using pos by (simp add: div_greater_zero_iff)
  ultimately show thesis using that[of "(seq_len + tpb - 1) div tpb"] assms(2) unfolding blocks_for_def
    by (metis less_numeral_extra(3) unat_0)
qed

lemma fetch_result:
  assumes "fetch_ready ctx ids seq_len"
  shows "fetch_kv_blocks fuel sha cmpl ctx ids seq_len = (if ig_wf ctx = None then Ret (- 1) else Hang)"
proof -
  obtain table where t: "ig_block_table ctx = Some table"
    "(unat seq_len + unat (tokens_per_block (ig_model ctx)) - 1) div unat (tokens_per_block (ig_model ctx)) \<le> length table"
    using assms unfolding fetch_ready_def by blast
  obtain n where n: "blocks_for seq_len (tokens_per_block (ig_model ctx)) = Some n" "n \<noteq> 0" "unat n \<le> length table"
    using blocks_for_exact[of seq_len "tokens_per_block (ig_model ctx)"] assms t(2) unfolding fetch_ready_def by metis
  define wv0 where "wv0 = zero_wavefront\<lparr>wf_flags := KLLM_WF_FLAG_KV_FETCH\<rparr>"
  have w0: "length (wf_blocks wv0) = 64" "wf_num_blocks wv0 = 0" by (simp_all add: wv0_def zero_wavefront_def)
  have len: "unat seq_len \<le> length ids" using assms unfolding fetch_ready_def by blast
  note unf = fetch_kv_blocks_def n(1) run_of_def wv0_def[symmetric]
  consider (early) "ig_wf ctx = None" "fetch_loop sha ctx ids seq_len [0..<unat n] wv0 0 = Some (Inl (- 1))"
    | (loop) wv s where "fetch_loop sha ctx ids seq_len [0..<unat n] wv0 0 = Some (Inr (wv, s))"
        "s + wf_num_blocks wv = n" "ig_wf ctx = None \<longrightarrow> s = 0"
    using fetch_loop_ok[OF len t(1) n(3), of 0 wv0 sha 0] w0 by auto
  then show ?thesis
  proof cases
    case early
    then show ?thesis by (simp add: unf)
  next
    case loop
    show ?thesis
    proof (cases "ig_wf ctx")
      case None
      then have "wf_num_blocks wv = n" using loop by simp
      then show ?thesis using None loop n(2) by (simp add: unf kllm_wavefront_submit_def word_gt_0)
    next
      case (Some w)
      have "0 < n" using n(2) by (simp add: word_gt_0)
      then have h: "wait_completions fuel (Some w) cmpl 0 n = Hang" by (rule wait_hangs)
      show ?thesis
      proof (cases "wf_num_blocks wv = 0")
        case True
        then show ?thesis using Some loop h by (simp add: unf)
      next
        case False
        then show ?thesis using Some loop h by (simp add: unf kllm_wavefront_submit_def word_gt_0)
      qed
    qed
  qed
qed

section \<open>Set-up and release\<close>

definition maps_nonzero :: "mmap_results \<Rightarrow> bool" where
  "maps_nonzero m \<longleftrightarrow> fst m \<noteq> Some 0 \<and> snd m \<noteq> Some 0"

lemma destroy_created:
  assumes p2p: "kllm_p2p_create c fd g (heap_alloc True rs0) = (Some p2p, rs)"
    and kv: "kllm_p2p_alloc_region p2p km ksz rs = (0, kv, rs1)" "maps_nonzero km"
    and lg: "kllm_p2p_alloc_region p2p lm lsz rs1 = (0, lg, rs2)" "maps_nonzero lm"
    and ctx: "ig_p2p ctx = Some p2p" "ig_kv_region ctx = kv" "ig_logits_region ctx = lg"
      "ig_host_logits ctx \<noteq> None \<longleftrightarrow> ok1" "ig_block_table ctx \<noteq> None \<longleftrightarrow> ok2"
  shows "kllm_infer_gpu_destroy (Some ctx) (heap_alloc ok2 (heap_alloc ok1 rs2)) = rs0"
proof -
  obtain p where p: "fst km = Some p \<or> snd km = Some p" "pr_gpu_va kv = p" "pr_size_bytes kv = ksz" "pr_flags kv = 3"
    "rs1 = rs\<lparr>rs_maps := (p, ksz) # rs_maps rs\<rparr>" using alloc_region_uma[OF kv(1)] by metis
  obtain q where q: "fst lm = Some q \<or> snd lm = Some q" "pr_gpu_va lg = q" "pr_size_bytes lg = lsz" "pr_flags lg = 3"
    "rs2 = rs1\<lparr>rs_maps := (q, lsz) # rs_maps rs1\<rparr>" using alloc_region_uma[OF lg(1)] by metis
  have nz: "p \<noteq> 0" "q \<noteq> 0" using p(1) q(1) kv(2) lg(2) by (auto simp: maps_nonzero_def)
  have f: "snd (kllm_p2p_free_region kv rs1) = rs" "snd (kllm_p2p_free_region lg rs2) = rs1"
    unfolding q(5) free_mapped_region[OF q(4,2,3) nz(2)] by (simp_all only: p(5) free_mapped_region[OF p(4,2,3) nz(1)] snd_conv)
  have h: "free_ptr (ig_block_table ctx) (free_ptr (ig_host_logits ctx) (heap_alloc ok2 (heap_alloc ok1 rs2))) = rs2"
    using ctx(4,5) by (cases "ig_host_logits ctx"; cases "ig_block_table ctx")
      (simp_all add: free_ptr_def heap_alloc_def heap_free_def)
  have "heap_free (kllm_p2p_destroy (Some p2p) rs) = rs0"
    using p2p_create_destroy[OF p2p] by (simp add: heap_free_def heap_alloc_def)
  then show ?thesis by (simp add: kllm_infer_gpu_destroy_def ctx(1-3) h f)
qed

lemma create_balanced:
  assumes res: "kllm_infer_gpu_create env cfg rs0 = Ret (c, rs')"
    and maps: "maps_nonzero (ge_kv_maps env)" "maps_nonzero (ge_logits_maps env)"
  shows "kllm_infer_gpu_destroy c rs' = rs0"
proof (cases "ge_calloc_ctx env")
  case False
  then show ?thesis using res by (simp add: kllm_infer_gpu_create_def kllm_infer_gpu_destroy_def)
next
  case True
  obtain po rs where p2p: "kllm_p2p_create (ge_calloc_p2p env) (ge_open_fd env) (gc_gpu_id cfg) (heap_alloc True rs0) = (po, rs)"
    by (metis surj_pair)
  show ?thesis
  proof (cases po)
    case None
    then have "rs = heap_alloc True rs0" using p2p by (simp add: kllm_p2p_create_def split: if_splits)
    then show ?thesis using res True p2p None
      by (auto simp: kllm_infer_gpu_create_def kllm_infer_gpu_destroy_def heap_alloc_def heap_free_def)
  next
    case (Some p)
    have undo: "heap_free (kllm_p2p_destroy (Some p) rs) = rs0"
      using p2p_create_destroy[of _ _ _ "heap_alloc True rs0" p rs] p2p Some by (simp add: heap_free_def heap_alloc_def)
    obtain n where n: "blocks_for (gc_max_seq_len cfg) (tokens_per_block (gc_model cfg)) = Some n"
      using res True p2p Some by (cases "blocks_for (gc_max_seq_len cfg) (tokens_per_block (gc_model cfg))")
        (simp_all add: kllm_infer_gpu_create_def run_of_def Let_def)
    define ksz where "ksz = kllm_block_total_bytes (gc_model cfg) * ucast n"
    obtain r1 kv rs1 where kv: "kllm_p2p_alloc_region p (ge_kv_maps env) ksz rs = (r1, kv, rs1)" by (metis surj_pair)
    obtain r2 lg rs2 where lg: "kllm_p2p_alloc_region p (ge_logits_maps env) (ucast (gc_vocab_size cfg) * 4) rs1 = (r2, lg, rs2)"
      by (metis surj_pair)
    note unf = kllm_infer_gpu_create_def True p2p Some n run_of_def Let_def kv[unfolded ksz_def] lg
    show ?thesis
    proof (cases "r1 = 0")
      case False
      then have "r1 < 0" "rs1 = rs" using alloc_region_result[OF kv] by simp_all
      then show ?thesis using res undo by (auto simp: unf kllm_infer_gpu_destroy_def)
    next
      case r1: True
      show ?thesis
      proof (cases "r2 = 0")
        case False
        then have r2: "r2 < 0" "rs2 = rs1" using alloc_region_result[OF lg] by simp_all
        obtain q where q: "fst (ge_kv_maps env) = Some q \<or> snd (ge_kv_maps env) = Some q" "pr_gpu_va kv = q"
          "pr_size_bytes kv = ksz" "pr_flags kv = 3" "rs1 = rs\<lparr>rs_maps := (q, ksz) # rs_maps rs\<rparr>"
          using alloc_region_uma[OF kv[unfolded r1]] by metis
        then have "q \<noteq> 0" using maps(1) by (auto simp: maps_nonzero_def)
        then have "snd (kllm_p2p_free_region kv rs1) = rs" using free_mapped_region[OF q(4,2,3)] q(5) by simp
        then show ?thesis using res undo r1 r2 by (auto simp: unf kllm_infer_gpu_destroy_def)
      next
        case r2: True
        note d = destroy_created[OF p2p[unfolded Some] kv[unfolded r1] maps(1) lg[unfolded r2] maps(2)]
        show ?thesis
          using res by (auto simp: unf r1 r2 kllm_infer_gpu_destroy_def[of None] intro!: d split: if_splits)
      qed
    qed
  qed
qed

lemma create_discrete:
  assumes "0 \<le> ge_open_fd env" "kllm_infer_gpu_create env cfg rs0 = Ret (c, rs')"
  shows "c = None"
proof -
  have "px_is_uma p = False" if "kllm_p2p_create ok (ge_open_fd env) g rs = (Some p, rs1)" for p ok g rs rs1
    using that assms(1) by (auto simp: kllm_p2p_create_def split: if_splits)
  then show ?thesis using assms(2)
    by (cases "blocks_for (gc_max_seq_len cfg) (tokens_per_block (gc_model cfg))")
      (auto simp: kllm_infer_gpu_create_def Let_def run_of_def kllm_p2p_alloc_region_def split: if_splits prod.splits option.splits)
qed

section \<open>Properties\<close>

text \<open>C19: \<open>kllm_infer_gpu\<close> never produces a token. For a sequence whose blocks the context can hold, it
  returns -1 when there is no wavefront context and does not return at all when there is one: the
  submitted fetches are never reported complete, so for no amount of fuel does the waiting loop end.
  In no other situation does it return 0 either, because the device allocation always fails.\<close>

theorem infer_gpu_never_succeeds:
  assumes "fetch_ready ctx ids seq_len"
  shows "(\<forall>fuel. kllm_infer_gpu fuel sha cmpl launch sqrtf ok (Some ctx) (Some ids) seq_len result =
      (if ig_wf ctx = None then Ret (- 1, result) else Hang)) \<and>
    (\<forall>fuel ctx' ids' n r. kllm_infer_gpu fuel sha cmpl launch sqrtf ok ctx' ids' n result \<noteq> Ret (0, r))"
proof -
  have "seq_len \<noteq> 0" using assms by (simp add: fetch_ready_def)
  then show ?thesis
    using infer_gpu_not_0 by (simp add: kllm_infer_gpu_def fetch_result[OF assms])
qed

definition sample_gpu_ctx :: kllm_infer_gpu_ctx where
  "sample_gpu_ctx = \<lparr>ig_gpu = Some \<lparr>gx_backend = KLLM_GPU_CUDA, gx_stream = 0, gx_lib_handle = 0\<rparr>,
     ig_wf = kllm_wavefront_create True True [], ig_p2p = None, ig_model = sample_model,
     ig_kv_region = zero_region, ig_logits_region = zero_region, ig_host_logits = None, ig_vocab_size = 4,
     ig_block_table = Some [4096, 8192], ig_max_blocks = 2\<rparr>"

theorem infer_gpu_never_succeeds_witness:
  "kllm_infer_gpu 1000 (\<lambda>bs. bs)
     \<lparr>wc_sequence_id = 0, wc_blocks_completed = 0, wc_blocks_failed = 0, wc_total_bytes = 0, wc_latency_ns = 0\<rparr>
     (\<lambda>_ _ _. 0) (\<lambda>x. x) True (Some sample_gpu_ctx) (Some [1, 2, 3]) 3 infer_result0 = Hang"
proof -
  have "fetch_ready sample_gpu_ctx [1, 2, 3] 3" by (simp add: fetch_ready_def sample_gpu_ctx_def sample_model_def)
  moreover have "ig_wf sample_gpu_ctx \<noteq> None" by (simp add: sample_gpu_ctx_def kllm_wavefront_create_def)
  ultimately show ?thesis using infer_gpu_never_succeeds[of sample_gpu_ctx "[1, 2, 3]" 3] by auto
qed

text \<open>C21: Set-up and release of GPU inference are balanced. Whatever allocation or system call fails, a failed
  \<open>kllm_infer_gpu_create\<close> has released every descriptor, mapping and heap object it took, and after a
  successful one \<open>kllm_infer_gpu_destroy\<close> releases exactly those, provided that \<open>mmap\<close> gives no mapping at
  address 0. Where the render node of a discrete GPU can be opened, creation always fails.\<close>

theorem gpu_create_balanced:
  assumes "kllm_infer_gpu_create env cfg rs0 = Ret (c, rs')" "maps_nonzero (ge_kv_maps env)" "maps_nonzero (ge_logits_maps env)"
  shows "kllm_infer_gpu_destroy c rs' = rs0 \<and> (c = None \<longrightarrow> rs' = rs0) \<and> (0 \<le> ge_open_fd env \<longrightarrow> c = None)"
  using create_balanced[OF assms] create_discrete[OF _ assms(1)] by (auto simp: kllm_infer_gpu_destroy_def)

definition sample_gpu_env :: gpu_env where
  "sample_gpu_env = \<lparr>ge_calloc_ctx = True, ge_calloc_p2p = True, ge_open_fd = - 1, ge_kv_maps = (None, Some 4096),
     ge_logits_maps = (Some 65536, None), ge_calloc_logits = True, ge_calloc_table = False\<rparr>"

definition sample_gpu_config :: kllm_infer_gpu_config where
  "sample_gpu_config = \<lparr>gc_gpu = None, gc_wf = None, gc_gpu_id = 0, gc_model = sample_model, gc_vocab_size = 4, gc_max_seq_len = 40\<rparr>"

theorem gpu_create_balanced_witness:
  "\<exists>rs'. kllm_infer_gpu_create sample_gpu_env sample_gpu_config \<lparr>rs_fds = [0, 1, 2], rs_maps = [], rs_heap = 7\<rparr> = Ret (None, rs') \<and>
    rs' = \<lparr>rs_fds = [0, 1, 2], rs_maps = [], rs_heap = 7\<rparr>"
proof -
  have "\<exists>rs'. kllm_infer_gpu_create sample_gpu_env sample_gpu_config \<lparr>rs_fds = [0, 1, 2], rs_maps = [], rs_heap = 7\<rparr> = Ret (None, rs')"
    by (simp add: kllm_infer_gpu_create_def sample_gpu_env_def sample_gpu_config_def kllm_p2p_create_def blocks_for_def
        run_of_def sample_model_def kllm_p2p_alloc_region_def Let_def)
  moreover have "maps_nonzero (ge_kv_maps sample_gpu_env)" "maps_nonzero (ge_logits_maps sample_gpu_env)"
    by (simp_all add: maps_nonzero_def sample_gpu_env_def)
  ultimately show ?thesis using gpu_create_balanced by blast
qed

end
