(* ===== verification/Infer_Cpu.thy ===== *)
theory Infer_Cpu
  imports Infer_Result Cache_Index Block_Format Wavefront
begin

text \<open>
  CPU inference (\<open>userspace/compute/infer_cpu.c\<close>): a content-addressed lookup, attention over the
  cached block for every layer, projection to logits and the greedy choice. The memory of the arena is
  a partial function from byte addresses to the bf16 element stored there; SHA-256, \<open>expf\<close>, \<open>sqrtf\<close>,
  the clock and the results of \<open>calloc\<close> are fields of the environment, the last two per layer.
\<close>

record cpu_env =
  cv_sha :: "u8 list \<Rightarrow> u8 list"
  cv_flags :: build_flags
  cv_isa :: kllm_isa_level
  cv_avx :: avx_ops
  cv_expf :: "f32 \<Rightarrow> f32"
  cv_sqrtf :: "f32 \<Rightarrow> f32"
  cv_mem :: "u64 \<Rightarrow> bf16 option"
  cv_now :: "nat \<Rightarrow> u64"
  cv_calloc_q :: "nat \<Rightarrow> bool"
  cv_calloc_attn :: "nat \<Rightarrow> bool"
  cv_calloc_hidden :: bool
  cv_calloc_logits :: bool

record kllm_infer_cpu_ctx =
  ic_cache_idx :: kllm_cache_index
  ic_model :: kllm_model_config
  ic_lm_head :: "bf16 list option"
  ic_vocab_size :: u32

section \<open>One layer\<close>

definition tensor_view :: "cpu_env \<Rightarrow> u64 \<Rightarrow> bf16_view" where
  "tensor_view env base i = cv_mem env (base + 2 * of_nat i)"

definition read_view :: "bf16_view \<Rightarrow> nat \<Rightarrow> nat \<Rightarrow> bf16 list option" where
  "read_view v off n = those (map (\<lambda>i. v (off + i)) [0..<n])"

text \<open>The synthetic query: the last position of K, or zeros when that lies outside the block.\<close>

definition synthetic_query :: "kllm_model_config \<Rightarrow> bf16_view \<Rightarrow> u32 \<Rightarrow> bf16 list option" where
  "synthetic_query m k seq_len =
    (let q_size = num_kv_heads m * head_dim m;
         last_pos_offset = (seq_len - 1) * num_kv_heads m * head_dim m
     in if last_pos_offset + q_size \<le> tokens_per_block m * q_size
        then read_view k (unat last_pos_offset) (unat q_size)
        else Some (replicate (unat q_size) 0))"

definition layer_attn_params :: "cpu_env \<Rightarrow> kllm_model_config \<Rightarrow> u32 \<Rightarrow> kllm_attention_params" where
  "layer_attn_params env m seq_len = \<lparr>ap_num_heads = num_kv_heads m, ap_head_dim = head_dim m, ap_seq_len = seq_len,
     ap_query_len = 1, ap_scale = f32_div 0x3F800000 (cv_sqrtf env (f32_of_uint (uint (head_dim m))))\<rparr>"

definition attend_block :: "cpu_env \<Rightarrow> kllm_model_config \<Rightarrow> u64 \<Rightarrow> u32 \<Rightarrow> u32 \<Rightarrow> (int \<times> bf16 list) option" where
  "attend_block env m kv_block layer seq_len =
    (let k = tensor_view env (kllm_block_key kv_block m layer);
         v = tensor_view env (kllm_block_value kv_block m layer);
         q_size = num_kv_heads m * head_dim m
     in if \<not> cv_calloc_q env (unat layer) then Some (- 1, [])
        else do {
          q \<leftarrow> synthetic_query m k seq_len;
          if \<not> cv_calloc_attn env (unat layer) then Some (- 1, [])
          else do {
            (rc, out) \<leftarrow> kllm_ace_attention (cv_flags env) (cv_isa env) (cv_avx env) (cv_expf env)
              (Some (arr_get q)) (Some k) (Some v) (Some (replicate (unat q_size) 0))
              (Some (layer_attn_params env m seq_len));
            attn_output \<leftarrow> out;
            if rc < 0 then Some (- 1, []) else Some (0, attn_output) } })"

definition memcpy_prefix :: "'a list \<Rightarrow> 'a list \<Rightarrow> nat \<Rightarrow> 'a list option" where
  "memcpy_prefix dst src n = (if n \<le> length dst \<and> n \<le> length src then Some (take n src @ drop n dst) else None)"

definition kllm_infer_cpu_single_layer :: "cpu_env \<Rightarrow> kllm_infer_cpu_ctx option \<Rightarrow> u32 list option \<Rightarrow> u32 \<Rightarrow> u32 \<Rightarrow>
    bf16 list \<Rightarrow> u32 \<Rightarrow> (int \<times> kllm_infer_cpu_ctx option \<times> bf16 list) option" where
  "kllm_infer_cpu_single_layer env ctx token_ids seq_len layer_idx output output_dim =
    (case (ctx, token_ids) of
       (Some c, Some ids) \<Rightarrow>
         if seq_len = 0 then Some (- 1, ctx, output)
         else do {
           seq_hash \<leftarrow> sha_tokens (cv_sha env) ids seq_len;
           (kv_block, idx) \<leftarrow> kllm_index_lookup (cv_now env (unat layer_idx)) (ic_cache_idx c) seq_hash;
           let ctx' = Some (c\<lparr>ic_cache_idx := idx\<rparr>) in
           if kv_block = 0 then Some (- 1, ctx', output)
           else do {
             (rc, attn_output) \<leftarrow> attend_block env (ic_model c) kv_block layer_idx seq_len;
             if rc < 0 then Some (- 1, ctx', output)
             else do {
               let q_size = num_kv_heads (ic_model c) * head_dim (ic_model c);
                   copy_dim = (if output_dim < q_size then output_dim else q_size) in do {
               output' \<leftarrow> memcpy_prefix output attn_output (unat copy_dim);
               Some (0, ctx', output') } } } }
     | _ \<Rightarrow> Some (- 1, ctx, output))"

section \<open>All layers and the logits\<close>

fun layer_loop :: "cpu_env \<Rightarrow> kllm_infer_cpu_ctx option \<Rightarrow> u32 list option \<Rightarrow> u32 \<Rightarrow> bf16 list \<Rightarrow> u32 \<Rightarrow> nat list \<Rightarrow>
    (int \<times> kllm_infer_cpu_ctx option \<times> bf16 list) option" where
  "layer_loop env ctx ids seq_len hidden hidden_dim [] = Some (0, ctx, hidden)"
| "layer_loop env ctx ids seq_len hidden hidden_dim (l # ls) = do {
     (rc, ctx', hidden') \<leftarrow> kllm_infer_cpu_single_layer env ctx ids seq_len (of_nat l) hidden hidden_dim;
     if rc < 0 then Some (- 1, ctx', hidden') else layer_loop env ctx' ids seq_len hidden' hidden_dim ls }"

fun lm_dot :: "bf16 list \<Rightarrow> bf16 list \<Rightarrow> nat \<Rightarrow> f32 \<Rightarrow> nat list \<Rightarrow> f32 option" where
  "lm_dot hidden lm row acc [] = Some acc"
| "lm_dot hidden lm row acc (d # ds) = do {
     x \<leftarrow> arr_get hidden d;
     w \<leftarrow> arr_get lm (row + d);
     lm_dot hidden lm row (f32_add acc (f32_mul (bf16_to_f32 x) (bf16_to_f32 w))) ds }"

definition logit_value :: "bf16 list option \<Rightarrow> bf16 list \<Rightarrow> u32 \<Rightarrow> nat \<Rightarrow> f32 option" where
  "logit_value lm_head hidden hidden_dim v =
    (case lm_head of
       Some lm \<Rightarrow> lm_dot hidden lm (unat (of_nat v * hidden_dim :: u32)) 0 [0..<unat hidden_dim]
     | None \<Rightarrow> if hidden_dim = 0 then None
               else do { x \<leftarrow> arr_get hidden (unat (of_nat v mod hidden_dim)); Some (bf16_to_f32 x) })"

fun fill_logits :: "bf16 list option \<Rightarrow> bf16 list \<Rightarrow> u32 \<Rightarrow> f32 list \<Rightarrow> nat list \<Rightarrow> f32 list option" where
  "fill_logits lm_head hidden hidden_dim logits [] = Some logits"
| "fill_logits lm_head hidden hidden_dim logits (v # vs) = do {
     x \<leftarrow> logit_value lm_head hidden hidden_dim v;
     logits' \<leftarrow> arr_set logits v x;
     fill_logits lm_head hidden hidden_dim logits' vs }"

text \<open>The part after the layers: logits and the greedy choice.\<close>

definition project_logits :: "cpu_env \<Rightarrow> kllm_infer_cpu_ctx \<Rightarrow> bf16 list \<Rightarrow> kllm_infer_result \<Rightarrow>
    (int \<times> kllm_infer_result) option" where
  "project_logits env c hidden result =
    (case (case ir_logits result of
             Some l \<Rightarrow> Some l
           | None \<Rightarrow> if cv_calloc_logits env then Some (replicate (unat (ic_vocab_size c)) 0) else None) of
       None \<Rightarrow> Some (- 1, result)
     | Some l \<Rightarrow> do {
         l' \<leftarrow> fill_logits (ic_lm_head c) hidden (num_kv_heads (ic_model c) * head_dim (ic_model c)) l [0..<unat (ic_vocab_size c)];
         i \<leftarrow> f32_argmax l' (ic_vocab_size c);
         Some (0, \<lparr>ir_logits = Some l', ir_vocab_size = ic_vocab_size c, ir_next_token = i\<rparr>) })"

definition kllm_infer_cpu :: "cpu_env \<Rightarrow> kllm_infer_cpu_ctx option \<Rightarrow> u32 list option \<Rightarrow> u32 \<Rightarrow> kllm_infer_result \<Rightarrow>
    (int \<times> kllm_infer_cpu_ctx option \<times> kllm_infer_result) option" where
  "kllm_infer_cpu env ctx token_ids seq_len result = do {
     c \<leftarrow> ctx;
     let hidden_dim = num_kv_heads (ic_model c) * head_dim (ic_model c) in
     if \<not> cv_calloc_hidden env then Some (- 1, ctx, result)
     else do {
       (rc, ctx', hidden) \<leftarrow> layer_loop env ctx token_ids seq_len (replicate (unat hidden_dim) 0) hidden_dim
         [0..<unat (num_layers (ic_model c))];
       if rc < 0 then Some (- 1, ctx', result)
       else do {
         (rc, result') \<leftarrow> project_logits env c hidden result;
         Some (rc, ctx', result') } } }"

section \<open>Memory of the cached blocks\<close>

definition block_resident :: "cpu_env \<Rightarrow> kllm_model_config \<Rightarrow> u64 \<Rightarrow> bool" where
  "block_resident env m b \<longleftrightarrow>
    (\<forall>j < unat (num_layers m) * elems_exact m * 2. cv_mem env (b + 128 + 2 * of_nat j) \<noteq> None)"

definition arena_resident :: "cpu_env \<Rightarrow> kllm_model_config \<Rightarrow> kllm_arena \<Rightarrow> bool" where
  "arena_resident env m a \<longleftrightarrow> (\<forall>i < unat (ar_total_slots a). block_resident env m (slot_addr a i))"

lemma key_elem: "tensor_view env (kllm_block_key b m l) j = cv_mem env (b + 128 + 2 * of_nat (unat l * elems_exact m * 2 + j))"
  by (simp add: tensor_view_def block_key_of_nat algebra_simps)

lemma value_elem:
  "tensor_view env (kllm_block_value b m l) j = cv_mem env (b + 128 + 2 * of_nat (unat l * elems_exact m * 2 + elems_exact m + j))"
  by (simp add: tensor_view_def block_value_of_nat algebra_simps)

lemma layer_views:
  assumes "block_resident env m b" "l < num_layers m"
  shows "view_upto (tensor_view env (kllm_block_key b m l)) (elems_exact m)"
    "view_upto (tensor_view env (kllm_block_value b m l)) (elems_exact m)"
proof -
  have "Suc (unat l) * elems_exact m * 2 \<le> unat (num_layers m) * elems_exact m * 2"
    using assms(2) by (intro mult_le_mono1) (simp add: word_less_nat_alt Suc_leI)
  then have lt: "unat l * elems_exact m * 2 + j < unat (num_layers m) * elems_exact m * 2"
    "unat l * elems_exact m * 2 + elems_exact m + j < unat (num_layers m) * elems_exact m * 2"
    if "j < elems_exact m" for j using that by simp_all
  show "view_upto (tensor_view env (kllm_block_key b m l)) (elems_exact m)"
    unfolding view_upto_def key_elem using assms(1) lt(1) unfolding block_resident_def by blast
  show "view_upto (tensor_view env (kllm_block_value b m l)) (elems_exact m)"
    unfolding view_upto_def value_elem using assms(1) lt(2) unfolding block_resident_def by blast
qed

lemma those_map_total: "\<forall>x \<in> set xs. f x \<noteq> None \<Longrightarrow> \<exists>ys. those (map f xs) = Some ys \<and> length ys = length xs"
  by (induction xs) auto

lemma read_view_total: "view_upto v n \<Longrightarrow> off + k \<le> n \<Longrightarrow> \<exists>q. read_view v off k = Some q \<and> length q = k"
  using those_map_total[of "[0..<k]" "\<lambda>i. v (off + i)"] by (auto simp: read_view_def view_upto_def)

lemma u32_mult_exact: "unat x * unat y < 2 ^ 32 \<Longrightarrow> unat (x * y :: u32) = unat x * unat y"
  by (simp add: unat_word_ariths)

text \<open>With at most one block of positions, every product of the code is exact.\<close>

lemma layer_sizes:
  assumes "elems_exact m < 2 ^ 32" "seq_len \<noteq> 0" "seq_len \<le> tokens_per_block m"
  defines "Q \<equiv> unat (num_kv_heads m) * unat (head_dim m)"
  shows "unat (num_kv_heads m * head_dim m) = Q" "unat ((seq_len - 1) * num_kv_heads m * head_dim m) = (unat seq_len - 1) * Q"
    "(unat seq_len - 1) * Q + Q \<le> elems_exact m" "unat (tokens_per_block m * (num_kv_heads m * head_dim m)) = elems_exact m"
    "unat seq_len * Q \<le> elems_exact m"
proof -
  have e: "elems_exact m = unat (tokens_per_block m) * Q" by (simp add: elems_exact_def Q_def)
  have s: "0 < unat seq_len" "unat seq_len \<le> unat (tokens_per_block m)"
    using assms(2,3) by (simp_all add: unat_gt_0 word_le_nat_alt)
  then show sq: "unat seq_len * Q \<le> elems_exact m" unfolding e by (intro mult_le_mono1)
  moreover have "(unat seq_len - 1) * Q + Q = unat seq_len * Q"
    using s(1) by (cases "unat seq_len") simp_all
  ultimately show l: "(unat seq_len - 1) * Q + Q \<le> elems_exact m" by simp
  then have "Q < 2 ^ 32" "(unat seq_len - 1) * Q < 2 ^ 32" using assms(1) by simp_all
  then show q: "unat (num_kv_heads m * head_dim m) = Q" by (simp only: Q_def u32_mult_exact)
  have "unat (seq_len - 1) = unat seq_len - 1" using s(1) by (simp add: unat_sub word_le_nat_alt)
  then show "unat ((seq_len - 1) * num_kv_heads m * head_dim m) = (unat seq_len - 1) * Q"
    using u32_mult_exact[of "seq_len - 1" "num_kv_heads m * head_dim m"] q \<open>(unat seq_len - 1) * Q < 2 ^ 32\<close>
    by (simp add: mult.assoc)
  show "unat (tokens_per_block m * (num_kv_heads m * head_dim m)) = elems_exact m"
    using u32_mult_exact[of "tokens_per_block m" "num_kv_heads m * head_dim m"] q e assms(1) by simp
qed

text \<open>The vector path needs a head dimension its chunk counter can pass.\<close>

definition vector_head_ok :: "cpu_env \<Rightarrow> kllm_model_config \<Rightarrow> bool" where
  "vector_head_ok env m \<longleftrightarrow> (avx_selected (cv_flags env) (cv_isa env) \<longrightarrow> unat (head_dim m) < 2 ^ 32 - 32)"

lemma attend_block_total:
  assumes "block_resident env m b" "l < num_layers m" "elems_exact m < 2 ^ 32" "seq_len \<noteq> 0" "seq_len \<le> tokens_per_block m"
    and "vector_head_ok env m"
  shows "\<exists>rc out. attend_block env m b l seq_len = Some (rc, out) \<and>
    (rc = 0 \<and> length out = unat (num_kv_heads m * head_dim m) \<or> rc = - 1)"
proof -
  note views = layer_views[OF assms(1,2)]
  note sz = layer_sizes[OF assms(3-5)]
  have Q: "unat (num_kv_heads m) * unat (head_dim m) < 2 ^ 32" using sz(3) assms(3) by simp
  have "unat ((seq_len - 1) * num_kv_heads m * head_dim m + num_kv_heads m * head_dim m) =
      (unat seq_len - 1) * (unat (num_kv_heads m) * unat (head_dim m)) + unat (num_kv_heads m) * unat (head_dim m)"
    using sz(1-3) assms(3) by (simp add: unat_word_ariths)
  then have "(seq_len - 1) * num_kv_heads m * head_dim m + num_kv_heads m * head_dim m \<le> tokens_per_block m * (num_kv_heads m * head_dim m)"
    using sz(3,4) by (simp only: word_le_nat_alt)
  then obtain q where q: "synthetic_query m (tensor_view env (kllm_block_key b m l)) seq_len = Some q"
    "length q = unat (num_kv_heads m) * unat (head_dim m)"
    using read_view_total[OF views(1) sz(3)] by (auto simp: synthetic_query_def Let_def sz(1,2))
  let ?p = "layer_attn_params env m seq_len"
  have "attn_fits ?p" using sz(5) assms(3) Q by (simp add: attn_fits_def layer_attn_params_def mult.assoc)
  moreover have "attn_memory ?p (arr_get q) (tensor_view env (kllm_block_key b m l)) (tensor_view env (kllm_block_value b m l))
      (replicate (unat (num_kv_heads m * head_dim m)) 0)"
    using views sz(1,5) q(2) by (auto simp: attn_memory_def layer_attn_params_def view_upto_def arr_get_def mult.assoc)
  ultimately obtain out where "select_attention (cv_flags env) (cv_isa env) (cv_avx env) (cv_expf env) (arr_get q)
      (tensor_view env (kllm_block_key b m l)) (tensor_view env (kllm_block_value b m l))
      (replicate (unat (num_kv_heads m * head_dim m)) 0) ?p = Some out" "length out = unat (num_kv_heads m * head_dim m)"
    using select_attention_total[of ?p "arr_get q" "tensor_view env (kllm_block_key b m l)"
        "tensor_view env (kllm_block_value b m l)" "replicate (unat (num_kv_heads m * head_dim m)) 0"
        "cv_flags env" "cv_isa env" "cv_avx env" "cv_expf env"] assms(6)
    by (auto simp: vector_head_ok_def layer_attn_params_def)
  then show ?thesis using q(1) by (auto simp: attend_block_def kllm_ace_attention_def Let_def)
qed

section \<open>Sequences longer than a block\<close>

text \<open>A view that is \<open>a\<close> for the first \<open>n\<close> elements and continues with \<open>b\<close>.\<close>

definition joined :: "nat \<Rightarrow> bf16_view \<Rightarrow> bf16_view \<Rightarrow> bf16_view" where
  "joined n a b i = (if i < n then a i else b (i - n))"

lemma layer_views_joined:
  "joined (elems_exact m) (tensor_view env (kllm_block_key b m l)) (tensor_view env (kllm_block_value b m l)) =
    tensor_view env (kllm_block_key b m l)"
  "l < num_layers m \<Longrightarrow>
    joined (elems_exact m) (tensor_view env (kllm_block_value b m l)) (tensor_view env (kllm_block_key b m (l + 1))) =
    tensor_view env (kllm_block_value b m l)"
proof -
  show "joined (elems_exact m) (tensor_view env (kllm_block_key b m l)) (tensor_view env (kllm_block_value b m l)) =
      tensor_view env (kllm_block_key b m l)"
    by (rule ext) (auto simp: joined_def key_elem value_elem simp del: of_nat_add of_nat_mult)
  assume "l < num_layers m"
  then have "unat l + 1 < 2 ^ 32"
    using unsigned_less[of "num_layers m", where ?'a = nat] by (simp add: word_less_nat_alt)
  then have "unat (l + 1) = unat l + 1" by (simp add: unat_word_ariths)
  then show "joined (elems_exact m) (tensor_view env (kllm_block_value b m l)) (tensor_view env (kllm_block_key b m (l + 1))) =
      tensor_view env (kllm_block_value b m l)"
    by (intro ext) (auto simp: joined_def key_elem value_elem algebra_simps simp del: of_nat_add of_nat_mult)
qed

lemma overrun_query:
  assumes "tokens_per_block m < seq_len" "num_kv_heads m \<noteq> 0" "head_dim m \<noteq> 0"
    and fits: "unat seq_len * unat (num_kv_heads m) * unat (head_dim m) < 2 ^ 32"
  shows "unat (num_kv_heads m * head_dim m) = unat (num_kv_heads m) * unat (head_dim m)"
    "synthetic_query m k seq_len = Some (replicate (unat (num_kv_heads m * head_dim m)) 0)"
proof -
  define Q where "Q = unat (num_kv_heads m) * unat (head_dim m)"
  have T: "unat (tokens_per_block m) < unat seq_len" using assms(1) by (simp add: word_less_nat_alt)
  have Q: "0 < Q" "unat seq_len * Q < 2 ^ 32"
    using assms(2,3) fits by (simp_all add: Q_def unat_gt_0 mult.assoc)
  have tq: "unat (tokens_per_block m) * Q < unat seq_len * Q" using T Q(1) by simp
  have "1 * Q \<le> unat seq_len * Q" using T by (intro mult_le_mono1) simp
  then have q: "unat (num_kv_heads m * head_dim m) = Q" using Q(2) by (simp only: Q_def u32_mult_exact)
  then show "unat (num_kv_heads m * head_dim m) = unat (num_kv_heads m) * unat (head_dim m)" by (simp only: Q_def)
  have "(seq_len - 1) * num_kv_heads m * head_dim m + num_kv_heads m * head_dim m = seq_len * (num_kv_heads m * head_dim m)"
    by (simp add: algebra_simps)
  moreover have "unat (seq_len * (num_kv_heads m * head_dim m)) = unat seq_len * Q"
    "unat (tokens_per_block m * (num_kv_heads m * head_dim m)) = unat (tokens_per_block m) * Q"
    using u32_mult_exact[of seq_len "num_kv_heads m * head_dim m"]
      u32_mult_exact[of "tokens_per_block m" "num_kv_heads m * head_dim m"] q Q(2) less_trans[OF tq Q(2)] by simp_all
  ultimately show "synthetic_query m k seq_len = Some (replicate (unat (num_kv_heads m * head_dim m)) 0)"
    using tq by (simp add: synthetic_query_def Let_def word_le_nat_alt)
qed

lemma attend_block_overrun:
  assumes "tokens_per_block m < seq_len" "l < num_layers m"
    and "num_kv_heads m \<noteq> 0" "head_dim m \<noteq> 0" "unat seq_len * unat (num_kv_heads m) * unat (head_dim m) < 2 ^ 32"
    and "vector_head_ok env m" "cv_calloc_q env (unat l)" "cv_calloc_attn env (unat l)"
    and "view_upto (tensor_view env (kllm_block_key b m l)) (unat seq_len * unat (num_kv_heads m) * unat (head_dim m))"
    and "view_upto (tensor_view env (kllm_block_value b m l)) (unat seq_len * unat (num_kv_heads m) * unat (head_dim m))"
    and "hdim = num_kv_heads m * head_dim m"
  shows "\<exists>out. attend_block env m b l seq_len = Some (0, out) \<and> length out = unat hdim \<and>
    select_attention (cv_flags env) (cv_isa env) (cv_avx env) (cv_expf env) (arr_get (replicate (unat hdim) 0))
      (joined (elems_exact m) (tensor_view env (kllm_block_key b m l)) (tensor_view env (kllm_block_value b m l)))
      (joined (elems_exact m) (tensor_view env (kllm_block_value b m l)) (tensor_view env (kllm_block_key b m (l + 1))))
      (replicate (unat hdim) 0) (layer_attn_params env m seq_len) = Some out"
proof -
  let ?p = "layer_attn_params env m seq_len" and ?z = "replicate (unat hdim) 0"
  note oq = overrun_query[OF assms(1,3-5)]
  have p: "ap_num_heads ?p = num_kv_heads m" "ap_head_dim ?p = head_dim m" "ap_seq_len ?p = seq_len" "ap_query_len ?p = 1"
    by (simp_all add: layer_attn_params_def)
  have nz: "seq_len \<noteq> 0" using assms(1) by auto
  then have "1 * (unat (num_kv_heads m) * unat (head_dim m)) \<le> unat seq_len * (unat (num_kv_heads m) * unat (head_dim m))"
    by (intro mult_le_mono1) (simp add: Suc_le_eq unat_gt_0)
  then have "unat (num_kv_heads m) * unat (head_dim m) < 2 ^ 32" using assms(5) unfolding mult.assoc by linarith
  then have "attn_fits ?p" using assms(5) by (simp add: attn_fits_def p mult.assoc)
  moreover have "attn_memory ?p (arr_get ?z) (tensor_view env (kllm_block_key b m l)) (tensor_view env (kllm_block_value b m l)) ?z"
    using assms(9,10) oq(1) by (simp add: attn_memory_def p view_upto_def[of "arr_get _"] arr_get_def assms(11))
  moreover have "avx_selected (cv_flags env) (cv_isa env) \<longrightarrow> unat (ap_head_dim ?p) < 2 ^ 32 - 32"
    using assms(6) by (simp add: vector_head_ok_def p)
  ultimately obtain out where "select_attention (cv_flags env) (cv_isa env) (cv_avx env) (cv_expf env) (arr_get ?z)
      (tensor_view env (kllm_block_key b m l)) (tensor_view env (kllm_block_value b m l)) ?z ?p = Some out" "length out = unat hdim"
    using select_attention_total[of ?p "arr_get ?z"] by fastforce
  then show ?thesis unfolding layer_views_joined(1) layer_views_joined(2)[OF assms(2)]
    using assms(3,4,7,8,11) nz oq(2) by (simp add: attend_block_def kllm_ace_attention_def Let_def p)
qed

section \<open>No step faults\<close>

definition cpu_ready :: "cpu_env \<Rightarrow> kllm_infer_cpu_ctx \<Rightarrow> u32 list \<Rightarrow> u32 \<Rightarrow> bool" where
  "cpu_ready env c ids seq_len \<longleftrightarrow> index_wf (ic_cache_idx c) \<and> (\<forall>l. cv_now env l < - 1) \<and>
    arena_resident env (ic_model c) (ix_arena (ic_cache_idx c)) \<and> elems_exact (ic_model c) < 2 ^ 32 \<and>
    vector_head_ok env (ic_model c) \<and> seq_len \<noteq> 0 \<and> seq_len \<le> tokens_per_block (ic_model c) \<and> unat seq_len \<le> length ids"

lemma lookup_result:
  assumes "index_wf idx" "now < - 1"
  obtains b idx' where "kllm_index_lookup now idx h = Some (b, idx')" "index_wf idx'" "ix_arena idx' = ix_arena idx"
    "b = 0 \<or> (\<exists>i < unat (ar_total_slots (ix_arena idx)). b = slot_addr (ix_arena idx) i)"
proof (cases rule: probe_all_cases[OF assms(1), of h])
  case (1 p)
  have "entry_slot (ix_entries idx) p < unat (ar_total_slots (ix_arena idx))"
    using assms(1) 1(2) by (simp add: index_wf_def slots_ok_def)
  then show thesis
    using that lookup_hit[OF assms(1) 1(1,2), of now] touch_wf[OF assms(1) 1(2) assms(2)] by (auto simp: entry_block_def)
next
  case (2 r)
  show thesis
    by (rule that[OF lookup_miss_eq[OF 2]]) (simp_all add: lookup_miss_wf assms(1), simp add: lookup_miss_def)
qed

lemma single_layer_total:
  assumes ready: "cpu_ready env c ids seq_len" and l: "l < num_layers (ic_model c)" and out: "unat output_dim \<le> length output"
  obtains rc idx' out' where
    "kllm_infer_cpu_single_layer env (Some c) (Some ids) seq_len l output output_dim = Some (rc, Some (c\<lparr>ic_cache_idx := idx'\<rparr>), out')"
    "rc = 0 \<or> rc = - 1" "length out' = length output" "cpu_ready env (c\<lparr>ic_cache_idx := idx'\<rparr>) ids seq_len"
    "ix_arena idx' = ix_arena (ic_cache_idx c)"
proof -
  note r = ready[unfolded cpu_ready_def]
  have nz: "seq_len \<noteq> 0" and sha: "sha_tokens (cv_sha env) ids seq_len = Some (cv_sha env (token_bytes (take (unat seq_len) ids)))"
    using r by (simp_all add: sha_tokens_def)
  obtain b idx' where lk: "kllm_index_lookup (cv_now env (unat l)) (ic_cache_idx c) (cv_sha env (token_bytes (take (unat seq_len) ids))) = Some (b, idx')"
    "index_wf idx'" "ix_arena idx' = ix_arena (ic_cache_idx c)"
    "b = 0 \<or> (\<exists>i < unat (ar_total_slots (ix_arena (ic_cache_idx c))). b = slot_addr (ix_arena (ic_cache_idx c)) i)"
    using lookup_result r by metis
  have ready': "cpu_ready env (c\<lparr>ic_cache_idx := idx'\<rparr>) ids seq_len" using r lk(2,3) by (simp add: cpu_ready_def)
  note unf = kllm_infer_cpu_single_layer_def sha lk(1) nz Let_def
  show thesis
  proof (cases "b = 0")
    case True
    then show thesis using that[of "- 1" idx' "output"] ready' lk(3) by (simp add: unf)
  next
    case False
    then have res: "block_resident env (ic_model c) b" using lk(4) r by (auto simp: arena_resident_def)
    obtain rc ao where ab: "attend_block env (ic_model c) b l seq_len = Some (rc, ao)"
      "rc = 0 \<and> length ao = unat (num_kv_heads (ic_model c) * head_dim (ic_model c)) \<or> rc = - 1"
      using attend_block_total[OF res l] r by blast
    show thesis
    proof (cases "rc = 0")
      case rc: False
      then show thesis using that[of "- 1" idx' "output"] ready' lk(3) ab \<open>b \<noteq> 0\<close> by (simp add: unf)
    next
      case rc: True
      define n where "n = unat (if output_dim < num_kv_heads (ic_model c) * head_dim (ic_model c) then output_dim
        else num_kv_heads (ic_model c) * head_dim (ic_model c))"
      have "n \<le> length output" "n \<le> length ao" using out ab(2) rc by (auto simp: n_def word_less_nat_alt)
      then show thesis
        using that[of 0 idx' "take n ao @ drop n output"] ready' lk(3) ab rc \<open>b \<noteq> 0\<close>
        by (simp add: unf n_def[symmetric] memcpy_prefix_def)
    qed
  qed
qed

lemma layer_loop_total:
  assumes "cpu_ready env c ids seq_len" "unat hdim \<le> length hidden" "\<forall>l \<in> set ls. l < unat (num_layers (ic_model c))"
  shows "\<exists>rc idx' hidden'. layer_loop env (Some c) (Some ids) seq_len hidden hdim ls = Some (rc, Some (c\<lparr>ic_cache_idx := idx'\<rparr>), hidden') \<and>
    (rc = 0 \<or> rc = - 1) \<and> length hidden' = length hidden \<and> cpu_ready env (c\<lparr>ic_cache_idx := idx'\<rparr>) ids seq_len \<and>
    ix_arena idx' = ix_arena (ic_cache_idx c)"
  using assms
proof (induction ls arbitrary: c hidden)
  case Nil
  show ?case using Nil(1) by (intro exI[of _ 0] exI[of _ "ic_cache_idx c"] exI[of _ hidden]) simp
next
  case (Cons l ls)
  have l: "l < 2 ^ 32" using Cons.prems(3) unsigned_less[of "num_layers (ic_model c)", where ?'a = nat] by simp
  then have "(of_nat l :: u32) < num_layers (ic_model c)"
    using Cons.prems(3) by (simp add: word_less_nat_alt unat_of_nat)
  then obtain rc idx' out' where s:
    "kllm_infer_cpu_single_layer env (Some c) (Some ids) seq_len (of_nat l) hidden hdim = Some (rc, Some (c\<lparr>ic_cache_idx := idx'\<rparr>), out')"
    "rc = 0 \<or> rc = - 1" "length out' = length hidden" "cpu_ready env (c\<lparr>ic_cache_idx := idx'\<rparr>) ids seq_len"
    "ix_arena idx' = ix_arena (ic_cache_idx c)"
    using single_layer_total[OF Cons.prems(1) _ Cons.prems(2)] by metis
  show ?case
  proof (cases "rc = 0")
    case True
    then show ?thesis using s Cons.IH[OF s(4), of out'] Cons.prems(2,3) by auto
  next
    case False
    then show ?thesis using s by auto
  qed
qed

lemma lm_dot_total:
  "\<forall>d \<in> set ds. d < length hidden \<and> row + d < length lm \<Longrightarrow> \<exists>x. lm_dot hidden lm row acc ds = Some x"
  by (induction ds arbitrary: acc) (simp_all add: fault_simps)

definition lm_head_ok :: "kllm_infer_cpu_ctx \<Rightarrow> bool" where
  "lm_head_ok c \<longleftrightarrow> (case ic_lm_head c of None \<Rightarrow> True
     | Some lm \<Rightarrow> unat (ic_vocab_size c) * unat (num_kv_heads (ic_model c) * head_dim (ic_model c)) \<le> length lm \<and>
         unat (ic_vocab_size c) * unat (num_kv_heads (ic_model c) * head_dim (ic_model c)) < 2 ^ 32)"

lemma logit_value_total:
  assumes "v < unat (ic_vocab_size c)" "hdim = num_kv_heads (ic_model c) * head_dim (ic_model c)" "hdim \<noteq> 0"
    "length hidden = unat hdim" "lm_head_ok c"
  shows "\<exists>x. logit_value (ic_lm_head c) hidden hdim v = Some x"
proof (cases "ic_lm_head c")
  case None
  have "unat (of_nat v mod hdim) < unat hdim" using assms(3) by (simp add: word_less_nat_alt[symmetric] word_mod_less_divisor word_gt_0)
  then show ?thesis using None assms(3,4) by (simp add: logit_value_def fault_simps)
next
  case (Some lm)
  then have ok: "unat (ic_vocab_size c) * unat hdim \<le> length lm" "unat (ic_vocab_size c) * unat hdim < 2 ^ 32"
    using assms(2,5) by (simp_all add: lm_head_ok_def)
  have "Suc v * unat hdim \<le> unat (ic_vocab_size c) * unat hdim" using assms(1) by (intro mult_le_mono1) simp
  then have row: "v * unat hdim + d < length lm" if "d < unat hdim" for d using that ok(1) by simp
  have "v < 2 ^ 32" using assms(1) unsigned_less[of "ic_vocab_size c", where ?'a = nat] by simp
  moreover have "v * unat hdim < 2 ^ 32" using \<open>Suc v * unat hdim \<le> _\<close> ok(2) by simp
  ultimately have "unat (of_nat v * hdim) = v * unat hdim" by (simp add: unat_word_ariths unat_of_nat)
  then show ?thesis using Some assms(4) row by (auto simp: logit_value_def intro!: lm_dot_total)
qed

lemma fill_logits_total:
  assumes "\<forall>v \<in> set vs. v < unat (ic_vocab_size c)" "hdim = num_kv_heads (ic_model c) * head_dim (ic_model c)" "hdim \<noteq> 0"
    "length hidden = unat hdim" "lm_head_ok c" "unat (ic_vocab_size c) \<le> length logits"
  shows "\<exists>l. fill_logits (ic_lm_head c) hidden hdim logits vs = Some l \<and> length l = length logits"
  using assms(1,6)
proof (induction vs arbitrary: logits)
  case (Cons v vs)
  then obtain x where "logit_value (ic_lm_head c) hidden hdim v = Some x"
    using logit_value_total[OF _ assms(2-5), of v] by auto
  moreover have "v < length logits" using Cons.prems by simp
  ultimately show ?case using Cons.IH[of "logits[v := x]"] Cons.prems by (simp add: fault_simps)
qed simp

definition logits_room :: "kllm_infer_cpu_ctx \<Rightarrow> kllm_infer_result \<Rightarrow> bool" where
  "logits_room c r \<longleftrightarrow> (\<forall>l. ir_logits r = Some l \<longrightarrow> unat (ic_vocab_size c) \<le> length l)"

lemma project_logits_total:
  assumes "hidden_dim = num_kv_heads (ic_model c) * head_dim (ic_model c)" "hidden_dim \<noteq> 0"
    "length hidden = unat hidden_dim" "lm_head_ok c" "logits_room c result"
  shows "project_logits env c hidden result = Some (- 1, result) \<or>
    (\<exists>l i. project_logits env c hidden result = Some (0, \<lparr>ir_logits = Some l, ir_vocab_size = ic_vocab_size c, ir_next_token = i\<rparr>) \<and>
      unat (ic_vocab_size c) \<le> length l \<and> greedy_choice l (unat (ic_vocab_size c)) (unat i))"
proof (cases "case ir_logits result of Some l \<Rightarrow> Some l
    | None \<Rightarrow> if cv_calloc_logits env then Some (replicate (unat (ic_vocab_size c)) 0) else None")
  case None
  then show ?thesis by (simp add: project_logits_def)
next
  case (Some l0)
  then have "unat (ic_vocab_size c) \<le> length l0"
    using assms(5) by (auto simp: logits_room_def split: option.splits if_splits)
  then obtain l where l: "fill_logits (ic_lm_head c) hidden hidden_dim l0 [0..<unat (ic_vocab_size c)] = Some l"
    "unat (ic_vocab_size c) \<le> length l"
    using fill_logits_total[OF _ assms(1-4), of "[0..<unat (ic_vocab_size c)]" l0] by auto
  obtain i where i: "f32_argmax l (ic_vocab_size c) = Some (of_nat i)" "greedy_choice l (unat (ic_vocab_size c)) i"
    by (rule f32_argmax_spec[OF l(2)])
  have "i < 2 ^ 32"
    using greedy_choice_bound[OF i(2)] i(2) unsigned_less[of "ic_vocab_size c", where ?'a = nat]
    by (cases "unat (ic_vocab_size c) = 0") (auto simp: greedy_choice_def)
  then have "unat (of_nat i :: u32) = i" by (simp add: unat_of_nat)
  then show ?thesis using Some l i assms(1) by (simp add: project_logits_def)
qed

lemma infer_cpu_total:
  assumes "cpu_ready env c ids seq_len" "lm_head_ok c" "logits_room c result"
    "num_kv_heads (ic_model c) * head_dim (ic_model c) \<noteq> 0"
  shows "\<exists>rc idx r. kllm_infer_cpu env (Some c) (Some ids) seq_len result = Some (rc, Some (c\<lparr>ic_cache_idx := idx\<rparr>), r) \<and>
    index_wf idx \<and> ix_arena idx = ix_arena (ic_cache_idx c) \<and> (rc = - 1 \<and> r = result \<or>
     rc = 0 \<and> ir_vocab_size r = ic_vocab_size c \<and> (\<exists>l. ir_logits r = Some l \<and> unat (ic_vocab_size c) \<le> length l \<and>
       greedy_choice l (unat (ic_vocab_size c)) (unat (ir_next_token r))))"
proof (cases "cv_calloc_hidden env")
  case False
  have "index_wf (ic_cache_idx c)" using assms(1) by (simp add: cpu_ready_def)
  with False show ?thesis
    by (intro exI[of _ "- 1"] exI[of _ "ic_cache_idx c"] exI[of _ result]) (simp add: kllm_infer_cpu_def Let_def)
next
  case True
  define hdim where "hdim = num_kv_heads (ic_model c) * head_dim (ic_model c)"
  obtain rc idx h where l: "layer_loop env (Some c) (Some ids) seq_len (replicate (unat hdim) 0) hdim [0..<unat (num_layers (ic_model c))] =
      Some (rc, Some (c\<lparr>ic_cache_idx := idx\<rparr>), h)" "rc = 0 \<or> rc = - 1" "length h = unat hdim" "index_wf idx"
      "ix_arena idx = ix_arena (ic_cache_idx c)"
    using layer_loop_total[OF assms(1), of hdim "replicate (unat hdim) 0" "[0..<unat (num_layers (ic_model c))]"]
    by (auto simp: cpu_ready_def)
  show ?thesis
    using project_logits_total[OF hdim_def _ l(3) assms(2,3), of env] assms(4) l True
    by (auto simp: kllm_infer_cpu_def Let_def hdim_def)
qed

section \<open>Only the last layer counts\<close>

lemma single_layer_overwrites:
  assumes "kllm_infer_cpu_single_layer env (Some c) ids seq_len l out1 (num_kv_heads (ic_model c) * head_dim (ic_model c)) = Some (0, c', out)"
    "length out1 = unat (num_kv_heads (ic_model c) * head_dim (ic_model c))" "length out2 = length out1"
  shows "kllm_infer_cpu_single_layer env (Some c) ids seq_len l out2 (num_kv_heads (ic_model c) * head_dim (ic_model c)) = Some (0, c', out) \<and>
    (\<exists>idx. c' = Some (c\<lparr>ic_cache_idx := idx\<rparr>)) \<and> length out = length out1"
  using assms
  by (auto simp: kllm_infer_cpu_single_layer_def memcpy_prefix_def Let_def split: option.splits if_splits bind_splits prod.splits)

lemma single_layer_rc:
  "kllm_infer_cpu_single_layer env c ids seq_len l out1 hdim = Some (rc, c', out) \<Longrightarrow> rc = 0 \<or> rc = - 1"
  by (auto simp: kllm_infer_cpu_single_layer_def Let_def split: option.splits if_splits bind_splits prod.splits)

lemma layer_loop_step:
  assumes "layer_loop env c ids seq_len hidden hdim (k # ls) = Some (0, c', out)"
  obtains c1 h1 where "kllm_infer_cpu_single_layer env c ids seq_len (of_nat k) hidden hdim = Some (0, c1, h1)"
    "layer_loop env c1 ids seq_len h1 hdim ls = Some (0, c', out)"
proof -
  obtain rc c1 h1 where s: "kllm_infer_cpu_single_layer env c ids seq_len (of_nat k) hidden hdim = Some (rc, c1, h1)"
    "(if rc < 0 then Some (- 1, c1, h1) else layer_loop env c1 ids seq_len h1 hdim ls) = Some (0, c', out)"
    using assms by (auto split: bind_splits)
  then show thesis using that single_layer_rc[OF s(1)] by auto
qed

lemma layer_loop_rc:
  "layer_loop env c ids seq_len hidden hdim ls = Some (rc, c', out) \<Longrightarrow> rc = 0 \<or> rc = - 1"
proof (induction ls arbitrary: c hidden)
  case (Cons l ls)
  then show ?case by (auto split: bind_splits if_splits)
qed simp

lemma layer_loop_last:
  assumes "layer_loop env (Some c) ids seq_len hidden hdim (ls @ [l]) = Some (0, c', out)"
    "hdim = num_kv_heads (ic_model c) * head_dim (ic_model c)" "length hidden = unat hdim"
  shows "\<exists>idx. kllm_infer_cpu_single_layer env (Some (c\<lparr>ic_cache_idx := idx\<rparr>)) ids seq_len (of_nat l) (replicate (unat hdim) 0) hdim = Some (0, c', out)"
  using assms
proof (induction ls arbitrary: c hidden)
  case Nil
  from Nil(1) have "kllm_infer_cpu_single_layer env (Some c) ids seq_len (of_nat l) hidden hdim = Some (0, c', out)"
    unfolding append_Nil by (rule layer_loop_step) simp
  then have "kllm_infer_cpu_single_layer env (Some c) ids seq_len (of_nat l) (replicate (unat hdim) 0) hdim = Some (0, c', out)"
    using single_layer_overwrites[of env c ids seq_len "of_nat l" hidden c' out "replicate (unat hdim) 0"] Nil(2,3) by simp
  then show ?case by (intro exI[of _ "ic_cache_idx c"]) simp
next
  case (Cons k ls)
  from Cons.prems(1) obtain c1 h1 where s: "kllm_infer_cpu_single_layer env (Some c) ids seq_len (of_nat k) hidden hdim = Some (0, c1, h1)"
    "layer_loop env c1 ids seq_len h1 hdim (ls @ [l]) = Some (0, c', out)"
    unfolding append_Cons by (rule layer_loop_step)
  obtain idx where c1: "c1 = Some (c\<lparr>ic_cache_idx := idx\<rparr>)" "length h1 = length hidden"
    using single_layer_overwrites[of env c ids seq_len "of_nat k" hidden c1 h1 hidden] s(1) Cons.prems(2,3) by auto
  show ?case using Cons.IH[of "c\<lparr>ic_cache_idx := idx\<rparr>" h1] s(2) c1 Cons.prems(2,3) by simp
qed

section \<open>Properties\<close>

text \<open>C8: CPU inference on a ready context never faults. For a well-formed cache index whose blocks are
  resident, a sequence of at most one block of positions, sizes that fit 32 bits, a head dimension
  below \<open>2^32 - 32\<close> where the vector path is selected (its chunk counter wraps beyond that) and an
  output projection of the stated size, \<open>kllm_infer_cpu\<close> returns 0 or -1 whatever allocation fails and whatever
  the cache holds; the index stays well-formed; on success \<open>next_token\<close> is the first index of a largest
  logit, and on failure the result is as it was.\<close>

theorem infer_cpu_safe:
  assumes "cpu_ready env c ids seq_len" "lm_head_ok c" "logits_room c result"
    "num_kv_heads (ic_model c) * head_dim (ic_model c) \<noteq> 0"
  shows "\<exists>rc idx r. kllm_infer_cpu env (Some c) (Some ids) seq_len result = Some (rc, Some (c\<lparr>ic_cache_idx := idx\<rparr>), r) \<and>
    index_wf idx \<and> (rc = - 1 \<and> r = result \<or>
     rc = 0 \<and> (\<exists>l. ir_logits r = Some l \<and> unat (ic_vocab_size c) \<le> length l \<and>
       greedy_choice l (unat (ic_vocab_size c)) (unat (ir_next_token r))))"
  using infer_cpu_total[OF assms] by fastforce

definition small_model :: kllm_model_config where
  "small_model = \<lparr>num_layers = 2, num_kv_heads = 1, head_dim = 1, tokens_per_block = 4\<rparr>"

definition sample_cpu_env :: cpu_env where
  "sample_cpu_env = \<lparr>cv_sha = (\<lambda>_. key_a), cv_flags = \<lparr>have_amx_bf16 = False, have_avx512bf16 = False\<rparr>, cv_isa = ISA_NONE,
     cv_avx = sample_avx, cv_expf = (\<lambda>_. 0x3F800000), cv_sqrtf = (\<lambda>x. x), cv_mem = (\<lambda>_. Some 0x4040), cv_now = (\<lambda>_. 5),
     cv_calloc_q = (\<lambda>_. True), cv_calloc_attn = (\<lambda>_. True), cv_calloc_hidden = True, cv_calloc_logits = True\<rparr>"

definition sample_cpu_ctx :: kllm_infer_cpu_ctx where
  "sample_cpu_ctx = \<lparr>ic_cache_idx = tiny_index, ic_model = small_model, ic_lm_head = None, ic_vocab_size = 2\<rparr>"

lemma sample_cpu_ready: "cpu_ready sample_cpu_env sample_cpu_ctx [7] 1"
proof -
  have "(5 :: u64) < - 1" by code_simp
  then show ?thesis
    using tiny_index_wf(1) by (simp add: cpu_ready_def sample_cpu_env_def sample_cpu_ctx_def small_model_def elems_exact_def
        arena_resident_def block_resident_def vector_head_ok_def)
qed

theorem infer_cpu_safe_witness:
  "\<exists>rc idx r. kllm_infer_cpu sample_cpu_env (Some sample_cpu_ctx) (Some [7]) 1 infer_result0 =
     Some (rc, Some (sample_cpu_ctx\<lparr>ic_cache_idx := idx\<rparr>), r) \<and> index_wf idx"
proof -
  have "lm_head_ok sample_cpu_ctx" "logits_room sample_cpu_ctx infer_result0"
    "num_kv_heads (ic_model sample_cpu_ctx) * head_dim (ic_model sample_cpu_ctx) \<noteq> 0"
    by (simp_all add: lm_head_ok_def logits_room_def infer_result0_def sample_cpu_ctx_def small_model_def)
  then show ?thesis using infer_cpu_safe[OF sample_cpu_ready] by blast
qed

text \<open>C22: the layers are not chained. Whenever \<open>kllm_infer_cpu\<close> succeeds on a model with at least one
  layer, the logits are those of the last layer alone, run on a zeroed buffer: every layer reads its
  query from the cache and overwrites the hidden state, so the outputs of the earlier layers are lost
  and only their cache lookups remain.\<close>

theorem infer_cpu_last_layer:
  assumes "kllm_infer_cpu env (Some c) ids seq_len result = Some (0, c', r)" "num_layers (ic_model c) \<noteq> 0"
  shows "\<exists>idx hidden. kllm_infer_cpu_single_layer env (Some (c\<lparr>ic_cache_idx := idx\<rparr>)) ids seq_len (num_layers (ic_model c) - 1)
      (replicate (unat (num_kv_heads (ic_model c) * head_dim (ic_model c))) 0) (num_kv_heads (ic_model c) * head_dim (ic_model c)) =
      Some (0, c', hidden) \<and> project_logits env c hidden result = Some (0, r)"
proof -
  define n where "n = unat (num_layers (ic_model c)) - 1"
  have "0 < unat (num_layers (ic_model c))" using assms(2) by (simp add: unat_gt_0)
  then have n: "[0..<unat (num_layers (ic_model c))] = [0..<n] @ [n]" "of_nat n = num_layers (ic_model c) - 1"
    by (simp_all add: n_def upt_Suc_append[symmetric] of_nat_diff del: upt_Suc)
  obtain rc hidden where l: "layer_loop env (Some c) ids seq_len (replicate (unat (num_kv_heads (ic_model c) * head_dim (ic_model c))) 0)
      (num_kv_heads (ic_model c) * head_dim (ic_model c)) ([0..<n] @ [n]) = Some (rc, c', hidden)" "\<not> rc < 0"
      "project_logits env c hidden result = Some (0, r)"
    using assms(1) unfolding n(1)[symmetric] by (auto simp: kllm_infer_cpu_def Let_def split: if_splits bind_splits)
  then have "rc = 0" using layer_loop_rc by fastforce
  then show ?thesis using layer_loop_last[OF l(1)[unfolded \<open>rc = 0\<close>]] l(3) n(2) by auto
qed

definition hit_cpu_ctx :: kllm_infer_cpu_ctx where
  "hit_cpu_ctx = sample_cpu_ctx\<lparr>ic_cache_idx := snd (the (kllm_index_insert 1 tiny_index key_a))\<rparr>"

lemma hit_cpu_succeeds:
  "map_option fst (kllm_infer_cpu sample_cpu_env (Some hit_cpu_ctx) (Some [7]) 1 infer_result0) = Some 0"
  by code_simp

theorem infer_cpu_last_layer_witness:
  "\<exists>idx c' hidden. kllm_infer_cpu_single_layer sample_cpu_env (Some (hit_cpu_ctx\<lparr>ic_cache_idx := idx\<rparr>)) (Some [7]) 1 1 [0] 1 =
     Some (0, c', hidden)"
proof -
  have m: "ic_model hit_cpu_ctx = small_model" by (simp add: hit_cpu_ctx_def sample_cpu_ctx_def)
  obtain c' r where "kllm_infer_cpu sample_cpu_env (Some hit_cpu_ctx) (Some [7]) 1 infer_result0 = Some (0, c', r)"
    using hit_cpu_succeeds by auto
  from infer_cpu_last_layer[OF this] show ?thesis by (auto simp: m small_model_def)
qed

text \<open>C40: \<open>kllm_infer_cpu_single_layer\<close> does not check that the sequence fits the cached block. When
  the lookup hits and \<open>seq_len\<close> exceeds \<open>tokens_per_block\<close> (and the memory behind the block is
  readable, the products fit 32 bits and the allocations succeed), the call returns 0, and what it
  returns is attention with an all-zero query over wrong tensors: the keys continue with the values
  of the same layer, and the values continue with the keys of the next layer (for the last layer,
  with what follows the block).\<close>

theorem key_overrun_reads_values:
  assumes "kllm_index_lookup (cv_now env (unat l)) (ic_cache_idx c) (cv_sha env (token_bytes (take (unat seq_len) ids))) = Some (b, idx)"
    and "b \<noteq> 0" "unat seq_len \<le> length ids" "m = ic_model c" "tokens_per_block m < seq_len" "l < num_layers m"
    and "num_kv_heads m \<noteq> 0" "head_dim m \<noteq> 0" "unat seq_len * unat (num_kv_heads m) * unat (head_dim m) < 2 ^ 32"
    and "vector_head_ok env m" "cv_calloc_q env (unat l)" "cv_calloc_attn env (unat l)"
    and "view_upto (tensor_view env (kllm_block_key b m l)) (unat seq_len * unat (num_kv_heads m) * unat (head_dim m))"
    and "view_upto (tensor_view env (kllm_block_value b m l)) (unat seq_len * unat (num_kv_heads m) * unat (head_dim m))"
    and "hdim = num_kv_heads m * head_dim m" "length output = unat hdim"
  shows "\<exists>out. kllm_infer_cpu_single_layer env (Some c) (Some ids) seq_len l output hdim = Some (0, Some (c\<lparr>ic_cache_idx := idx\<rparr>), out) \<and>
    select_attention (cv_flags env) (cv_isa env) (cv_avx env) (cv_expf env) (arr_get (replicate (unat hdim) 0))
      (joined (elems_exact m) (tensor_view env (kllm_block_key b m l)) (tensor_view env (kllm_block_value b m l)))
      (joined (elems_exact m) (tensor_view env (kllm_block_value b m l)) (tensor_view env (kllm_block_key b m (l + 1))))
      (replicate (unat hdim) 0) (layer_attn_params env m seq_len) = Some out"
proof -
  note p = attend_block_overrun[OF assms(5,6,7,8,9,10,11,12,13,14,15)]
  then obtain out where out: "attend_block env m b l seq_len = Some (0, out)" "length out = unat hdim"
    "select_attention (cv_flags env) (cv_isa env) (cv_avx env) (cv_expf env) (arr_get (replicate (unat hdim) 0))
      (joined (elems_exact m) (tensor_view env (kllm_block_key b m l)) (tensor_view env (kllm_block_value b m l)))
      (joined (elems_exact m) (tensor_view env (kllm_block_value b m l)) (tensor_view env (kllm_block_key b m (l + 1))))
      (replicate (unat hdim) 0) (layer_attn_params env m seq_len) = Some out" by blast
  have "seq_len \<noteq> 0" using assms(5) by auto
  then have "kllm_infer_cpu_single_layer env (Some c) (Some ids) seq_len l output hdim = Some (0, Some (c\<lparr>ic_cache_idx := idx\<rparr>), out)"
    using assms(1-3) out(1,2) assms(16) unfolding assms(4)
    by (simp add: kllm_infer_cpu_single_layer_def sha_tokens_def Let_def memcpy_prefix_def assms(15)[unfolded assms(4)])
  then show ?thesis using out(3) by blast
qed

theorem key_overrun_reads_values_witness:
  "\<exists>idx out. kllm_infer_cpu_single_layer sample_cpu_env (Some hit_cpu_ctx) (Some [1, 2, 3, 4, 5]) 5 0 [0] 1 =
     Some (0, Some (hit_cpu_ctx\<lparr>ic_cache_idx := idx\<rparr>), out)"
proof -
  have m: "ic_model hit_cpu_ctx = small_model" by (simp add: hit_cpu_ctx_def sample_cpu_ctx_def)
  have "map_option (\<lambda>r. fst r \<noteq> 0) (kllm_index_lookup (cv_now sample_cpu_env 0) (ic_cache_idx hit_cpu_ctx)
      (cv_sha sample_cpu_env (token_bytes (take 5 [1, 2, 3, 4, 5])))) = Some True" by code_simp
  then obtain b idx where "kllm_index_lookup (cv_now sample_cpu_env (unat (0::u32))) (ic_cache_idx hit_cpu_ctx)
      (cv_sha sample_cpu_env (token_bytes (take (unat (5::u32)) [1, 2, 3, 4, 5]))) = Some (b, idx)" "b \<noteq> 0" by auto
  from key_overrun_reads_values[OF this, of small_model 1 "[0]"] show ?thesis
    by (auto simp: m small_model_def vector_head_ok_def sample_cpu_env_def avx_selected_def view_upto_def tensor_view_def)
qed

end
