(* ===== verification/Batch_Scheduler.thy ===== *)
theory Batch_Scheduler
  imports Infer_Gpu Infer_Cpu Dispatch Response
begin

text \<open>
  The batch scheduler of the reactor (\<open>userspace/reactor/batch_scheduler.c\<close>): a pool of request slots,
  prefill and decode queues rebuilt from it, and one iteration of the scheduler, composed with the
  dispatch policy, both inference paths and the response library. Clock, allocation results and the
  parameters of the inference paths are arguments of each step.
\<close>

definition KLLM_MAX_SEQ_LEN :: u32 where "KLLM_MAX_SEQ_LEN = 32768"

datatype kllm_request_phase = KLLM_PHASE_PREFILL | KLLM_PHASE_DECODE | KLLM_PHASE_DONE

record kllm_request =
  rq_request_id :: u32
  rq_phase :: kllm_request_phase
  rq_target :: kllm_dispatch_target
  rq_tokens :: "u32 list option"
  rq_prompt_len :: u32
  rq_seq_len :: u32
  rq_arrival_ns :: u64
  rq_last_step_ns :: u64
  rq_priority :: u32
  rq_preempted :: bool
  rq_response :: "kllm_response_ctx option"

record kllm_batch_config =
  bc_max_batch_size :: u32
  bc_prefill_budget :: u32
  bc_max_requests :: u32
  bc_eos_token_id :: u32

record kllm_batch_stats =
  bt_total_requests :: u64
  bt_completed_requests :: u64
  bt_preemptions :: u64
  bt_total_tokens_generated :: u64
  bt_batch_iterations :: u64
  bt_current_batch_size :: u32
  bt_current_prefill_queue :: u32
  bt_current_decode_queue :: u32

record kllm_batch_scheduler =
  bs_cfg :: kllm_batch_config
  bs_cpu :: "kllm_infer_cpu_ctx option"
  bs_gpu :: "kllm_infer_gpu_ctx option"
  bs_dispatch :: "kllm_dispatch_ctx option"
  bs_requests :: "kllm_request list"
  bs_max_requests :: u32
  bs_active_count :: u32
  bs_next_request_id :: u32
  bs_prefill_queue :: "u32 list"
  bs_prefill_count :: u32
  bs_decode_queue :: "u32 list"
  bs_decode_count :: u32
  bs_stats :: kllm_batch_stats

text \<open>A slot of zero bytes: the first enumerators of phase and target, and null pointers.\<close>

definition zero_request :: kllm_request where
  "zero_request = \<lparr>rq_request_id = 0, rq_phase = KLLM_PHASE_PREFILL, rq_target = KLLM_TARGET_CPU, rq_tokens = None,
     rq_prompt_len = 0, rq_seq_len = 0, rq_arrival_ns = 0, rq_last_step_ns = 0, rq_priority = 0, rq_preempted = False,
     rq_response = None\<rparr>"

definition batch_stats0 :: kllm_batch_stats where
  "batch_stats0 = \<lparr>bt_total_requests = 0, bt_completed_requests = 0, bt_preemptions = 0, bt_total_tokens_generated = 0,
     bt_batch_iterations = 0, bt_current_batch_size = 0, bt_current_prefill_queue = 0, bt_current_decode_queue = 0\<rparr>"

definition kllm_batch_create :: "bool \<Rightarrow> bool \<Rightarrow> bool \<Rightarrow> bool \<Rightarrow> kllm_batch_config \<Rightarrow> kllm_infer_cpu_ctx option \<Rightarrow>
    kllm_infer_gpu_ctx option \<Rightarrow> kllm_dispatch_ctx option \<Rightarrow> kllm_batch_scheduler option" where
  "kllm_batch_create ok_s ok_req ok_pre ok_dec cfg cpu gpu dispatch =
    (if ok_s \<and> ok_req \<and> ok_pre \<and> ok_dec then
       Some \<lparr>bs_cfg = cfg, bs_cpu = cpu, bs_gpu = gpu, bs_dispatch = dispatch,
         bs_requests = replicate (unat (bc_max_requests cfg)) zero_request, bs_max_requests = bc_max_requests cfg,
         bs_active_count = 0, bs_next_request_id = 1,
         bs_prefill_queue = replicate (unat (bc_max_requests cfg)) 0, bs_prefill_count = 0,
         bs_decode_queue = replicate (unat (bc_max_requests cfg)) 0, bs_decode_count = 0, bs_stats = batch_stats0\<rparr>
     else None)"

section \<open>Submission\<close>

fun find_slot :: "(kllm_request \<Rightarrow> bool) \<Rightarrow> kllm_request list \<Rightarrow> nat list \<Rightarrow> nat option option" where
  "find_slot P rs [] = Some None"
| "find_slot P rs (i # is) = do { r \<leftarrow> arr_get rs i; if P r then Some (Some i) else find_slot P rs is }"

definition find_free_slot :: "kllm_batch_scheduler \<Rightarrow> (nat option \<times> kllm_batch_scheduler) option" where
  "find_free_slot s =
    (let is = [0..<unat (bs_max_requests s)] in do {
       a \<leftarrow> find_slot (\<lambda>r. rq_phase r = KLLM_PHASE_DONE \<and> rq_request_id r = 0) (bs_requests s) is;
       case a of
         Some i \<Rightarrow> Some (Some i, s)
       | None \<Rightarrow> do {
           b \<leftarrow> find_slot (\<lambda>r. rq_phase r = KLLM_PHASE_DONE) (bs_requests s) is;
           case b of
             Some i \<Rightarrow> do { rs \<leftarrow> arr_set (bs_requests s) i zero_request; Some (Some i, s\<lparr>bs_requests := rs\<rparr>) }
           | None \<Rightarrow> Some (None, s) } })"

definition copy_prompt :: "u32 list \<Rightarrow> u32 \<Rightarrow> u32 list option" where
  "copy_prompt prompt n =
    (if unat n \<le> length prompt \<and> unat n \<le> unat KLLM_MAX_SEQ_LEN
     then Some (take (unat n) prompt @ replicate (unat KLLM_MAX_SEQ_LEN - unat n) 0) else None)"

definition kllm_batch_submit :: "bool \<Rightarrow> u64 \<Rightarrow> kllm_batch_scheduler \<Rightarrow> u32 list \<Rightarrow> u32 \<Rightarrow> kllm_response_ctx option \<Rightarrow>
    (u32 \<times> kllm_batch_scheduler) option" where
  "kllm_batch_submit calloc_ok now s prompt prompt_len response =
    (if bs_active_count s \<ge> bs_max_requests s then Some (0, s)
     else do {
       (slot, s) \<leftarrow> find_free_slot s;
       case slot of
         None \<Rightarrow> Some (0, s)
       | Some i \<Rightarrow> do {
           req \<leftarrow> arr_get (bs_requests s) i;
           if \<not> calloc_ok then do {
             rs \<leftarrow> arr_set (bs_requests s) i (req\<lparr>rq_tokens := None\<rparr>);
             Some (0, s\<lparr>bs_requests := rs\<rparr>) }
           else do {
             tokens \<leftarrow> copy_prompt prompt prompt_len;
             rs \<leftarrow> arr_set (bs_requests s) i (req\<lparr>rq_tokens := Some tokens, rq_prompt_len := prompt_len,
               rq_seq_len := prompt_len, rq_request_id := bs_next_request_id s, rq_phase := KLLM_PHASE_PREFILL,
               rq_arrival_ns := now, rq_response := response, rq_preempted := False\<rparr>);
             Some (bs_next_request_id s, s\<lparr>bs_requests := rs, bs_next_request_id := bs_next_request_id s + 1,
               bs_active_count := bs_active_count s + 1,
               bs_stats := (bs_stats s)\<lparr>bt_total_requests := bt_total_requests (bs_stats s) + 1\<rparr>\<rparr>) } } })"

section \<open>Queues\<close>

fun queue_loop :: "kllm_batch_scheduler \<Rightarrow> nat list \<Rightarrow> kllm_batch_scheduler option" where
  "queue_loop s [] = Some s"
| "queue_loop s (i # is) = do {
     r \<leftarrow> arr_get (bs_requests s) i;
     if rq_request_id r = 0 \<or> rq_phase r = KLLM_PHASE_DONE then queue_loop s is
     else if rq_phase r = KLLM_PHASE_PREFILL then do {
       q \<leftarrow> arr_set (bs_prefill_queue s) (unat (bs_prefill_count s)) (of_nat i);
       queue_loop (s\<lparr>bs_prefill_queue := q, bs_prefill_count := bs_prefill_count s + 1\<rparr>) is }
     else do {
       q \<leftarrow> arr_set (bs_decode_queue s) (unat (bs_decode_count s)) (of_nat i);
       queue_loop (s\<lparr>bs_decode_queue := q, bs_decode_count := bs_decode_count s + 1\<rparr>) is } }"

definition rebuild_queues :: "kllm_batch_scheduler \<Rightarrow> kllm_batch_scheduler option" where
  "rebuild_queues s = queue_loop (s\<lparr>bs_prefill_count := 0, bs_decode_count := 0\<rparr>) [0..<unat (bs_max_requests s)]"

section \<open>One iteration\<close>

record gpu_call_env =
  gr_fuel :: nat
  gr_cmpl :: kllm_wf_completion
  gr_launch :: "kllm_gpu_backend \<Rightarrow> kllm_gpu_attention_params \<Rightarrow> u64 \<Rightarrow> int"
  gr_calloc :: bool

record step_env =
  se_cpu :: cpu_env
  se_gpu :: gpu_call_env
  se_now :: u64

definition call_infer_gpu :: "step_env \<Rightarrow> kllm_infer_gpu_ctx option \<Rightarrow> u32 list option \<Rightarrow> u32 \<Rightarrow> kllm_infer_result \<Rightarrow>
    (int \<times> kllm_infer_result) run" where
  "call_infer_gpu env gpu ids n r = kllm_infer_gpu (gr_fuel (se_gpu env)) (cv_sha (se_cpu env)) (gr_cmpl (se_gpu env))
     (gr_launch (se_gpu env)) (cv_sqrtf (se_cpu env)) (gr_calloc (se_gpu env)) gpu ids n r"

definition call_infer_gpu_escalate :: "step_env \<Rightarrow> kllm_infer_gpu_ctx option \<Rightarrow> u32 list option \<Rightarrow> u32 \<Rightarrow> kllm_infer_result \<Rightarrow>
    (int \<times> kllm_infer_result) run" where
  "call_infer_gpu_escalate env gpu ids n r = kllm_infer_gpu_escalate (gr_fuel (se_gpu env)) (cv_sha (se_cpu env)) (gr_cmpl (se_gpu env))
     (gr_launch (se_gpu env)) (cv_sqrtf (se_cpu env)) (gr_calloc (se_gpu env)) gpu ids n r"

definition run_prefill :: "step_env \<Rightarrow> kllm_batch_scheduler \<Rightarrow> nat \<Rightarrow> kllm_batch_scheduler option" where
  "run_prefill env s i = do {
     req \<leftarrow> arr_get (bs_requests s) i;
     tokens \<leftarrow> rq_tokens req;
     seq_hash \<leftarrow> sha_tokens (cv_sha (se_cpu env)) tokens (rq_prompt_len req);
     d \<leftarrow> bs_dispatch s;
     let (target, d') = kllm_dispatch_decide d (rq_seq_len req) True in do {
       rs \<leftarrow> arr_set (bs_requests s) i (req\<lparr>rq_target := target, rq_phase := KLLM_PHASE_DECODE\<rparr>);
       Some (s\<lparr>bs_requests := rs, bs_dispatch := Some d'\<rparr>) } }"

text \<open>The inference of a decode step: result code, CPU context, result and the target afterwards.\<close>

definition decode_infer :: "step_env \<Rightarrow> kllm_batch_scheduler \<Rightarrow> kllm_request \<Rightarrow>
    (int \<times> kllm_infer_cpu_ctx option \<times> kllm_infer_result \<times> kllm_dispatch_target) run" where
  "decode_infer env s req =
    (if rq_target req = KLLM_TARGET_CPU then
       rbind (run_of (kllm_infer_cpu (se_cpu env) (bs_cpu s) (rq_tokens req) (rq_seq_len req) infer_result0)) (\<lambda>(rc, cpu', r).
         if rc < 0 \<and> bs_gpu s \<noteq> None then
           rbind (call_infer_gpu_escalate env (bs_gpu s) (rq_tokens req) (rq_seq_len req) r) (\<lambda>(rc, r').
             Ret (rc, cpu', r', KLLM_TARGET_GPU))
         else Ret (rc, cpu', r, KLLM_TARGET_CPU))
     else
       rbind (call_infer_gpu env (bs_gpu s) (rq_tokens req) (rq_seq_len req) infer_result0) (\<lambda>(rc, r).
         Ret (rc, bs_cpu s, r, rq_target req)))"

definition set_request :: "kllm_batch_scheduler \<Rightarrow> nat \<Rightarrow> kllm_request \<Rightarrow> kllm_batch_scheduler" where
  "set_request s i req = s\<lparr>bs_requests := (bs_requests s)[i := req]\<rparr>"

definition count_completed :: "kllm_batch_scheduler \<Rightarrow> kllm_batch_scheduler" where
  "count_completed s = s\<lparr>bs_stats := (bs_stats s)\<lparr>bt_completed_requests := bt_completed_requests (bs_stats s) + 1\<rparr>\<rparr>"

text \<open>What follows a successful inference: end of sequence, or emission of the token.\<close>

definition accept_token :: "step_env \<Rightarrow> kllm_batch_scheduler \<Rightarrow> nat \<Rightarrow> kllm_request \<Rightarrow> u32 \<Rightarrow> os_state \<Rightarrow>
    (int \<times> kllm_batch_scheduler \<times> os_state) option" where
  "accept_token env s i req next_token os = do {
     resp \<leftarrow> rq_response req;
     if next_token = bc_eos_token_id (bs_cfg s) then do {
       (_, os) \<leftarrow> kllm_response_eos resp os;
       Some (0, count_completed (set_request s i (req\<lparr>rq_phase := KLLM_PHASE_DONE\<rparr>)), os) }
     else do {
       (_, os) \<leftarrow> kllm_response_emit_one resp os next_token;
       (req, s, os) \<leftarrow>
         (if rq_seq_len req < KLLM_MAX_SEQ_LEN then do {
            tokens \<leftarrow> rq_tokens req;
            tokens' \<leftarrow> arr_set tokens (unat (rq_seq_len req)) next_token;
            Some (req\<lparr>rq_tokens := Some tokens', rq_seq_len := rq_seq_len req + 1\<rparr>, s, os) }
          else do {
            (_, os) \<leftarrow> kllm_response_eos resp os;
            Some (req\<lparr>rq_phase := KLLM_PHASE_DONE\<rparr>, count_completed s, os) });
       let s = set_request s i (req\<lparr>rq_last_step_ns := se_now env\<rparr>) in
       Some (1, s\<lparr>bs_stats := (bs_stats s)\<lparr>bt_total_tokens_generated := bt_total_tokens_generated (bs_stats s) + 1\<rparr>\<rparr>, os) } }"

definition run_decode_step :: "step_env \<Rightarrow> kllm_batch_scheduler \<Rightarrow> nat \<Rightarrow> os_state \<Rightarrow>
    (int \<times> kllm_batch_scheduler \<times> os_state) run" where
  "run_decode_step env s i os =
    rbind (run_of (arr_get (bs_requests s) i)) (\<lambda>req.
      if rq_target req = KLLM_TARGET_GPU \<and> bs_gpu s = None
      then Ret (- 1, set_request s i (req\<lparr>rq_phase := KLLM_PHASE_DONE\<rparr>), os)
      else rbind (decode_infer env s req) (\<lambda>(rc, cpu', result, target).
        let s = s\<lparr>bs_cpu := cpu'\<rparr>; req = req\<lparr>rq_target := target\<rparr> in
        if rc < 0 then Ret (- 1, set_request s i (req\<lparr>rq_phase := KLLM_PHASE_DONE\<rparr>), os)
        else run_of (accept_token env s i req (ir_next_token result) os)))"

fun prefill_loop :: "step_env \<Rightarrow> kllm_batch_scheduler \<Rightarrow> u32 \<Rightarrow> nat list \<Rightarrow> kllm_batch_scheduler option" where
  "prefill_loop env s spent [] = Some s"
| "prefill_loop env s spent (i # is) = do {
     q \<leftarrow> arr_get (bs_prefill_queue s) i;
     req \<leftarrow> arr_get (bs_requests s) (unat q);
     if spent + rq_prompt_len req > bc_prefill_budget (bs_cfg s) then Some s
     else do {
       s' \<leftarrow> run_prefill env s (unat q);
       prefill_loop env s' (spent + rq_prompt_len req) is } }"

fun decode_batch :: "(nat \<Rightarrow> step_env) \<Rightarrow> kllm_batch_scheduler \<Rightarrow> os_state \<Rightarrow> int \<Rightarrow> nat list \<Rightarrow>
    (int \<times> kllm_batch_scheduler \<times> os_state) run" where
  "decode_batch envs s os generated [] = Ret (generated, s, os)"
| "decode_batch envs s os generated (i # is) =
    rbind (run_of (arr_get (bs_decode_queue s) i)) (\<lambda>q.
    rbind (run_decode_step (envs i) s (unat q) os) (\<lambda>(rc, s', os').
      decode_batch envs s' os' (if rc > 0 then generated + rc else generated) is))"

fun retire_loop :: "kllm_batch_scheduler \<Rightarrow> nat list \<Rightarrow> kllm_batch_scheduler option" where
  "retire_loop s [] = Some s"
| "retire_loop s (i # is) = do {
     r \<leftarrow> arr_get (bs_requests s) i;
     if rq_phase r = KLLM_PHASE_DONE \<and> rq_request_id r \<noteq> 0
     then retire_loop ((set_request s i (r\<lparr>rq_tokens := None, rq_request_id := 0\<rparr>))\<lparr>bs_active_count := bs_active_count s - 1\<rparr>) is
     else retire_loop s is }"

definition kllm_batch_step :: "step_env \<Rightarrow> (nat \<Rightarrow> step_env) \<Rightarrow> kllm_batch_scheduler \<Rightarrow> os_state \<Rightarrow>
    (int \<times> kllm_batch_scheduler \<times> os_state) run" where
  "kllm_batch_step env envs s os =
    rbind (run_of (rebuild_queues s)) (\<lambda>s.
    let s = s\<lparr>bs_stats := (bs_stats s)\<lparr>bt_batch_iterations := bt_batch_iterations (bs_stats s) + 1,
          bt_current_prefill_queue := bs_prefill_count s, bt_current_decode_queue := bs_decode_count s\<rparr>\<rparr> in
    rbind (run_of (prefill_loop env s 0 [0..<unat (bs_prefill_count s)])) (\<lambda>s.
    rbind (run_of (rebuild_queues s)) (\<lambda>s.
    let batch_limit = (if bs_decode_count s < bc_max_batch_size (bs_cfg s) then bs_decode_count s else bc_max_batch_size (bs_cfg s));
        s = s\<lparr>bs_stats := (bs_stats s)\<lparr>bt_current_batch_size := batch_limit\<rparr>\<rparr> in
    rbind (decode_batch envs s os 0 [0..<unat batch_limit]) (\<lambda>(generated, s, os).
    rbind (run_of (retire_loop s [0..<unat (bs_max_requests s)])) (\<lambda>s.
    Ret (generated, s, os))))))"

definition kllm_batch_idle :: "kllm_batch_scheduler \<Rightarrow> bool" where
  "kllm_batch_idle s \<longleftrightarrow> bs_active_count s = 0"

definition kllm_batch_get_stats :: "kllm_batch_scheduler \<Rightarrow> kllm_batch_stats" where
  "kllm_batch_get_stats s = bs_stats s"

section \<open>The queues\<close>

definition sched_shape :: "kllm_batch_scheduler \<Rightarrow> bool" where
  "sched_shape s \<longleftrightarrow> length (bs_requests s) = unat (bs_max_requests s) \<and>
    length (bs_prefill_queue s) = unat (bs_max_requests s) \<and> length (bs_decode_queue s) = unat (bs_max_requests s)"

definition queued :: "kllm_request_phase \<Rightarrow> kllm_batch_scheduler \<Rightarrow> nat \<Rightarrow> bool" where
  "queued ph s i \<longleftrightarrow> rq_request_id (bs_requests s ! i) \<noteq> 0 \<and> rq_phase (bs_requests s ! i) = ph"

definition slots_in :: "kllm_request_phase \<Rightarrow> kllm_batch_scheduler \<Rightarrow> nat list \<Rightarrow> u32 list" where
  "slots_in ph s is = map of_nat (filter (queued ph s) is)"

lemma slots_in_Cons: "slots_in ph s (i # is) = (if queued ph s i then of_nat i # slots_in ph s is else slots_in ph s is)"
  by (simp add: slots_in_def)

lemma length_slots_in: "length (slots_in ph s is) \<le> length is"
  by (simp add: slots_in_def)

lemma push_prefix:
  assumes "take n q = xs" "n < length q" "n < 2 ^ 32 - 1" "unat c = n"
  shows "take (unat (c + 1 :: u32)) (q[n := x]) = xs @ [x]" "unat (c + 1) = Suc n"
proof -
  show c: "unat (c + 1) = Suc n" using assms(3,4) by (simp add: unat_word_ariths)
  show "take (unat (c + 1)) (q[n := x]) = xs @ [x]"
    unfolding c using assms(1,2) by (simp add: take_Suc_conv_app_nth)
qed

lemma queue_loop_spec:
  assumes "sched_shape s" "\<forall>i \<in> set is. i < unat (bs_max_requests s)"
    "unat (bs_prefill_count s) + length is \<le> unat (bs_max_requests s)" "unat (bs_decode_count s) + length is \<le> unat (bs_max_requests s)"
    "take (unat (bs_prefill_count s)) (bs_prefill_queue s) = ps" "take (unat (bs_decode_count s)) (bs_decode_queue s) = ds"
  shows "\<exists>pq dq pc dc. queue_loop s is = Some (s\<lparr>bs_prefill_queue := pq, bs_prefill_count := pc, bs_decode_queue := dq, bs_decode_count := dc\<rparr>) \<and>
    length pq = unat (bs_max_requests s) \<and> length dq = unat (bs_max_requests s) \<and>
    take (unat pc) pq = ps @ slots_in KLLM_PHASE_PREFILL s is \<and> take (unat dc) dq = ds @ slots_in KLLM_PHASE_DECODE s is \<and>
    unat pc = unat (bs_prefill_count s) + length (slots_in KLLM_PHASE_PREFILL s is) \<and>
    unat dc = unat (bs_decode_count s) + length (slots_in KLLM_PHASE_DECODE s is)"
  using assms
proof (induction "is" arbitrary: s ps ds)
  case Nil
  then show ?case
    by (intro exI[of _ "bs_prefill_queue s"] exI[of _ "bs_decode_queue s"] exI[of _ "bs_prefill_count s"] exI[of _ "bs_decode_count s"])
      (simp add: slots_in_def sched_shape_def)
next
  case (Cons i "is")
  let ?r = "bs_requests s ! i"
  have i: "i < length (bs_requests s)" using Cons.prems(1,2) by (simp add: sched_shape_def)
  have m: "unat (bs_max_requests s) < 2 ^ 32" using unsigned_less[of "bs_max_requests s", where ?'a = nat] by simp
  consider (skip) "rq_request_id ?r = 0 \<or> rq_phase ?r = KLLM_PHASE_DONE"
    | (pre) "rq_request_id ?r \<noteq> 0" "rq_phase ?r = KLLM_PHASE_PREFILL"
    | (dec) "rq_request_id ?r \<noteq> 0" "rq_phase ?r = KLLM_PHASE_DECODE"
    by (cases "rq_phase ?r") auto
  then show ?case
  proof cases
    case skip
    then have "\<not> queued KLLM_PHASE_PREFILL s i" "\<not> queued KLLM_PHASE_DECODE s i" by (auto simp: queued_def)
    then show ?thesis using skip i Cons.IH[OF Cons.prems(1) _ _ _ Cons.prems(5,6)] Cons.prems(2-4)
      by (simp add: slots_in_Cons fault_simps)
  next
    case pre
    define s1 where "s1 = s\<lparr>bs_prefill_queue := (bs_prefill_queue s)[unat (bs_prefill_count s) := of_nat i], bs_prefill_count := bs_prefill_count s + 1\<rparr>"
    have c: "unat (bs_prefill_count s) < length (bs_prefill_queue s)" "unat (bs_prefill_count s) < 2 ^ 32 - 1"
      using Cons.prems(1,3) m by (simp_all add: sched_shape_def)
    note pp = push_prefix(1)[OF Cons.prems(5) c refl, of "of_nat i"] push_prefix(2)[OF Cons.prems(5) c refl]
    have q: "queued KLLM_PHASE_PREFILL s i" "\<not> queued KLLM_PHASE_DECODE s i" using pre by (auto simp: queued_def)
    have "queued ph s1 = queued ph s" for ph by (rule ext) (simp add: queued_def s1_def)
    then have sl: "slots_in ph s1 is = slots_in ph s is" for ph "is" by (simp add: slots_in_def)
    have "queue_loop s (i # is) = queue_loop s1 is" using pre i c(1) by (simp add: fault_simps s1_def)
    then show ?thesis
      using Cons.IH[of s1 "ps @ [of_nat i]" ds] pp Cons.prems by (simp add: sl slots_in_Cons q) (simp add: s1_def sched_shape_def)
  next
    case dec
    define s1 where "s1 = s\<lparr>bs_decode_queue := (bs_decode_queue s)[unat (bs_decode_count s) := of_nat i], bs_decode_count := bs_decode_count s + 1\<rparr>"
    have c: "unat (bs_decode_count s) < length (bs_decode_queue s)" "unat (bs_decode_count s) < 2 ^ 32 - 1"
      using Cons.prems(1,4) m by (simp_all add: sched_shape_def)
    note pp = push_prefix(1)[OF Cons.prems(6) c refl, of "of_nat i"] push_prefix(2)[OF Cons.prems(6) c refl]
    have q: "\<not> queued KLLM_PHASE_PREFILL s i" "queued KLLM_PHASE_DECODE s i" using dec by (auto simp: queued_def)
    have "queued ph s1 = queued ph s" for ph by (rule ext) (simp add: queued_def s1_def)
    then have sl: "slots_in ph s1 is = slots_in ph s is" for ph "is" by (simp add: slots_in_def)
    have "queue_loop s (i # is) = queue_loop s1 is" using dec i c(1) by (simp add: fault_simps s1_def)
    then show ?thesis
      using Cons.IH[of s1 ps "ds @ [of_nat i]"] pp Cons.prems by (simp add: sl slots_in_Cons q) (simp add: s1_def sched_shape_def)
  qed
qed

definition all_slots :: "kllm_batch_scheduler \<Rightarrow> nat list" where
  "all_slots s = [0..<unat (bs_max_requests s)]"

lemma rebuild_spec:
  assumes "sched_shape s"
  obtains pq dq pc dc where
    "rebuild_queues s = Some (s\<lparr>bs_prefill_queue := pq, bs_prefill_count := pc, bs_decode_queue := dq, bs_decode_count := dc\<rparr>)"
    "length pq = unat (bs_max_requests s)" "length dq = unat (bs_max_requests s)"
    "take (unat pc) pq = slots_in KLLM_PHASE_PREFILL s (all_slots s)" "take (unat dc) dq = slots_in KLLM_PHASE_DECODE s (all_slots s)"
    "unat pc = length (slots_in KLLM_PHASE_PREFILL s (all_slots s))" "unat dc = length (slots_in KLLM_PHASE_DECODE s (all_slots s))"
proof -
  define s0 where "s0 = s\<lparr>bs_prefill_count := 0, bs_decode_count := 0\<rparr>"
  have "queued ph s0 = queued ph s" for ph by (rule ext) (simp add: queued_def s0_def)
  then have sl: "slots_in ph s0 is = slots_in ph s is" for ph "is" by (simp add: slots_in_def)
  have "sched_shape s0" "bs_max_requests s0 = bs_max_requests s" "bs_prefill_count s0 = 0" "bs_decode_count s0 = 0"
    using assms by (simp_all add: sched_shape_def s0_def)
  then obtain pq dq pc dc where q:
    "queue_loop s0 (all_slots s) = Some (s0\<lparr>bs_prefill_queue := pq, bs_prefill_count := pc, bs_decode_queue := dq, bs_decode_count := dc\<rparr>)"
    "length pq = unat (bs_max_requests s)" "length dq = unat (bs_max_requests s)"
    "take (unat pc) pq = slots_in KLLM_PHASE_PREFILL s (all_slots s)" "take (unat dc) dq = slots_in KLLM_PHASE_DECODE s (all_slots s)"
    "unat pc = length (slots_in KLLM_PHASE_PREFILL s (all_slots s))" "unat dc = length (slots_in KLLM_PHASE_DECODE s (all_slots s))"
    using queue_loop_spec[of s0 "all_slots s" "[]" "[]"] by (simp add: sl) (auto simp: all_slots_def)
  have "rebuild_queues s = Some (s\<lparr>bs_prefill_queue := pq, bs_prefill_count := pc, bs_decode_queue := dq, bs_decode_count := dc\<rparr>)"
    using q(1) by (simp add: rebuild_queues_def all_slots_def s0_def)
  then show thesis by (rule that[OF _ q(2-7)])
qed

section \<open>A fresh scheduler\<close>

definition inert :: "kllm_batch_scheduler \<Rightarrow> bool" where
  "inert s \<longleftrightarrow> sched_shape s \<and> (\<forall>r \<in> set (bs_requests s). rq_phase r = KLLM_PHASE_PREFILL \<and> rq_request_id r = 0)"

lemma inert_created: "kllm_batch_create a b c d cfg cpu gpu disp = Some s \<Longrightarrow> inert s"
  by (auto simp: kllm_batch_create_def inert_def sched_shape_def zero_request_def split: if_splits)

lemma find_slot_none:
  "\<forall>i \<in> set is. i < length rs \<Longrightarrow> \<forall>r \<in> set rs. \<not> P r \<Longrightarrow> find_slot P rs is = Some None"
  by (induction "is") (simp_all add: fault_simps)

lemma inert_submit: "inert s \<Longrightarrow> kllm_batch_submit ok now s prompt n resp = Some (0, s)"
  by (simp add: kllm_batch_submit_def find_free_slot_def inert_def sched_shape_def find_slot_none)

lemma inert_slots: "inert s \<Longrightarrow> slots_in ph s (all_slots s) = []"
  by (auto simp: slots_in_def filter_empty_conv queued_def inert_def sched_shape_def all_slots_def)

lemma inert_rebuild:
  assumes "inert s"
  obtains pq dq where "rebuild_queues s = Some (s\<lparr>bs_prefill_queue := pq, bs_prefill_count := 0, bs_decode_queue := dq, bs_decode_count := 0\<rparr>)"
    "inert (s\<lparr>bs_prefill_queue := pq, bs_prefill_count := 0, bs_decode_queue := dq, bs_decode_count := 0\<rparr>)"
proof -
  have sh: "sched_shape s" using assms by (simp add: inert_def)
  obtain pq dq pc dc where r: "rebuild_queues s = Some (s\<lparr>bs_prefill_queue := pq, bs_prefill_count := pc, bs_decode_queue := dq, bs_decode_count := dc\<rparr>)"
    "length pq = unat (bs_max_requests s)" "length dq = unat (bs_max_requests s)" "unat pc = 0" "unat dc = 0"
    by (rule rebuild_spec[OF sh]) (simp only: inert_slots[OF assms] list.size)
  have "pc = 0" "dc = 0" using r(4,5) by (simp_all add: unat_eq_zero)
  then show thesis using that[where pq = pq and dq = dq] r(1-3) assms by (simp add: inert_def sched_shape_def)
qed

lemma inert_retire:
  assumes "inert s" "\<forall>i \<in> set is. i < unat (bs_max_requests s)"
  shows "retire_loop s is = Some s"
  using assms(2)
proof (induction "is")
  case (Cons i "is")
  then have "i < length (bs_requests s)" using assms(1) by (simp add: inert_def sched_shape_def)
  moreover from this have "rq_phase (bs_requests s ! i) = KLLM_PHASE_PREFILL" using assms(1) by (simp add: inert_def)
  ultimately show ?case using Cons by (simp add: fault_simps)
qed simp

lemma inert_stats: "inert (s\<lparr>bs_stats := st\<rparr>) = inert s"
  by (simp add: inert_def sched_shape_def)

lemma inert_step:
  assumes "inert s"
  shows "\<exists>s'. kllm_batch_step env envs s os = Ret (0, s', os) \<and> inert s' \<and> bs_active_count s' = bs_active_count s"
proof -
  define tick where "tick t = t\<lparr>bs_stats := (bs_stats t)\<lparr>bt_batch_iterations := bt_batch_iterations (bs_stats t) + 1,
    bt_current_prefill_queue := bs_prefill_count t, bt_current_decode_queue := bs_decode_count t\<rparr>\<rparr>" for t :: kllm_batch_scheduler
  obtain pq dq where r1: "rebuild_queues s = Some (s\<lparr>bs_prefill_queue := pq, bs_prefill_count := 0, bs_decode_queue := dq, bs_decode_count := 0\<rparr>)"
    "inert (s\<lparr>bs_prefill_queue := pq, bs_prefill_count := 0, bs_decode_queue := dq, bs_decode_count := 0\<rparr>)"
    by (rule inert_rebuild[OF assms])
  define s1 where "s1 = tick (s\<lparr>bs_prefill_queue := pq, bs_prefill_count := 0, bs_decode_queue := dq, bs_decode_count := 0\<rparr>)"
  have s1: "inert s1" "bs_prefill_count s1 = 0" "bs_active_count s1 = bs_active_count s"
    using r1(2) by (simp_all add: s1_def tick_def inert_stats)
  obtain pq' dq' where r2: "rebuild_queues s1 = Some (s1\<lparr>bs_prefill_queue := pq', bs_prefill_count := 0, bs_decode_queue := dq', bs_decode_count := 0\<rparr>)"
    "inert (s1\<lparr>bs_prefill_queue := pq', bs_prefill_count := 0, bs_decode_queue := dq', bs_decode_count := 0\<rparr>)"
    by (rule inert_rebuild[OF s1(1)])
  define s2 where "s2 = s1\<lparr>bs_prefill_queue := pq', bs_prefill_count := 0, bs_decode_queue := dq', bs_decode_count := 0\<rparr>"
  define s3 where "s3 = s2\<lparr>bs_stats := (bs_stats s2)\<lparr>bt_current_batch_size := 0\<rparr>\<rparr>"
  have s3: "inert s3" "bs_active_count s3 = bs_active_count s" using r2(2) s1(3) by (simp_all add: s3_def s2_def inert_stats)
  have "(if bs_decode_count s2 < b then bs_decode_count s2 else b) = 0" for b
    by (simp add: s2_def word_gt_0)
  then have "kllm_batch_step env envs s os = Ret (0, s3, os)"
    unfolding kllm_batch_step_def r1(1) run_of_def option.case rbind.simps Let_def tick_def[symmetric] s1_def[symmetric] s1(2)
    by (simp add: r2(1) s2_def[symmetric] s3_def[symmetric] inert_retire[OF s3(1)])
  with s3 show ?thesis by blast
qed

section \<open>Properties\<close>

datatype sched_op = OpSubmit bool u64 "u32 list" u32 "kllm_response_ctx option" | OpStep step_env "nat \<Rightarrow> step_env"

fun sched_op_step :: "sched_op \<Rightarrow> kllm_batch_scheduler \<Rightarrow> os_state \<Rightarrow> (int \<times> kllm_batch_scheduler \<times> os_state) run" where
  "sched_op_step (OpSubmit ok now prompt n resp) s os =
    rbind (run_of (kllm_batch_submit ok now s prompt n resp)) (\<lambda>(r, s'). Ret (uint r, s', os))"
| "sched_op_step (OpStep env envs) s os = kllm_batch_step env envs s os"

fun sched_run :: "sched_op list \<Rightarrow> kllm_batch_scheduler \<Rightarrow> os_state \<Rightarrow> (int list \<times> kllm_batch_scheduler \<times> os_state) run" where
  "sched_run [] s os = Ret ([], s, os)"
| "sched_run (x # xs) s os = rbind (sched_op_step x s os) (\<lambda>(r, s', os').
    rbind (sched_run xs s' os') (\<lambda>(rs, s'', os''). Ret (r # rs, s'', os'')))"

lemma inert_run:
  "inert s \<Longrightarrow> \<exists>s'. sched_run ops s os = Ret (replicate (length ops) 0, s', os) \<and> inert s' \<and> bs_active_count s' = bs_active_count s"
proof (induction ops arbitrary: s)
  case (Cons x xs)
  have "\<exists>s'. sched_op_step x s os = Ret (0, s', os) \<and> inert s' \<and> bs_active_count s' = bs_active_count s"
    using Cons.prems inert_step[OF Cons.prems] inert_submit[OF Cons.prems] by (cases x) (simp_all add: run_of_def)
  then obtain s' where "sched_op_step x s os = Ret (0, s', os)" "inert s'" "bs_active_count s' = bs_active_count s" by blast
  then show ?case using Cons.IH[of s'] by auto
qed simp

text \<open>C20: a scheduler that \<open>kllm_batch_create\<close> returned never accepts a request. The slots are zeroed,
  which is the phase \<open>PREFILL\<close>, while \<open>find_free_slot\<close> looks for the phase \<open>DONE\<close>: in every sequence of
  submissions and iterations each submission returns 0 (queue full), no iteration generates a token or
  touches the response path, and the scheduler stays idle.\<close>

theorem scheduler_accepts_nothing:
  assumes "kllm_batch_create True True True True cfg cpu gpu disp = Some s"
  shows "\<exists>s'. sched_run ops s os = Ret (replicate (length ops) 0, s', os) \<and> kllm_batch_idle s'"
proof -
  have "bs_active_count s = 0" using assms by (auto simp: kllm_batch_create_def)
  then show ?thesis using inert_run[OF inert_created[OF assms]] by (auto simp: kllm_batch_idle_def)
qed

definition sample_batch_config :: kllm_batch_config where
  "sample_batch_config = \<lparr>bc_max_batch_size = 4, bc_prefill_budget = 512, bc_max_requests = 8, bc_eos_token_id = 2\<rparr>"

theorem scheduler_accepts_nothing_witness:
  "\<exists>s s'. kllm_batch_create True True True True sample_batch_config None None None = Some s \<and>
    sched_run [OpSubmit True 9 [1, 2, 3] 3 None] s \<lparr>os_fds = (\<lambda>_. FdClosed), os_stack = [], os_dev = sample_dev\<rparr> =
      Ret ([0], s', \<lparr>os_fds = (\<lambda>_. FdClosed), os_stack = [], os_dev = sample_dev\<rparr>)"
proof -
  obtain s where s: "kllm_batch_create True True True True sample_batch_config None None None = Some s"
    by (simp add: kllm_batch_create_def)
  show ?thesis
    using scheduler_accepts_nothing[OF s, of "[OpSubmit True 9 [1, 2, 3] 3 None]"] s by (auto simp del: sched_run.simps)
qed

end
