(* ===== verification/Sampling.thy ===== *)
theory Sampling
  imports Infer_Result "HOL-Library.Multiset"
begin

text \<open>
  The sampling strategies of the decode loop (\<open>userspace/decode/decode_loop.c\<close>): greedy, temperature,
  top-k and top-p. The exponential function, the random number and the results of \<open>malloc\<close> are
  arguments. Every strategy is shown to return a token of the vocabulary, and the selection of top-k to
  keep the largest logits.
\<close>

datatype kllm_sampling_method = KLLM_SAMPLE_GREEDY | KLLM_SAMPLE_TOP_K | KLLM_SAMPLE_TOP_P | KLLM_SAMPLE_TEMPERATURE

record kllm_decode_params =
  dp_max_tokens :: u32
  dp_eos_token_id :: u32
  dp_sampling :: kllm_sampling_method
  dp_temperature :: f32
  dp_top_k :: u32
  dp_top_p :: f32

text \<open>What a call of the sampler gets from the C library: \<open>sm_rand\<close> is \<open>rand() / RAND_MAX\<close>.\<close>

record sample_env =
  sm_expf :: "f32 \<Rightarrow> f32"
  sm_rand :: f32
  sm_malloc_probs :: bool
  sm_malloc_vals :: bool
  sm_malloc_idxs :: bool

definition sample_greedy :: "f32 list \<Rightarrow> u32 \<Rightarrow> u32 option" where
  "sample_greedy logits vocab_size = f32_argmax logits vocab_size"

section \<open>Temperature\<close>

fun max_loop :: "f32 list \<Rightarrow> f32 \<Rightarrow> nat list \<Rightarrow> f32 option" where
  "max_loop logits m [] = Some m"
| "max_loop logits m (i # is) = do {
     x \<leftarrow> arr_get logits i;
     max_loop logits (if f32_gt x m then x else m) is }"

fun exp_loop :: "sample_env \<Rightarrow> f32 list \<Rightarrow> f32 \<Rightarrow> f32 \<Rightarrow> f32 list \<Rightarrow> f32 \<Rightarrow> nat list \<Rightarrow> (f32 list \<times> f32) option" where
  "exp_loop env logits m temperature probs psum [] = Some (probs, psum)"
| "exp_loop env logits m temperature probs psum (i # is) = do {
     x \<leftarrow> arr_get logits i;
     let p = sm_expf env (f32_div (f32_sub x m) temperature) in do {
       probs' \<leftarrow> arr_set probs i p;
       exp_loop env logits m temperature probs' (f32_add psum p) is } }"

fun norm_loop :: "f32 list \<Rightarrow> f32 \<Rightarrow> nat list \<Rightarrow> f32 list option" where
  "norm_loop probs psum [] = Some probs"
| "norm_loop probs psum (i # is) = do {
     p \<leftarrow> arr_get probs i;
     probs' \<leftarrow> arr_set probs i (f32_div p psum);
     norm_loop probs' psum is }"

fun pick_loop :: "f32 list \<Rightarrow> f32 \<Rightarrow> f32 \<Rightarrow> u32 \<Rightarrow> nat list \<Rightarrow> u32 option" where
  "pick_loop probs r cumsum token [] = Some token"
| "pick_loop probs r cumsum token (i # is) = do {
     p \<leftarrow> arr_get probs i;
     let cumsum' = f32_add cumsum p in
     if f32_le r cumsum' then Some (of_nat i) else pick_loop probs r cumsum' token is }"

text \<open>The buffer from \<open>malloc\<close> holds arbitrary values; every one is written before it is read, so zeros
  stand for them.\<close>

definition sample_temperature :: "sample_env \<Rightarrow> f32 list \<Rightarrow> u32 \<Rightarrow> f32 \<Rightarrow> u32 option" where
  "sample_temperature env logits vocab_size temperature =
    (if f32_le temperature 0 \<or> \<not> sm_malloc_probs env then sample_greedy logits vocab_size
     else let is = [0..<unat vocab_size] in do {
       max_logit \<leftarrow> max_loop logits f32_minus_inf is;
       (probs, psum) \<leftarrow> exp_loop env logits max_logit temperature (replicate (unat vocab_size) 0) 0 is;
       probs \<leftarrow> norm_loop probs psum is;
       pick_loop probs (sm_rand env) 0 (vocab_size - 1) is })"

section \<open>Top-k\<close>

text \<open>One step of the inner loop for position \<open>j\<close>, and the loop from \<open>n - 1\<close> down to 0.\<close>

definition bubble_step :: "nat \<Rightarrow> f32 list \<times> u32 list \<Rightarrow> (f32 list \<times> u32 list) option" where
  "bubble_step j vi = (case vi of (vals, idxs) \<Rightarrow> do {
     a \<leftarrow> arr_get vals j;
     b \<leftarrow> arr_get vals (j + 1);
     if f32_gt b a then do {
       vals \<leftarrow> arr_set vals j b;
       vals \<leftarrow> arr_set vals (j + 1) a;
       ia \<leftarrow> arr_get idxs j;
       ib \<leftarrow> arr_get idxs (j + 1);
       idxs \<leftarrow> arr_set idxs j ib;
       idxs \<leftarrow> arr_set idxs (j + 1) ia;
       Some (vals, idxs) }
     else Some (vals, idxs) })"

fun bubble_up :: "nat \<Rightarrow> f32 list \<times> u32 list \<Rightarrow> (f32 list \<times> u32 list) option" where
  "bubble_up 0 vi = Some vi"
| "bubble_up (Suc n) vi = do { vi' \<leftarrow> bubble_step n vi; bubble_up n vi' }"

text \<open>The index of the inner loop is an \<open>int\<close>: it starts at \<open>k - 2\<close> and runs while it is not negative.\<close>

definition bubble_count :: "u32 \<Rightarrow> nat" where
  "bubble_count k = nat (sint (k - 2) + 1)"

fun top_k_loop :: "u32 \<Rightarrow> f32 list \<Rightarrow> f32 list \<times> u32 list \<Rightarrow> nat list \<Rightarrow> (f32 list \<times> u32 list) option" where
  "top_k_loop k logits vi [] = Some vi"
| "top_k_loop k logits vi (i # is) = do {
     x \<leftarrow> arr_get logits i;
     low \<leftarrow> arr_get (fst vi) (unat (k - 1));
     if f32_gt x low then do {
       vals \<leftarrow> arr_set (fst vi) (unat (k - 1)) x;
       idxs \<leftarrow> arr_set (snd vi) (unat (k - 1)) (of_nat i);
       vi' \<leftarrow> bubble_up (bubble_count k) (vals, idxs);
       top_k_loop k logits vi' is }
     else top_k_loop k logits vi is }"

definition sample_top_k :: "sample_env \<Rightarrow> f32 list \<Rightarrow> u32 \<Rightarrow> u32 \<Rightarrow> f32 \<Rightarrow> u32 option" where
  "sample_top_k env logits vocab_size k temperature =
    (if k = 0 \<or> k \<ge> vocab_size then sample_temperature env logits vocab_size temperature
     else if \<not> sm_malloc_vals env \<or> \<not> sm_malloc_idxs env then sample_greedy logits vocab_size
     else do {
       (top_vals, top_idxs) \<leftarrow> top_k_loop k logits (replicate (unat k) f32_minus_inf, replicate (unat k) 0) [0..<unat vocab_size];
       result \<leftarrow> sample_temperature env top_vals k temperature;
       arr_get top_idxs (unat (if result < k then result else 0)) })"

section \<open>Selection of the strategy\<close>

definition sample_top_p :: "sample_env \<Rightarrow> f32 list \<Rightarrow> u32 \<Rightarrow> f32 \<Rightarrow> f32 \<Rightarrow> u32 option" where
  "sample_top_p env logits vocab_size p temperature = sample_temperature env logits vocab_size temperature"

definition sample_token :: "sample_env \<Rightarrow> f32 list \<Rightarrow> u32 \<Rightarrow> kllm_decode_params \<Rightarrow> u32 option" where
  "sample_token env logits vocab_size params =
    (case dp_sampling params of
       KLLM_SAMPLE_GREEDY \<Rightarrow> sample_greedy logits vocab_size
     | KLLM_SAMPLE_TEMPERATURE \<Rightarrow> sample_temperature env logits vocab_size (dp_temperature params)
     | KLLM_SAMPLE_TOP_K \<Rightarrow> sample_top_k env logits vocab_size (dp_top_k params) (dp_temperature params)
     | KLLM_SAMPLE_TOP_P \<Rightarrow> sample_top_p env logits vocab_size (dp_top_p params) (dp_temperature params))"

section \<open>Every strategy returns a token\<close>

lemma sample_greedy_bound:
  assumes "unat n \<le> length logits" "n \<noteq> 0"
  shows "\<exists>t. sample_greedy logits n = Some t \<and> t < n"
proof -
  have pos: "0 < unat n" using assms(2) by (simp add: unat_gt_0)
  obtain i where i: "f32_argmax logits n = Some (of_nat i)" "greedy_choice logits (unat n) i"
    by (rule f32_argmax_spec[OF assms(1)])
  have "i < unat n" by (rule greedy_choice_bound[OF i(2) pos])
  moreover from this have "i < 2 ^ 32" using unsigned_less[of n, where ?'a = nat] by simp
  ultimately have "(of_nat i :: u32) < n" by (simp add: word_less_nat_alt unat_of_nat)
  with i(1) show ?thesis by (simp add: sample_greedy_def)
qed

lemma max_loop_total: "\<forall>i \<in> set is. i < length logits \<Longrightarrow> \<exists>m'. max_loop logits m is = Some m'"
  by (induction "is" arbitrary: m) (simp_all add: fault_simps)

lemma exp_loop_total:
  "\<forall>i \<in> set is. i < length logits \<and> i < length probs \<Longrightarrow>
    \<exists>probs' s'. exp_loop env logits m t probs s is = Some (probs', s') \<and> length probs' = length probs"
proof (induction "is" arbitrary: probs s)
  case (Cons i "is")
  then show ?case
    using Cons.IH[of "probs[i := sm_expf env (f32_div (f32_sub (logits ! i) m) t)]"
        "f32_add s (sm_expf env (f32_div (f32_sub (logits ! i) m) t))"]
    by (simp add: fault_simps Let_def)
qed simp

lemma norm_loop_total:
  "\<forall>i \<in> set is. i < length probs \<Longrightarrow> \<exists>probs'. norm_loop probs s is = Some probs' \<and> length probs' = length probs"
proof (induction "is" arbitrary: probs)
  case (Cons i "is")
  then show ?case using Cons.IH[of "probs[i := f32_div (probs ! i) s]"] by (simp add: fault_simps)
qed simp

lemma pick_loop_total:
  "\<forall>i \<in> set is. i < length probs \<and> i < unat n \<Longrightarrow> tok < n \<Longrightarrow> \<exists>t. pick_loop probs r c tok is = Some t \<and> t < n"
proof (induction "is" arbitrary: c)
  case (Cons i "is")
  have "i < 2 ^ 32" using Cons.prems(1) unsigned_less[of n, where ?'a = nat] by simp
  then have "(of_nat i :: u32) < n" using Cons.prems(1) by (simp add: word_less_nat_alt unat_of_nat)
  then show ?case using Cons by (simp add: fault_simps Let_def)
qed simp

lemma temperature_total:
  assumes "unat n \<le> length logits" "n \<noteq> 0"
  shows "\<exists>t. sample_temperature env logits n temp = Some t \<and> t < n"
proof (cases "f32_le temp 0 \<or> \<not> sm_malloc_probs env")
  case True
  then show ?thesis using sample_greedy_bound[OF assms] by (simp add: sample_temperature_def)
next
  case False
  let ?is = "[0..<unat n]"
  obtain m where m: "max_loop logits f32_minus_inf ?is = Some m" using max_loop_total[of ?is logits] assms(1) by auto
  obtain p s where p: "exp_loop env logits m temp (replicate (unat n) 0) 0 ?is = Some (p, s)" "length p = unat n"
    using exp_loop_total[of ?is logits "replicate (unat n) 0" env m temp 0] assms(1) by auto
  obtain p' where p': "norm_loop p s ?is = Some p'" "length p' = unat n" using norm_loop_total[of ?is p s] p(2) by auto
  have "n - 1 < n" using assms(2) by (simp add: word_less_nat_alt unat_minus_one unat_gt_0)
  then obtain t where "pick_loop p' (sm_rand env) 0 (n - 1) ?is = Some t" "t < n"
    using pick_loop_total[of ?is p' n] p'(2) by fastforce
  then show ?thesis using False m p p' by (simp add: sample_temperature_def)
qed

section \<open>The selection of top-k\<close>

text \<open>The two arrays always hold the value and index of a list of entries: \<open>None\<close> for an initial entry
  and \<open>Some i\<close> for the logit \<open>i\<close>.\<close>

fun entry_val :: "f32 list \<Rightarrow> nat option \<Rightarrow> f32" where
  "entry_val logits None = f32_minus_inf"
| "entry_val logits (Some i) = logits ! i"

fun entry_idx :: "nat option \<Rightarrow> u32" where
  "entry_idx None = 0"
| "entry_idx (Some i) = of_nat i"

definition arrays :: "f32 list \<Rightarrow> nat option list \<Rightarrow> f32 list \<times> u32 list" where
  "arrays logits xs = (map (entry_val logits) xs, map entry_idx xs)"

definition entry_key :: "f32 list \<Rightarrow> nat option \<Rightarrow> int" where
  "entry_key logits x = f32_key (entry_val logits x)"

definition entry_ok :: "f32 list \<Rightarrow> nat option \<Rightarrow> bool" where
  "entry_ok logits x \<longleftrightarrow> \<not> f32_is_nan (entry_val logits x)"

definition desc_except :: "f32 list \<Rightarrow> nat \<Rightarrow> nat option list \<Rightarrow> bool" where
  "desc_except logits n xs \<longleftrightarrow>
    (\<forall>i j. i < j \<longrightarrow> j < length xs \<longrightarrow> j \<noteq> n \<longrightarrow> entry_key logits (xs ! j) \<le> entry_key logits (xs ! i))"

lemma entry_gt:
  "entry_ok logits x \<Longrightarrow> entry_ok logits y \<Longrightarrow>
    f32_gt (entry_val logits x) (entry_val logits y) \<longleftrightarrow> entry_key logits y < entry_key logits x"
  by (simp add: f32_gt_def entry_ok_def entry_key_def)

lemma bubble_step_entries:
  assumes "Suc j < length xs" "entry_ok logits (xs ! j)" "entry_ok logits (xs ! Suc j)"
  shows "bubble_step j (arrays logits xs) = Some (arrays logits
    (if entry_key logits (xs ! j) < entry_key logits (xs ! Suc j) then xs[j := xs ! Suc j, Suc j := xs ! j] else xs))"
  using assms entry_gt[OF assms(3,2)] by (simp add: bubble_step_def arrays_def fault_simps map_update)

lemma swap_mset: "Suc j < length xs \<Longrightarrow> mset (xs[j := xs ! Suc j, Suc j := xs ! j]) = mset xs"
  by (rule mset_swap) simp_all

lemma desc_except_swap:
  assumes "desc_except logits (Suc m) xs" "Suc m < length xs" "entry_key logits (xs ! m) < entry_key logits (xs ! Suc m)"
  shows "desc_except logits m (xs[m := xs ! Suc m, Suc m := xs ! m])"
  unfolding desc_except_def
proof (intro allI impI)
  fix i j assume a: "i < j" "j < length (xs[m := xs ! Suc m, Suc m := xs ! m])" "j \<noteq> m"
  note d = assms(1)[unfolded desc_except_def, rule_format]
  show "entry_key logits (xs[m := xs ! Suc m, Suc m := xs ! m] ! j) \<le> entry_key logits (xs[m := xs ! Suc m, Suc m := xs ! m] ! i)"
  proof (cases "j = Suc m")
    case True
    then show ?thesis using a assms(2,3) d[of i m] by (cases "i = m") (simp_all add: nth_list_update)
  next
    case False
    then show ?thesis using a assms(2) d[of i j] d[of m j] d[of "Suc m" j]
      by (cases "i = m"; cases "i = Suc m") (simp_all add: nth_list_update)
  qed
qed

lemma desc_except_keep:
  assumes "desc_except logits (Suc m) xs" "\<not> entry_key logits (xs ! m) < entry_key logits (xs ! Suc m)"
  shows "desc_except logits m xs"
  unfolding desc_except_def
proof (intro allI impI)
  fix i j assume a: "i < j" "j < length xs" "j \<noteq> m"
  note d = assms(1)[unfolded desc_except_def, rule_format]
  show "entry_key logits (xs ! j) \<le> entry_key logits (xs ! i)"
  proof (cases "j = Suc m")
    case True
    then show ?thesis using a assms(2) d[of i m] by (cases "i = m") simp_all
  qed (use a d[of i j] in simp)
qed

lemma bubble_up_entries:
  assumes "n < length xs" "\<forall>x \<in> set xs. entry_ok logits x" "desc_except logits n xs"
  shows "\<exists>ys. bubble_up n (arrays logits xs) = Some (arrays logits ys) \<and> mset ys = mset xs \<and> desc_except logits 0 ys"
  using assms
proof (induction n arbitrary: xs)
  case (Suc m)
  let ?ys = "if entry_key logits (xs ! m) < entry_key logits (xs ! Suc m) then xs[m := xs ! Suc m, Suc m := xs ! m] else xs"
  have step: "bubble_step m (arrays logits xs) = Some (arrays logits ?ys)"
    using bubble_step_entries[of m xs logits] Suc.prems(1,2) by simp
  have ms: "mset ?ys = mset xs" using swap_mset[OF Suc.prems(1)] by simp
  then have "set ?ys = set xs" "length ?ys = length xs" by (metis set_mset_mset, metis size_mset)
  moreover have "desc_except logits m ?ys"
    using desc_except_swap[OF Suc.prems(3,1)] desc_except_keep[OF Suc.prems(3)] by simp
  ultimately obtain zs where "bubble_up m (arrays logits ?ys) = Some (arrays logits zs)" "mset zs = mset ?ys" "desc_except logits 0 zs"
    using Suc.IH[of ?ys] Suc.prems(1,2) by auto
  then show ?case using step ms by auto
qed auto

lemma bubble_count_exact:
  assumes "k \<noteq> 0" "unat k \<le> 2 ^ 31"
  shows "bubble_count k = unat k - 1"
proof (cases "k = 1")
  case False
  have "0 < unat k" "unat k \<noteq> 1" using assms(1) False by (simp_all add: word_unat_eq_iff)
  then have le: "2 \<le> unat k" by simp
  then have u: "unat (k - 2) = unat k - 2" by (simp add: unat_sub word_le_nat_alt)
  then have "sint (k - 2) = int (unat k - 2)" using sint_small[of "k - 2"] assms(2) le by simp
  then have "bubble_count k = nat (int (unat k - 2) + 1)" by (simp only: bubble_count_def)
  then show ?thesis using le by linarith
qed (simp add: bubble_count_def)

text \<open>After the first \<open>c\<close> logits: no logit is entered twice, the values are in descending order, and a logit
  that is not entered is not above any entry.\<close>

definition top_inv :: "f32 list \<Rightarrow> nat \<Rightarrow> nat \<Rightarrow> nat option list \<Rightarrow> bool" where
  "top_inv logits k c xs \<longleftrightarrow> length xs = k \<and> (\<forall>i. Some i \<in> set xs \<longrightarrow> i < c) \<and> (\<forall>i. count (mset xs) (Some i) \<le> 1) \<and>
    desc_except logits 0 xs \<and> (\<forall>i < c. Some i \<notin> set xs \<longrightarrow> (\<forall>x \<in> set xs. entry_key logits (Some i) \<le> entry_key logits x))"

lemma entries_ok:
  assumes "\<forall>x \<in> set logits. candidate x" "\<forall>i. Some i \<in> set xs \<longrightarrow> i < length logits" "x \<in> set xs"
  shows "entry_ok logits x"
proof (cases x)
  case None
  have "\<not> f32_is_nan f32_minus_inf" by code_simp
  then show ?thesis using None by (simp add: entry_ok_def)
next
  case (Some i)
  then have "candidate (logits ! i)" using assms by auto
  then show ?thesis using Some by (simp add: entry_ok_def candidate_def f32_gt_def)
qed

lemma last_entry_least:
  assumes "desc_except logits 0 xs" "length xs = Suc n" "x \<in> set xs"
  shows "entry_key logits (xs ! n) \<le> entry_key logits x"
proof -
  obtain i where "i < Suc n" "x = xs ! i" using assms(2,3) by (auto simp: in_set_conv_nth)
  then show ?thesis using assms(1,2) by (cases "i = n") (auto simp: desc_except_def)
qed

lemma top_inv_insert:
  assumes inv: "top_inv logits (Suc n) c xs" and gt: "entry_key logits (xs ! n) < entry_key logits (Some c)"
    and ys: "mset ys = mset (xs[n := Some c])" "desc_except logits 0 ys"
  shows "top_inv logits (Suc n) (Suc c) ys"
proof -
  note i = inv[unfolded top_inv_def]
  have len: "length xs = Suc n" using i by simp
  have low: "entry_key logits (xs ! n) \<le> entry_key logits x" if "x \<in> set xs" for x
    using last_entry_least[OF _ len that] i by blast
  have set: "set ys = set (xs[n := Some c])" using ys(1) by (metis set_mset_mset)
  have sub: "set ys \<subseteq> insert (Some c) (set xs)" unfolding set by (rule set_update_subset_insert)
  have low': "entry_key logits (xs ! n) \<le> entry_key logits y" if "y \<in> set ys" for y
    using that sub low gt by fastforce
  have ms: "mset ys = mset xs - {#xs ! n#} + {#Some c#}"
    using ys(1) len by (simp add: mset_update)
  have "Some c \<notin> set xs" using i by blast
  then have cnt: "count (mset ys) (Some j) \<le> 1" for j
    using i ms by (cases "j = c") (auto simp: not_in_iff[symmetric] intro: order_trans[OF diff_le_self])
  have out: "entry_key logits (Some j) \<le> entry_key logits y" if "j < Suc c" "Some j \<notin> set ys" "y \<in> set ys" for j y
  proof -
    have "Some c \<in> set ys" unfolding set using len by (simp add: set_update_memI)
    then have j: "j < c" using that by (cases "j = c") auto
    have "entry_key logits (Some j) \<le> entry_key logits (xs ! n)"
    proof (cases "Some j \<in> set xs")
      case True
      have "Some j \<in># mset ys" if "Some j \<noteq> xs ! n"
        using True that by (simp add: ms in_diff_count)
      then have "Some j = xs ! n" using \<open>Some j \<notin> set ys\<close> by auto
      then show ?thesis by simp
    next
      case False
      then show ?thesis using i j len by auto
    qed
    then show ?thesis using low'[OF that(3)] by simp
  qed
  have "length ys = length (xs[n := Some c])" using ys(1) by (rule mset_eq_length)
  moreover have "j < Suc c" if "Some j \<in> set ys" for j
    using that sub i less_SucI by blast
  ultimately show ?thesis unfolding top_inv_def using len cnt out ys(2) by simp
qed

lemma top_k_loop_inv:
  assumes "k = Suc n" "unat kw = k" "k \<le> 2 ^ 31" "\<forall>x \<in> set logits. candidate x" "c \<le> m" "m = length logits" "top_inv logits k c xs"
  shows "\<exists>ys. top_k_loop kw logits (arrays logits xs) [c..<m] = Some (arrays logits ys) \<and> top_inv logits k m ys"
  using assms(5,7)
proof (induction "m - c" arbitrary: c xs)
  case 0
  then show ?case by auto
next
  case (Suc d)
  then have c: "c < m" by simp
  note i = Suc.prems(2)[unfolded top_inv_def]
  have nz: "kw \<noteq> 0" using assms(1,2) by auto
  then have kw: "unat (kw - 1) = n" "bubble_count kw = n"
    using assms(1-3) bubble_count_exact[OF nz] by (simp_all add: unat_minus_one)
  have ok: "\<forall>x \<in> set xs. entry_ok logits x" using entries_ok[OF assms(4), of xs] i c assms(6) by force
  have okc: "entry_ok logits (Some c)" using entries_ok[OF assms(4), of "[Some c]"] c assms(6) by simp
  have n: "n < length xs" using i assms(1) by simp
  have g: "f32_gt (logits ! c) (entry_val logits (xs ! n)) \<longleftrightarrow> entry_key logits (xs ! n) < entry_key logits (Some c)"
    using entry_gt[OF okc, of "xs ! n"] ok n by simp
  show ?case
  proof (cases "entry_key logits (xs ! n) < entry_key logits (Some c)")
    case True
    define xs1 where "xs1 = xs[n := Some c]"
    have "desc_except logits n xs1" using i n assms(1) by (auto simp: desc_except_def xs1_def nth_list_update)
    moreover have "\<forall>x \<in> set xs1. entry_ok logits x"
      using ok okc set_update_subset_insert[of xs n "Some c"] by (auto simp: xs1_def)
    moreover have "n < length xs1" using n by (simp add: xs1_def)
    ultimately obtain ys where ys: "bubble_up n (arrays logits xs1) = Some (arrays logits ys)" "mset ys = mset xs1" "desc_except logits 0 ys"
      using bubble_up_entries by blast
    have inv: "top_inv logits k (Suc c) ys"
      using top_inv_insert[OF Suc.prems(2)[unfolded assms(1)] True ys(2,3)[unfolded xs1_def]] assms(1) by simp
    have "top_k_loop kw logits (arrays logits xs) [c..<m] = top_k_loop kw logits (arrays logits ys) [Suc c..<m]"
      using True g n c assms(6) ys(1) unfolding upt_conv_Cons[OF c]
      by (simp add: arrays_def fault_simps kw xs1_def map_update)
    then show ?thesis using Suc.hyps(1)[of "Suc c" ys] Suc.hyps(2) c inv by simp
  next
    case False
    have len: "length xs = Suc n" using i assms(1) by simp
    have "entry_key logits (Some c) \<le> entry_key logits x" if "x \<in> set xs" for x
      using last_entry_least[OF _ len that] i False by fastforce
    then have inv: "top_inv logits k (Suc c) xs" using i by (auto simp: top_inv_def less_Suc_eq)
    have "top_k_loop kw logits (arrays logits xs) [c..<m] = top_k_loop kw logits (arrays logits xs) [Suc c..<m]"
      using False g n c assms(6) unfolding upt_conv_Cons[OF c] by (simp add: arrays_def fault_simps kw)
    then show ?thesis using Suc.hyps(1)[of "Suc c" xs] Suc.hyps(2) c inv by simp
  qed
qed

section \<open>Top-k without assumptions on the logits\<close>

lemma bubble_count_le: "k \<noteq> 0 \<Longrightarrow> bubble_count k \<le> unat k - 1"
proof -
  assume nz: "k \<noteq> 0"
  show ?thesis
  proof (cases "unat k \<le> 2 ^ 31")
    case True
    then show ?thesis using bubble_count_exact[OF nz] by simp
  next
    case False
    have "sint (k - 2) + 1 \<le> 2 ^ 31" using sint_lt[of "k - 2"] by simp
    then have "bubble_count k \<le> 2 ^ 31" by (simp add: bubble_count_def)
    then show ?thesis using False by simp
  qed
qed

definition arrays_ok :: "nat \<Rightarrow> u32 \<Rightarrow> f32 list \<times> u32 list \<Rightarrow> bool" where
  "arrays_ok k n vi \<longleftrightarrow> length (fst vi) = k \<and> length (snd vi) = k \<and> (\<forall>t \<in> set (snd vi). t < n)"

lemma list_update_below: "\<forall>t \<in> set xs. t < n \<Longrightarrow> x < n \<Longrightarrow> \<forall>t \<in> set (xs[i := x]). t < (n :: u32)"
  using set_update_subset_insert[of xs i x] by blast

lemma bubble_up_ok:
  assumes "m < k" "arrays_ok k n vi"
  shows "\<exists>vi'. bubble_up m vi = Some vi' \<and> arrays_ok k n vi'"
  using assms
proof (induction m arbitrary: vi)
  case (Suc m)
  obtain vals idxs where vi: "vi = (vals, idxs)" by (cases vi)
  then have l: "length vals = k" "length idxs = k" "\<forall>t \<in> set idxs. t < n" using Suc.prems(2) by (simp_all add: arrays_ok_def)
  then have "idxs ! m < n" "idxs ! Suc m < n" using Suc.prems(1) by simp_all
  then have "\<forall>t \<in> set (idxs[m := idxs ! Suc m, Suc m := idxs ! m]). t < n"
    by (intro list_update_below[OF list_update_below[OF l(3)]])
  then have "arrays_ok k n (vals[m := vals ! Suc m, Suc m := vals ! m], idxs[m := idxs ! Suc m, Suc m := idxs ! m])"
    using l(1,2) by (simp add: arrays_ok_def)
  then have sw: "arrays_ok k n (if f32_gt (vals ! Suc m) (vals ! m)
      then (vals[m := vals ! Suc m, Suc m := vals ! m], idxs[m := idxs ! Suc m, Suc m := idxs ! m]) else vi)" (is "arrays_ok k n ?vi1")
    using Suc.prems(2) by simp
  have "bubble_step m vi = Some ?vi1"
    using l(1,2) Suc.prems(1) by (simp add: vi bubble_step_def arr_get_in arr_set_in)
  moreover obtain vi2 where "bubble_up m ?vi1 = Some vi2" "arrays_ok k n vi2"
    using Suc.IH[OF Suc_lessD[OF Suc.prems(1)] sw] by blast
  ultimately show ?case by (simp only: bubble_up.simps bind.simps) blast
qed simp

lemma top_k_loop_ok:
  assumes "k \<noteq> 0" "\<forall>i \<in> set is. i < length logits \<and> i < unat n" "arrays_ok (unat k) n vi"
  shows "\<exists>vi'. top_k_loop k logits vi is = Some vi' \<and> arrays_ok (unat k) n vi'"
  using assms(2,3)
proof (induction "is" arbitrary: vi)
  case (Cons i "is")
  have pos: "0 < unat k" using assms(1) by (simp add: unat_gt_0)
  then have k1: "unat (k - 1) < unat k" "bubble_count k < unat k"
    using assms(1) bubble_count_le[OF assms(1)] by (simp_all add: unat_minus_one)
  have "i < 2 ^ 32" using Cons.prems(1) unsigned_less[of n, where ?'a = nat] by simp
  then have "(of_nat i :: u32) < n" using Cons.prems(1) by (simp add: word_less_nat_alt unat_of_nat)
  then have "\<forall>t \<in> set ((snd vi)[unat (k - 1) := of_nat i]). t < n"
    using Cons.prems(2) unfolding arrays_ok_def by (intro list_update_below) blast+
  then have a: "arrays_ok (unat k) n ((fst vi)[unat (k - 1) := logits ! i], (snd vi)[unat (k - 1) := of_nat i])"
    using Cons.prems(2) by (simp add: arrays_ok_def)
  obtain vi1 where "bubble_up (bubble_count k) ((fst vi)[unat (k - 1) := logits ! i], (snd vi)[unat (k - 1) := of_nat i]) = Some vi1"
    "arrays_ok (unat k) n vi1" using bubble_up_ok[OF k1(2) a] by blast
  note vi1 = this
  have ls: "\<forall>i \<in> set is. i < length logits \<and> i < unat n" and i: "i < length logits" using Cons.prems(1) by simp_all
  have lv: "unat (k - 1) < length (fst vi)" "unat (k - 1) < length (snd vi)" using Cons.prems(2) k1(1) by (simp_all only: arrays_ok_def)
  show ?case
  proof (cases "f32_gt (logits ! i) (fst vi ! unat (k - 1))")
    case True
    then have "top_k_loop k logits vi (i # is) = top_k_loop k logits vi1 is"
      unfolding top_k_loop.simps arr_get_in[OF i] arr_get_in[OF lv(1)] arr_set_in[OF lv(1)] arr_set_in[OF lv(2)] bind.simps
      by (simp only: vi1(1) bind.simps if_True)
    then show ?thesis using Cons.IH[OF ls vi1(2)] by simp
  next
    case False
    then have "top_k_loop k logits vi (i # is) = top_k_loop k logits vi is"
      unfolding top_k_loop.simps arr_get_in[OF i] arr_get_in[OF lv(1)] bind.simps by (simp only: if_False)
    then show ?thesis using Cons.IH[OF ls Cons.prems(2)] by simp
  qed
qed simp

lemma top_k_bound:
  assumes "unat n \<le> length logits" "n \<noteq> 0"
  shows "\<exists>t. sample_top_k env logits n k temp = Some t \<and> t < n"
proof (cases "k = 0 \<or> k \<ge> n \<or> \<not> sm_malloc_vals env \<or> \<not> sm_malloc_idxs env")
  case True
  then show ?thesis using temperature_total[OF assms] sample_greedy_bound[OF assms] by (auto simp: sample_top_k_def)
next
  case False
  have "arrays_ok (unat k) n (replicate (unat k) f32_minus_inf, replicate (unat k) 0)"
    using assms(2) by (auto simp: arrays_ok_def word_gt_0)
  then obtain vals idxs where l: "top_k_loop k logits (replicate (unat k) f32_minus_inf, replicate (unat k) 0) [0..<unat n] = Some (vals, idxs)"
    "length vals = unat k" "length idxs = unat k" "\<forall>t \<in> set idxs. t < n"
  proof -
    have "\<forall>i \<in> set [0..<unat n]. i < length logits \<and> i < unat n" using assms(1) by simp
    from top_k_loop_ok[OF _ this \<open>arrays_ok _ _ _\<close>] show thesis using that False by (auto simp: arrays_ok_def)
  qed
  obtain r where r: "sample_temperature env vals k temp = Some r" "r < k"
    using temperature_total[of k vals env temp] l(2) False by auto
  then have "unat r < length idxs" using l(3) by (simp add: word_less_nat_alt)
  then show ?thesis using l r False by (simp add: sample_top_k_def fault_simps)
qed

section \<open>The entries at the end\<close>

lemma top_inv_initial: "top_inv logits k 0 (replicate k None)"
proof -
  have "count (mset (replicate k None)) (Some i) = 0" for i :: nat by (simp add: count_eq_zero_iff)
  then show ?thesis by (simp add: top_inv_def desc_except_def)
qed

lemma top_inv_all_real:
  assumes "top_inv logits k m xs" "k < m" "m = length logits" "\<forall>x \<in> set logits. candidate x"
  shows "None \<notin> set xs"
proof
  assume none: "None \<in> set xs"
  note i = assms(1)[unfolded top_inv_def]
  have "Some j \<in> set xs" if "j < m" for j
  proof (rule ccontr)
    assume "Some j \<notin> set xs"
    then have "entry_key logits (Some j) \<le> entry_key logits None" using i that none by blast
    moreover have "candidate (logits ! j)" using assms(3,4) that by simp
    ultimately show False by (simp add: entry_key_def candidate_def f32_gt_def)
  qed
  then have "Some ` {..<m} \<subseteq> set xs" by auto
  then have "card (Some ` {..<m}) \<le> card (set xs)" by (rule card_mono[OF finite_set])
  moreover have "card (Some ` {..<m}) = m" by (simp add: card_image)
  ultimately show False using card_length[of xs] i assms(2) by simp
qed

lemma top_inv_few_above:
  assumes "top_inv logits k m xs" "Some i \<in> set xs"
  shows "card {j. j < m \<and> f32_gt (logits ! j) (logits ! i)} < k"
proof -
  note inv = assms(1)[unfolded top_inv_def]
  let ?A = "{j. j < m \<and> f32_gt (logits ! j) (logits ! i)}"
  have "Some j \<in> set xs - {Some i}" if "j \<in> ?A" for j
  proof -
    have gt: "entry_key logits (Some i) < entry_key logits (Some j)" using that by (simp add: f32_gt_def entry_key_def)
    then have "Some j \<in> set xs" using inv that assms(2) by fastforce
    then show ?thesis using gt by auto
  qed
  then have "Some ` ?A \<subseteq> set xs - {Some i}" by blast
  then have "card (Some ` ?A) \<le> card (set xs - {Some i})" by (intro card_mono) simp_all
  moreover have "card (Some ` ?A) = card ?A" by (simp add: card_image)
  moreover have "card (set xs - {Some i}) < card (set xs)" using assms(2) by (intro psubset_card_mono) auto
  ultimately show ?thesis using card_length[of xs] inv by simp
qed

text \<open>Every sampling strategy returns a token of the vocabulary, for all logits, NaN included, every
  exponential function, every random number and every failing allocation, and it never reads or
  writes outside its arrays. The nucleus parameter \<open>top_p\<close> has no influence.\<close>

lemma sample_token_in_vocab:
  assumes "unat vocab_size \<le> length logits" "vocab_size \<noteq> 0"
  shows "(\<exists>t. sample_token env logits vocab_size params = Some t \<and> t < vocab_size) \<and>
    sample_token env logits vocab_size (params\<lparr>dp_top_p := p\<rparr>) = sample_token env logits vocab_size params"
  using sample_greedy_bound[OF assms] temperature_total[OF assms] top_k_bound[OF assms]
  by (simp add: sample_token_def sample_top_p_def split: kllm_sampling_method.splits)

section \<open>Properties\<close>

definition sample_sampler :: sample_env where
  "sample_sampler = \<lparr>sm_expf = (\<lambda>_. 0x3F800000), sm_rand = 0x3F000000, sm_malloc_probs = True, sm_malloc_vals = True, sm_malloc_idxs = True\<rparr>"

text \<open>C29: top-k sampling chooses among the \<open>k\<close> largest logits. When no logit is NaN or \<open>-INFINITY\<close>,
  fewer than \<open>k\<close> logits of the vocabulary are greater than the one it returns.\<close>

theorem top_k_selects:
  assumes "k \<noteq> 0" "k < vocab_size" "unat k \<le> 2 ^ 31" "length logits = unat vocab_size" "\<forall>x \<in> set logits. candidate x"
    "sm_malloc_vals env" "sm_malloc_idxs env"
  shows "\<exists>t. sample_top_k env logits vocab_size k temp = Some t \<and> t < vocab_size \<and>
    card {j. j < unat vocab_size \<and> f32_gt (logits ! j) (logits ! unat t)} < unat k"
proof -
  define n where "n = unat k - 1"
  have pos: "0 < unat k" using assms(1) by (simp add: unat_gt_0)
  have kn: "unat k = Suc n" using pos by (simp add: n_def)
  have ini: "arrays logits (replicate (unat k) None) = (replicate (unat k) f32_minus_inf, replicate (unat k) 0)"
    by (simp add: arrays_def)
  obtain xs where l: "top_k_loop k logits (arrays logits (replicate (unat k) None)) [0..<unat vocab_size] = Some (arrays logits xs)"
    and inv: "top_inv logits (unat k) (unat vocab_size) xs"
    using top_k_loop_inv[OF kn refl assms(3,5) _ assms(4)[symmetric] top_inv_initial] by auto
  have len: "length xs = unat k" using inv by (simp add: top_inv_def)
  obtain r where r: "sample_temperature env (fst (arrays logits xs)) k temp = Some r" "r < k"
    using temperature_total[of k "fst (arrays logits xs)" env temp] assms(1) len by (auto simp: arrays_def)
  then have ru: "unat r < length xs" using len by (simp add: word_less_nat_alt)
  then have mem: "xs ! unat r \<in> set xs" by simp
  have "unat k < unat vocab_size" using assms(2) by (simp add: word_less_nat_alt)
  then have "None \<notin> set xs" by (rule top_inv_all_real[OF inv _ assms(4)[symmetric] assms(5)])
  then obtain i where i: "xs ! unat r = Some i" using mem by (cases "xs ! unat r") auto
  then have lt: "i < unat vocab_size" using inv mem by (simp add: top_inv_def)
  then have "i < 2 ^ 32" using unsigned_less[of vocab_size, where ?'a = nat] by simp
  then have u: "unat (of_nat i :: u32) = i" by (simp add: unat_of_nat)
  have "sample_top_k env logits vocab_size k temp = Some (of_nat i)"
    using l r ru i assms(1,2,6,7) by (simp add: sample_top_k_def ini arrays_def fault_simps linorder_not_le[symmetric])
  moreover have "(of_nat i :: u32) < vocab_size" using lt u by (simp add: word_less_nat_alt)
  ultimately show ?thesis using top_inv_few_above[OF inv, of i] mem i u by auto
qed

theorem top_k_selects_witness:
  "\<exists>t. sample_top_k sample_sampler [0x3F800000, 0x40400000, 0x40000000] 3 2 0x3F800000 = Some t \<and> t < 3"
proof -
  have "candidate 0x3F800000" "candidate 0x40400000" "candidate 0x40000000" by code_simp+
  then show ?thesis
    using top_k_selects[of 2 3 "[0x3F800000, 0x40400000, 0x40000000]" sample_sampler "0x3F800000"]
    by (auto simp: sample_sampler_def)
qed

end
