(* ===== verification/Decode_Loop.thy ===== *)
theory Decode_Loop
  imports Sampling Batch_Scheduler
begin

text \<open>
  The decode loop (\<open>userspace/decode/decode_loop.c\<close>): dispatch, inference on the CPU with escalation to
  the GPU, sampling, emission of the token and the end-of-stream mark, until the end token, the
  requested number of tokens, a full sequence buffer or a failing inference. Iteration \<open>i\<close> takes its
  clock readings, allocation results and random number from \<open>envs i\<close>. \<open>Fault\<close> is a bad memory access,
  \<open>Hang\<close> a GPU request that does not return.
\<close>

definition MAX_SEQUENCE_LEN :: u32 where "MAX_SEQUENCE_LEN = 32768"

record kllm_decode_ctx =
  dx_infer :: "kllm_infer_cpu_ctx option"
  dx_infer_gpu :: "kllm_infer_gpu_ctx option"
  dx_dispatch :: "kllm_dispatch_ctx option"
  dx_response :: "kllm_response_ctx option"

record kllm_decode_stats =
  st_tokens_generated :: u32
  st_decode_latency_ns :: u64
  st_avg_token_latency_ns :: u64
  st_stopped_eos :: bool

text \<open>One iteration: what inference and sampling take from outside (\<open>se_now\<close> is \<open>start_ns\<close>), and the clock
  after sampling.\<close>

record decode_env =
  de_step :: step_env
  de_sample :: sample_env
  de_end :: u64

text \<open>The variables of \<open>kllm_decode_run\<close>, with the context and the process state its calls change.\<close>

record decode_state =
  dl_ctx :: kllm_decode_ctx
  dl_sequence :: "u32 list"
  dl_seq_len :: u32
  dl_generated :: u32
  dl_total_ns :: u64
  dl_result :: kllm_infer_result
  dl_os :: os_state

definition kllm_decode_create :: "bool \<Rightarrow> kllm_infer_cpu_ctx option \<Rightarrow> kllm_infer_gpu_ctx option \<Rightarrow>
    kllm_dispatch_ctx option \<Rightarrow> kllm_response_ctx option \<Rightarrow> kllm_decode_ctx option" where
  "kllm_decode_create calloc_ok infer infer_gpu dispatch response =
    (if calloc_ok then Some \<lparr>dx_infer = infer, dx_infer_gpu = infer_gpu, dx_dispatch = dispatch, dx_response = response\<rparr>
     else None)"

text \<open>The inference of an iteration. A GPU target without a GPU context leaves the loop like a failing
  inference.\<close>

definition decode_inference :: "step_env \<Rightarrow> kllm_decode_ctx \<Rightarrow> kllm_dispatch_target \<Rightarrow> u32 list \<Rightarrow> u32 \<Rightarrow> kllm_infer_result \<Rightarrow>
    (int \<times> kllm_infer_cpu_ctx option \<times> kllm_infer_result) run" where
  "decode_inference env ctx target sequence seq_len result =
    (if target = KLLM_TARGET_CPU then
       rbind (run_of (kllm_infer_cpu (se_cpu env) (dx_infer ctx) (Some sequence) seq_len result)) (\<lambda>(rc, infer', r).
         if rc < 0 \<and> dx_infer_gpu ctx \<noteq> None then
           rbind (call_infer_gpu_escalate env (dx_infer_gpu ctx) (Some sequence) seq_len r) (\<lambda>(rc, r'). Ret (rc, infer', r'))
         else Ret (rc, infer', r))
     else if dx_infer_gpu ctx = None then Ret (- 1, dx_infer ctx, result)
     else rbind (call_infer_gpu env (dx_infer_gpu ctx) (Some sequence) seq_len result) (\<lambda>(rc, r). Ret (rc, dx_infer ctx, r)))"

datatype decode_status = DContinue | DBreak | DEos

text \<open>The end of an iteration: the token is the end token, or it is emitted and appended.\<close>

definition decode_emit :: "kllm_decode_params \<Rightarrow> decode_state \<Rightarrow> u32 \<Rightarrow> (decode_status \<times> decode_state) option" where
  "decode_emit params st next_token = do {
     resp \<leftarrow> dx_response (dl_ctx st);
     if next_token = dp_eos_token_id params then do {
       (_, os) \<leftarrow> kllm_response_eos resp (dl_os st);
       Some (DEos, st\<lparr>dl_os := os\<rparr>) }
     else do {
       (_, os) \<leftarrow> kllm_response_emit_one resp (dl_os st) next_token;
       sequence \<leftarrow> arr_set (dl_sequence st) (unat (dl_seq_len st)) next_token;
       Some (DContinue, st\<lparr>dl_os := os, dl_sequence := sequence, dl_seq_len := dl_seq_len st + 1,
         dl_generated := dl_generated st + 1\<rparr>) } }"

definition decode_step :: "decode_env \<Rightarrow> kllm_decode_params \<Rightarrow> decode_state \<Rightarrow> (decode_status \<times> decode_state) run" where
  "decode_step env params st =
    rbind (run_of (dx_dispatch (dl_ctx st))) (\<lambda>d.
      let (target, d') = kllm_dispatch_decide d (dl_seq_len st) True;
          ctx = (dl_ctx st)\<lparr>dx_dispatch := Some d'\<rparr> in
      rbind (decode_inference (de_step env) ctx target (dl_sequence st) (dl_seq_len st) (dl_result st)) (\<lambda>(rc, infer', r).
        let st = st\<lparr>dl_ctx := ctx\<lparr>dx_infer := infer'\<rparr>, dl_result := r\<rparr> in
        if rc < 0 then Ret (DBreak, st)
        else
          rbind (run_of (sample_token (de_sample env) (case ir_logits r of None \<Rightarrow> [] | Some l \<Rightarrow> l) (ir_vocab_size r) params)) (\<lambda>next_token.
            run_of (decode_emit params (st\<lparr>dl_total_ns := dl_total_ns st + (de_end env - se_now (de_step env))\<rparr>) next_token))))"

lemma rbind_cong [fundef_cong]:
  "x = y \<Longrightarrow> (\<And>v. y = Ret v \<Longrightarrow> f v = g v) \<Longrightarrow> rbind x f = rbind y g"
  by (cases y) simp_all

lemma decode_emit_len: "decode_emit params st t = Some (DContinue, st') \<Longrightarrow> dl_seq_len st' = dl_seq_len st + 1"
  by (auto simp: decode_emit_def split: bind_splits if_splits)

lemma rbind_Ret: "rbind x f = Ret y \<longleftrightarrow> (\<exists>v. x = Ret v \<and> f v = Ret y)"
  by (cases x) simp_all

lemma run_of_Ret: "run_of x = Ret y \<longleftrightarrow> x = Some y"
  by (cases x) (simp_all add: run_of_def)

lemma decode_step_len: "decode_step env params st = Ret (DContinue, st') \<Longrightarrow> dl_seq_len st' = dl_seq_len st + 1"
  by (auto simp: decode_step_def Let_def case_prod_beta rbind_Ret run_of_Ret split: if_splits dest!: decode_emit_len)

text \<open>The loop: whether it stopped at the end token, and the variables afterwards.\<close>

function decode_loop :: "(nat \<Rightarrow> decode_env) \<Rightarrow> kllm_decode_params \<Rightarrow> decode_state \<Rightarrow> (bool \<times> decode_state) run" where
  "decode_loop envs params st =
    (if dl_generated st < dp_max_tokens params \<and> dl_seq_len st < MAX_SEQUENCE_LEN then
       rbind (decode_step (envs (unat (dl_generated st))) params st) (\<lambda>(status, st').
         if status = DContinue then decode_loop envs params st' else Ret (status = DEos, st'))
     else Ret (False, st))"
  by pat_completeness auto
termination
proof (relation "measure (\<lambda>(envs, params, st). 32768 - unat (dl_seq_len st))", goal_cases)
  case (2 envs params st v status st')
  have lt: "unat (dl_seq_len st) < 32768" using 2(1) by (simp add: MAX_SEQUENCE_LEN_def word_less_nat_alt)
  have "dl_seq_len st' = dl_seq_len st + 1" using 2 decode_step_len by auto
  then have "unat (dl_seq_len st') = unat (dl_seq_len st) + 1" using lt by (simp add: unat_word_ariths)
  then show ?case using lt by simp
qed simp

declare decode_loop.simps [simp del]

text \<open>After the loop the end of stream is signalled, unless the loop did it.\<close>

definition decode_finish :: "bool \<Rightarrow> decode_state \<Rightarrow> os_state option" where
  "decode_finish stopped_eos st =
    (if stopped_eos then Some (dl_os st)
     else do {
       resp \<leftarrow> dx_response (dl_ctx st);
       (_, os) \<leftarrow> kllm_response_eos resp (dl_os st);
       Some os })"

definition kllm_decode_run :: "(nat \<Rightarrow> decode_env) \<Rightarrow> bool \<Rightarrow> kllm_decode_ctx option \<Rightarrow> os_state \<Rightarrow> u32 list option \<Rightarrow> u32 \<Rightarrow>
    kllm_decode_params option \<Rightarrow> kllm_decode_stats option \<Rightarrow>
    (int \<times> kllm_decode_ctx option \<times> os_state \<times> kllm_decode_stats option) run" where
  "kllm_decode_run envs calloc_ok ctx os prompt_tokens prompt_len params stats =
    (case (ctx, prompt_tokens, params) of
       (Some c, Some prompt, Some ps) \<Rightarrow>
         if prompt_len = 0 \<or> \<not> calloc_ok then Ret (- 1, ctx, os, stats)
         else let copy_len = (if prompt_len < MAX_SEQUENCE_LEN then prompt_len else MAX_SEQUENCE_LEN) in
           rbind (run_of (memcpy_prefix (replicate (unat MAX_SEQUENCE_LEN) 0) prompt (unat copy_len))) (\<lambda>sequence.
           rbind (decode_loop envs ps \<lparr>dl_ctx = c, dl_sequence = sequence, dl_seq_len = copy_len, dl_generated = 0,
               dl_total_ns = 0, dl_result = infer_result0, dl_os = os\<rparr>) (\<lambda>(stopped_eos, st).
           rbind (run_of (decode_finish stopped_eos st)) (\<lambda>os.
           Ret (sint (dl_generated st), Some (dl_ctx st), os,
             map_option (\<lambda>s. \<lparr>st_tokens_generated = dl_generated st, st_decode_latency_ns = dl_total_ns st,
               st_avg_token_latency_ns = (if dl_generated st > 0 then dl_total_ns st div ucast (dl_generated st) else 0),
               st_stopped_eos = stopped_eos\<rparr>) stats))))
     | _ \<Rightarrow> Ret (- 1, ctx, os, stats))"

section \<open>One iteration without a GPU\<close>

text \<open>What the CPU path needs in every iteration, for sequences of up to \<open>N\<close> tokens.\<close>

definition decode_ready :: "(nat \<Rightarrow> decode_env) \<Rightarrow> kllm_infer_cpu_ctx \<Rightarrow> nat \<Rightarrow> bool" where
  "decode_ready envs c N \<longleftrightarrow> index_wf (ic_cache_idx c) \<and> elems_exact (ic_model c) < 2 ^ 32 \<and>
    (\<forall>i l. cv_now (se_cpu (de_step (envs i))) l < - 1) \<and>
    (\<forall>i. arena_resident (se_cpu (de_step (envs i))) (ic_model c) (ix_arena (ic_cache_idx c))) \<and>
    (\<forall>i. vector_head_ok (se_cpu (de_step (envs i))) (ic_model c)) \<and> N \<le> unat (tokens_per_block (ic_model c)) \<and>
    lm_head_ok c \<and> num_kv_heads (ic_model c) * head_dim (ic_model c) \<noteq> 0 \<and> ic_vocab_size c \<noteq> 0"

lemma decode_ready_cpu:
  assumes "decode_ready envs c N" "n \<noteq> 0" "unat n \<le> N" "unat n \<le> length ids"
  shows "cpu_ready (se_cpu (de_step (envs i))) c ids n"
  using assms by (simp add: decode_ready_def cpu_ready_def word_le_nat_alt)

lemma decode_ready_idx:
  assumes "decode_ready envs c N" "index_wf idx" "ix_arena idx = ix_arena (ic_cache_idx c)"
  shows "decode_ready envs (c\<lparr>ic_cache_idx := idx\<rparr>) N"
  using assms by (cases "ic_lm_head c") (simp_all add: decode_ready_def lm_head_ok_def)

text \<open>The invariant of the loop for the response context \<open>resp\<close> and the vocabulary size \<open>v\<close>.\<close>

definition decode_inv :: "(nat \<Rightarrow> decode_env) \<Rightarrow> kllm_response_ctx \<Rightarrow> u32 \<Rightarrow> nat \<Rightarrow> decode_state \<Rightarrow> bool" where
  "decode_inv envs resp v N st \<longleftrightarrow> (\<exists>c d. dx_infer (dl_ctx st) = Some c \<and> dx_dispatch (dl_ctx st) = Some d \<and>
      ic_vocab_size c = v \<and> decode_ready envs c N \<and> logits_room c (dl_result st)) \<and>
    dx_infer_gpu (dl_ctx st) = None \<and> dx_response (dl_ctx st) = Some resp \<and> resp_ready resp (dl_os st) \<and>
    length (dl_sequence st) = 32768 \<and> dl_seq_len st \<noteq> 0 \<and> unat (dl_seq_len st) \<le> 32768"

text \<open>Inference on the CPU keeps the context usable; on success the logits cover the vocabulary.\<close>

lemma decode_inference_cpu:
  assumes "decode_ready envs c N" "logits_room c result" "dx_infer ctx = Some c" "dx_infer_gpu ctx = None"
    and "n \<noteq> 0" "unat n \<le> N" "unat n \<le> length seq"
  shows "\<exists>rc c' r. decode_inference (de_step (envs i)) ctx target seq n result = Ret (rc, Some c', r) \<and>
    decode_ready envs c' N \<and> ic_vocab_size c' = ic_vocab_size c \<and> logits_room c' r \<and>
    (\<not> rc < 0 \<longrightarrow> ir_vocab_size r = ic_vocab_size c \<and> (\<exists>l. ir_logits r = Some l \<and> unat (ic_vocab_size c) \<le> length l))"
proof (cases "target = KLLM_TARGET_CPU")
  case False
  then show ?thesis using assms(1-4) by (intro exI[of _ "- 1"] exI[of _ c] exI[of _ result]) (simp add: decode_inference_def)
next
  case True
  have r: "lm_head_ok c" "num_kv_heads (ic_model c) * head_dim (ic_model c) \<noteq> 0"
    using assms(1) by (simp_all add: decode_ready_def)
  obtain rc idx r where i: "kllm_infer_cpu (se_cpu (de_step (envs i))) (Some c) (Some seq) n result = Some (rc, Some (c\<lparr>ic_cache_idx := idx\<rparr>), r)"
    "index_wf idx" "ix_arena idx = ix_arena (ic_cache_idx c)"
    "rc = - 1 \<and> r = result \<or> rc = 0 \<and> ir_vocab_size r = ic_vocab_size c \<and> (\<exists>l. ir_logits r = Some l \<and> unat (ic_vocab_size c) \<le> length l)"
    using infer_cpu_total[OF decode_ready_cpu[OF assms(1,5-7)] r(1) assms(2) r(2), of i] by blast
  have "logits_room (c\<lparr>ic_cache_idx := idx\<rparr>) r" using i(4) assms(2) by (auto simp: logits_room_def)
  moreover have "decode_inference (de_step (envs i)) ctx target seq n result = Ret (rc, Some (c\<lparr>ic_cache_idx := idx\<rparr>), r)"
    using True assms(3,4) i(1) by (simp add: decode_inference_def run_of_def)
  ultimately show ?thesis using decode_ready_idx[OF assms(1) i(2,3)] i(4)
    by (intro exI[of _ rc] exI[of _ "c\<lparr>ic_cache_idx := idx\<rparr>"] exI[of _ r]) auto
qed

text \<open>The end of an iteration for a token of the vocabulary.\<close>

definition emitted_token :: "kllm_decode_params \<Rightarrow> decode_state \<Rightarrow> u32 \<Rightarrow> decode_status \<Rightarrow> decode_state \<Rightarrow> bool" where
  "emitted_token params st t status st' \<longleftrightarrow>
    (if t = dp_eos_token_id params
     then status = DEos \<and> dl_sequence st' = dl_sequence st \<and> dl_seq_len st' = dl_seq_len st \<and> dl_generated st' = dl_generated st
     else status = DContinue \<and> dl_sequence st' = (dl_sequence st)[unat (dl_seq_len st) := t] \<and>
       unat (dl_seq_len st') = unat (dl_seq_len st) + 1 \<and> dl_generated st' = dl_generated st + 1) \<and>
    resp_contents (os_dev (dl_os st')) = resp_contents (os_dev (dl_os st)) @
      take (resp_room (os_dev (dl_os st))) [if t = dp_eos_token_id params then EOS_SENTINEL else t] \<and>
    resp_room (os_dev (dl_os st')) = resp_room (os_dev (dl_os st)) - 1"

lemma decode_emit_spec:
  assumes "decode_inv envs resp v N st" "unat (dl_seq_len st) < 32768"
  shows "\<exists>status st'. decode_emit params st t = Some (status, st') \<and> decode_inv envs resp v N st' \<and>
    emitted_token params st t status st'"
proof (cases "t = dp_eos_token_id params")
  case True
  obtain os where "kllm_response_eos resp (dl_os st) = Some (0, os)" "resp_ready resp os"
    "resp_contents (os_dev os) = resp_contents (os_dev (dl_os st)) @ take (resp_room (os_dev (dl_os st))) [EOS_SENTINEL]"
    "resp_room (os_dev os) = resp_room (os_dev (dl_os st)) - 1"
    using resp_stream.eos_ok[of resp "dl_os st"] assms(1) by (auto simp: decode_inv_def)
  then show ?thesis using True assms(1)
    by (intro exI[of _ DEos] exI[of _ "st\<lparr>dl_os := os\<rparr>"]) (simp add: decode_emit_def decode_inv_def emitted_token_def)
next
  case False
  obtain os where os: "kllm_response_emit_one resp (dl_os st) t = Some (0, os)" "resp_ready resp os"
    "resp_contents (os_dev os) = resp_contents (os_dev (dl_os st)) @ take (resp_room (os_dev (dl_os st))) [t]"
    "resp_room (os_dev os) = resp_room (os_dev (dl_os st)) - 1"
    using resp_stream.emit_one_ok[of resp "dl_os st" t] assms(1) by (auto simp: decode_inv_def)
  let ?st = "st\<lparr>dl_os := os, dl_sequence := (dl_sequence st)[unat (dl_seq_len st) := t], dl_seq_len := dl_seq_len st + 1,
    dl_generated := dl_generated st + 1\<rparr>"
  have u: "unat (dl_seq_len st + 1) = unat (dl_seq_len st) + 1" using assms(2) by (simp add: unat_word_ariths)
  then have nz: "dl_seq_len st + 1 \<noteq> 0" by (metis add_is_0 one_neq_zero unat_0)
  have "decode_emit params st t = Some (DContinue, ?st)"
    using False os(1) assms by (simp add: decode_emit_def decode_inv_def fault_simps)
  moreover have "decode_inv envs resp v N ?st" using assms os(2) u nz by (simp add: decode_inv_def)
  ultimately show ?thesis using False os(3,4) u by (intro exI[of _ DContinue] exI[of _ ?st]) (simp add: emitted_token_def)
qed

lemma decode_step_spec:
  assumes inv: "decode_inv envs resp v N st" and len: "unat (dl_seq_len st) \<le> N" "unat (dl_seq_len st) < 32768"
  shows "\<exists>status st'. decode_step (envs i) params st = Ret (status, st') \<and> decode_inv envs resp v N st' \<and>
    (status = DBreak \<and> dl_os st' = dl_os st \<and> dl_sequence st' = dl_sequence st \<and> dl_seq_len st' = dl_seq_len st \<and>
       dl_generated st' = dl_generated st \<or>
     (\<exists>t < v. emitted_token params st t status st'))"
proof -
  obtain c d where c: "dx_infer (dl_ctx st) = Some c" "dx_dispatch (dl_ctx st) = Some d" "ic_vocab_size c = v"
    "decode_ready envs c N" "logits_room c (dl_result st)"
    using inv by (auto simp: decode_inv_def)
  obtain target d' where dd: "kllm_dispatch_decide d (dl_seq_len st) True = (target, d')" by fastforce
  define ctx where "ctx = (dl_ctx st)\<lparr>dx_dispatch := Some d'\<rparr>"
  obtain rc c' r where inf: "decode_inference (de_step (envs i)) ctx target (dl_sequence st) (dl_seq_len st) (dl_result st) = Ret (rc, Some c', r)"
    "decode_ready envs c' N" "ic_vocab_size c' = v" "logits_room c' r"
    "\<not> rc < 0 \<longrightarrow> ir_vocab_size r = v \<and> (\<exists>l. ir_logits r = Some l \<and> unat v \<le> length l)"
    using decode_inference_cpu[OF c(4,5), of ctx "dl_seq_len st" "dl_sequence st" i target] inv len c(1,3)
    by (auto simp: ctx_def decode_inv_def)
  define st1 where "st1 = st\<lparr>dl_ctx := ctx\<lparr>dx_infer := Some c'\<rparr>, dl_result := r\<rparr>"
  have inv1: "decode_inv envs resp v N st1"
    using inv inf(2-4) unfolding decode_inv_def st1_def ctx_def by simp
  have step: "decode_step (envs i) params st = (if rc < 0 then Ret (DBreak, st1) else
      rbind (run_of (sample_token (de_sample (envs i)) (case ir_logits r of None \<Rightarrow> [] | Some l \<Rightarrow> l) (ir_vocab_size r) params)) (\<lambda>t.
        run_of (decode_emit params (st1\<lparr>dl_total_ns := dl_total_ns st1 + (de_end (envs i) - se_now (de_step (envs i)))\<rparr>) t)))"
    using c(2) inf(1) by (simp add: decode_step_def run_of_def dd flip: ctx_def) (simp add: st1_def)
  show ?thesis
  proof (cases "rc < 0")
    case True
    then show ?thesis using inv1 step by (intro exI[of _ DBreak] exI[of _ st1]) (simp add: st1_def)
  next
    case False
    then obtain l where l: "ir_vocab_size r = v" "ir_logits r = Some l" "unat v \<le> length l" using inf(5) by blast
    have "v \<noteq> 0" using c(3,4) by (auto simp: decode_ready_def)
    then obtain t where t: "sample_token (de_sample (envs i)) l v params = Some t" "t < v"
      using sample_token_in_vocab[OF l(3), of "de_sample (envs i)" params] by blast
    define st2 where "st2 = st1\<lparr>dl_total_ns := dl_total_ns st1 + (de_end (envs i) - se_now (de_step (envs i)))\<rparr>"
    have "decode_inv envs resp v N st2" "unat (dl_seq_len st2) < 32768"
      using inv1 len(2) by (simp_all add: decode_inv_def st2_def st1_def)
    from decode_emit_spec[OF this, of params t] obtain status st' where
      e: "decode_emit params st2 t = Some (status, st')" "decode_inv envs resp v N st'" "emitted_token params st2 t status st'" by blast
    have "emitted_token params st t status st'" using e(3) by (simp add: emitted_token_def st2_def st1_def)
    moreover have "decode_step (envs i) params st = Ret (status, st')"
      unfolding step using False l t(1) e(1) by (simp add: run_of_def st2_def[symmetric])
    ultimately show ?thesis using e(2) t(2) by blast
  qed
qed

section \<open>The loop\<close>

definition loop_result :: "kllm_decode_params \<Rightarrow> u32 \<Rightarrow> decode_state \<Rightarrow> bool \<Rightarrow> decode_state \<Rightarrow> u32 list \<Rightarrow> bool" where
  "loop_result params v st eos st' toks \<longleftrightarrow> (\<forall>t \<in> set toks. t < v \<and> t \<noteq> dp_eos_token_id params) \<and>
    unat (dl_generated st) + length toks \<le> unat (dp_max_tokens params) \<and>
    unat (dl_generated st') = unat (dl_generated st) + length toks \<and>
    take (unat (dl_seq_len st')) (dl_sequence st') = take (unat (dl_seq_len st)) (dl_sequence st) @ toks \<and>
    resp_contents (os_dev (dl_os st')) = resp_contents (os_dev (dl_os st)) @
      take (resp_room (os_dev (dl_os st))) (toks @ (if eos then [EOS_SENTINEL] else [])) \<and>
    resp_room (os_dev (dl_os st')) = resp_room (os_dev (dl_os st)) - (length toks + (if eos then 1 else 0))"

lemma loop_result_step:
  assumes e: "emitted_token params st t DContinue st1" and t: "t < v" and r: "loop_result params v st1 eos st' toks"
    and g: "unat (dl_generated st) < unat (dp_max_tokens params)"
    and l: "length (dl_sequence st) = 32768" "unat (dl_seq_len st) < 32768"
  shows "loop_result params v st eos st' (t # toks)"
proof -
  have "t \<noteq> dp_eos_token_id params" using e by (auto simp: emitted_token_def)
  note e = e[unfolded emitted_token_def if_not_P[OF this]]
  have "unat (dl_generated st) + 1 < 2 ^ 32" using g unsigned_less[of "dp_max_tokens params", where ?'a = nat] by simp
  then have u: "unat (dl_generated st1) = unat (dl_generated st) + 1" using e by (simp add: unat_word_ariths)
  have q: "take (unat (dl_seq_len st1)) (dl_sequence st1) = take (unat (dl_seq_len st)) (dl_sequence st) @ [t]"
    using e l by (simp add: take_Suc_conv_app_nth)
  show ?thesis
    using r e u q t \<open>t \<noteq> dp_eos_token_id params\<close> unfolding loop_result_def
    by (cases "resp_room (os_dev (dl_os st))") auto
qed

lemma decode_loop_spec:
  assumes "decode_inv envs resp v N st" "unat (dl_generated st) \<le> unat (dp_max_tokens params)"
    and "unat (dl_seq_len st) + (unat (dp_max_tokens params) - unat (dl_generated st)) \<le> N + 1"
  shows "\<exists>eos st' toks. decode_loop envs params st = Ret (eos, st') \<and> decode_inv envs resp v N st' \<and>
    loop_result params v st eos st' toks"
  using assms
proof (induction "32768 - unat (dl_seq_len st)" arbitrary: st rule: less_induct)
  case less
  show ?case
  proof (cases "dl_generated st < dp_max_tokens params \<and> dl_seq_len st < MAX_SEQUENCE_LEN")
    case False
    then have "decode_loop envs params st = Ret (False, st)" by (simp only: decode_loop.simps[of envs params st] if_False)
    moreover have "loop_result params v st False st []" using less.prems(2) by (simp add: loop_result_def)
    ultimately show ?thesis using less.prems(1) by blast
  next
    case True
    then have g: "unat (dl_generated st) < unat (dp_max_tokens params)" and l: "unat (dl_seq_len st) < 32768"
      by (simp_all add: word_less_nat_alt MAX_SEQUENCE_LEN_def)
    have ln: "unat (dl_seq_len st) \<le> N" using less.prems(3) g by simp
    obtain status st1 where s: "decode_step (envs (unat (dl_generated st))) params st = Ret (status, st1)" "decode_inv envs resp v N st1"
      and cs: "status = DBreak \<and> dl_os st1 = dl_os st \<and> dl_sequence st1 = dl_sequence st \<and> dl_seq_len st1 = dl_seq_len st \<and>
         dl_generated st1 = dl_generated st \<or> (\<exists>t < v. emitted_token params st t status st1)"
      using decode_step_spec[OF less.prems(1) ln l] by blast
    have loop: "decode_loop envs params st = (if status = DContinue then decode_loop envs params st1 else Ret (status = DEos, st1))"
      using True s(1) by (simp add: decode_loop.simps[of envs params st])
    show ?thesis
    proof (cases "status = DContinue")
      case cont: True
      then obtain t where t: "t < v" "emitted_token params st t DContinue st1" using cs by auto
      have d: "unat (dl_seq_len st1) = unat (dl_seq_len st) + 1" "dl_generated st1 = dl_generated st + 1"
        using t(2) by (auto simp: emitted_token_def split: if_splits)
      have "unat (dl_generated st) + 1 < 2 ^ 32" using g unsigned_less[of "dp_max_tokens params", where ?'a = nat] by simp
      then have u: "unat (dl_generated st1) = unat (dl_generated st) + 1" using d(2) by (simp add: unat_word_ariths)
      obtain eos st' toks where r: "decode_loop envs params st1 = Ret (eos, st')" "decode_inv envs resp v N st'"
        "loop_result params v st1 eos st' toks"
        using less.hyps[OF _ s(2)] d(1) u l g less.prems(3) by fastforce
      have "loop_result params v st eos st' (t # toks)"
        using less.prems(1) by (intro loop_result_step[OF t(2,1) r(3) g _ l]) (simp add: decode_inv_def)
      then show ?thesis using loop r(1,2) cont by auto
    next
      case False
      have "loop_result params v st (status = DEos) st1 []"
        using cs False g by (auto simp: loop_result_def emitted_token_def split: if_splits)
      then show ?thesis using loop False s(2) by auto
    qed
  qed
qed

lemma decode_finish_spec:
  assumes "decode_inv envs resp v N st'" "loop_result params v st eos st' toks"
  shows "\<exists>os'. decode_finish eos st' = Some os' \<and>
    resp_contents (os_dev os') = resp_contents (os_dev (dl_os st)) @ take (resp_room (os_dev (dl_os st))) (toks @ [EOS_SENTINEL])"
proof (cases eos)
  case True
  then show ?thesis using assms(2) by (simp add: decode_finish_def loop_result_def)
next
  case False
  obtain o1 where "kllm_response_eos resp (dl_os st') = Some (0, o1)"
    "resp_contents (os_dev o1) = resp_contents (os_dev (dl_os st')) @ take (resp_room (os_dev (dl_os st'))) [EOS_SENTINEL]"
    using resp_stream.eos_ok[of resp "dl_os st'"] assms(1) by (auto simp: decode_inv_def)
  then show ?thesis using False assms by (simp add: decode_finish_def loop_result_def decode_inv_def)
qed

section \<open>Properties\<close>

text \<open>C9: what a client of the decode loop sees. On a context without a GPU whose CPU path is ready for all
  sequences the run can reach, with a device descriptor for the response, \<open>kllm_decode_run\<close> never
  faults and always returns, whatever allocations fail inside inference and sampling and whatever
  the cache holds. It returns the number of generated tokens, at most \<open>max_tokens\<close>; the statistics
  say the same; every token is in the vocabulary and is neither the end token nor the
  end-of-stream mark; and the response ring receives exactly these tokens in order followed by one
  end-of-stream mark, as far as it has room.\<close>

theorem decode_run_streams:
  assumes "decode_ready envs c N" "resp_ready resp os" "prompt_len \<noteq> 0" "unat prompt_len \<le> length prompt"
    and "min (unat prompt_len) 32768 + unat (dp_max_tokens ps) \<le> N + 1"
    and "kllm_decode_create True (Some c) None (Some d) (Some resp) = Some ctx"
  shows "\<exists>toks ctx' os' stats'.
    kllm_decode_run envs True (Some ctx) os (Some prompt) prompt_len (Some ps) (Some stats) =
      Ret (int (length toks), Some ctx', os', Some stats') \<and>
    length toks \<le> unat (dp_max_tokens ps) \<and> unat (st_tokens_generated stats') = length toks \<and>
    (\<forall>t \<in> set toks. t < ic_vocab_size c \<and> t \<noteq> dp_eos_token_id ps \<and> t \<noteq> EOS_SENTINEL) \<and>
    resp_contents (os_dev os') = resp_contents (os_dev os) @ take (resp_room (os_dev os)) (toks @ [EOS_SENTINEL])"
proof -
  define n where "n = (if prompt_len < MAX_SEQUENCE_LEN then prompt_len else MAX_SEQUENCE_LEN)"
  have un: "unat n = min (unat prompt_len) 32768" and nz: "n \<noteq> 0"
    using assms(3) by (auto simp: n_def MAX_SEQUENCE_LEN_def word_less_nat_alt)
  define sq where "sq = take (unat n) prompt @ drop (unat n) (replicate 32768 (0::u32))"
  have sq: "memcpy_prefix (replicate (unat MAX_SEQUENCE_LEN) 0) prompt (unat n) = Some sq" "length sq = 32768"
    using un assms(4) by (simp_all add: memcpy_prefix_def MAX_SEQUENCE_LEN_def sq_def)
  define st0 where "st0 = \<lparr>dl_ctx = ctx, dl_sequence = sq, dl_seq_len = n, dl_generated = 0, dl_total_ns = 0,
    dl_result = infer_result0, dl_os = os\<rparr>"
  have "decode_inv envs resp (ic_vocab_size c) N st0"
    using assms(1,2,6) nz un sq(2)
    by (auto simp: decode_inv_def st0_def kllm_decode_create_def logits_room_def infer_result0_def)
  from decode_loop_spec[OF this, of ps] obtain eos st' toks where
    l: "decode_loop envs ps st0 = Ret (eos, st')" "decode_inv envs resp (ic_vocab_size c) N st'"
    "loop_result ps (ic_vocab_size c) st0 eos st' toks"
    using assms(5) un by (auto simp: st0_def)
  note r = l(3)[unfolded loop_result_def]
  obtain os' where os': "decode_finish eos st' = Some os'"
    "resp_contents (os_dev os') = resp_contents (os_dev os) @ take (resp_room (os_dev os)) (toks @ [EOS_SENTINEL])"
    using decode_finish_spec[OF l(2,3)] by (auto simp: st0_def)
  have g: "unat (dl_generated st') = length toks" using r by (simp add: st0_def)
  have "length toks \<le> 32768"
    using arg_cong[OF conjunct1[OF conjunct2[OF conjunct2[OF conjunct2[OF r]]]], of length] l(2)
    by (simp add: decode_inv_def)
  then have sint: "sint (dl_generated st') = int (length toks)" using g by (simp add: sint_small del: of_nat_unat)
  have top: "t \<noteq> EOS_SENTINEL" if "t < ic_vocab_size c" for t
    using that unsigned_less[of "ic_vocab_size c", where ?'a = nat] by (auto simp: EOS_SENTINEL_def word_less_nat_alt)
  define stats' where "stats' = \<lparr>st_tokens_generated = dl_generated st', st_decode_latency_ns = dl_total_ns st',
    st_avg_token_latency_ns = (if dl_generated st' > 0 then dl_total_ns st' div ucast (dl_generated st') else 0),
    st_stopped_eos = eos\<rparr>"
  have "kllm_decode_run envs True (Some ctx) os (Some prompt) prompt_len (Some ps) (Some stats) =
      Ret (int (length toks), Some (dl_ctx st'), os', Some stats')"
    using sq(1) l(1) os'(1) assms(3)
    by (simp add: kllm_decode_run_def run_of_def[of "Some _"] sint flip: n_def st0_def) (simp add: stats'_def)
  moreover have "length toks \<le> unat (dp_max_tokens ps)" using r by (simp add: st0_def)
  moreover have "unat (st_tokens_generated stats') = length toks" using g by (simp add: stats'_def)
  moreover have "\<forall>t \<in> set toks. t < ic_vocab_size c \<and> t \<noteq> dp_eos_token_id ps \<and> t \<noteq> EOS_SENTINEL"
    using r top by blast
  ultimately show ?thesis using os'(2) by blast
qed

definition sample_decode_env :: decode_env where
  "sample_decode_env = \<lparr>de_step = \<lparr>se_cpu = sample_cpu_env, se_gpu = \<lparr>gr_fuel = 0, gr_cmpl =
     \<lparr>wc_sequence_id = 0, wc_blocks_completed = 0, wc_blocks_failed = 0, wc_total_bytes = 0, wc_latency_ns = 0\<rparr>,
     gr_launch = (\<lambda>_ _ _. 0), gr_calloc = True\<rparr>, se_now = 5\<rparr>, de_sample = sample_sampler, de_end = 9\<rparr>"

definition sample_params :: kllm_decode_params where
  "sample_params = \<lparr>dp_max_tokens = 2, dp_eos_token_id = 1, dp_sampling = KLLM_SAMPLE_GREEDY, dp_temperature = 0x3F800000,
     dp_top_k = 2, dp_top_p = 0\<rparr>"

lemma sample_decode_ready: "decode_ready (\<lambda>_. sample_decode_env) hit_cpu_ctx 4"
proof -
  have "index_wf (ic_cache_idx hit_cpu_ctx)"
    using insert_wf[OF tiny_index_wf(1) sample_clocks(2), of key_a] by (auto simp: hit_cpu_ctx_def)
  moreover have "(5 :: u64) < - 1" by code_simp
  ultimately show ?thesis
    by (simp add: decode_ready_def sample_decode_env_def sample_cpu_env_def hit_cpu_ctx_def sample_cpu_ctx_def small_model_def
        elems_exact_def arena_resident_def block_resident_def vector_head_ok_def avx_selected_def lm_head_ok_def)
qed

theorem decode_run_streams_witness:
  "\<exists>ctx toks ctx' os' stats'.
    kllm_decode_run (\<lambda>_. sample_decode_env) True (Some ctx) (sample_os 3) (Some [7, 8]) 2 (Some sample_params)
      (Some \<lparr>st_tokens_generated = 0, st_decode_latency_ns = 0, st_avg_token_latency_ns = 0, st_stopped_eos = False\<rparr>) =
      Ret (int (length toks), Some ctx', os', Some stats') \<and> length toks \<le> 2 \<and>
    resp_contents (os_dev os') = [10, 11] @ take 1 (toks @ [EOS_SENTINEL])"
proof -
  obtain d where d: "kllm_dispatch_create True sample_dispatch = Some d" by (simp add: kllm_dispatch_create_def Let_def)
  obtain ctx where ctx: "kllm_decode_create True (Some hit_cpu_ctx) None (Some d) (Some \<lparr>resp_fd = 3\<rparr>) = Some ctx"
    by (simp add: kllm_decode_create_def)
  have "resp_ready \<lparr>resp_fd = 3\<rparr> (sample_os 3)" using sample_dev_wf by (simp add: resp_ready_def sample_os_def)
  from decode_run_streams[OF sample_decode_ready this _ _ _ ctx, of 2 "[7, 8]" sample_params]
  show ?thesis by (fastforce simp: sample_params_def sample_os_def sample_dev_contents)
qed

end
