(* ===== verification/Spec2Isabelle.thy ===== *)
theory Spec2Isabelle
  imports Token_Ring Chardev Resp_Concurrency Block_Format Arena Cache_Index Tokenizer Dispatch Response Attention Trace Wavefront
    Infer_Gpu Infer_Cpu Batch_Scheduler Sampling Decode_Loop
begin

text \<open>
  xpu-kllm serves language model prompts through a character device. A writer process hands a prompt
  to the kernel module (\<open>kernel/chardev/llm_prompt.c\<close>); an eBPF program attached to the module
  (\<open>bpf/tokenizer.bpf.c\<close>) turns its bytes into tokens and puts them into the token ring, which the
  reactor process maps and polls (\<open>userspace/include/kllm_ring_user.h\<close>). The reactor looks up cached
  attention blocks by content hash (\<open>userspace/kvcache\<close>), decides between CPU and GPU
  (\<open>userspace/compute/dispatch_policy.c\<close>), computes attention (\<open>userspace/compute\<close>), fetches blocks
  from NVMe (\<open>userspace/gpu/nvme_ep_wavefront.c\<close>), samples the next token and drives one request
  (\<open>userspace/decode/decode_loop.c\<close>) or a batch of them (\<open>userspace/reactor/batch_scheduler.c\<close>), and emits
  response tokens through an ioctl (\<open>userspace/reactor/kllm_response.c\<close>) into the response ring, from
  which readers of the device take them. A second eBPF program (\<open>bpf/kllm_trace.bpf.c\<close>) measures the latency of each stage.

  Conventions. Machine integers are words of their width, so that wrap-around is part of every
  definition. An array access outside the array is a fault: \<^const>\<open>arr_get\<close> and
  \<^const>\<open>arr_set\<close> give \<^const>\<open>None\<close>, and a theorem that an operation yields
  \<^const>\<open>Some\<close> shows that it makes no such access. Loops are recursions over their index range.
  What the code gets from the operating system or from libraries (allocation results, the clock,
  user copies, SHA-256, the exponential function, vector instructions) are arguments.

  Theories and what they show.

  \<^item> \<open>Kllm_Prelude\<close>: word types, checked array accesses, the fault simplification rules.
  \<^item> \<open>Fifo_Spec\<close>: the locale of a bounded queue, interpreted for both rings. \<open>Token_Ring\<close>
    (\<open>kllm_ring.h\<close>, \<open>kllm_ring_user.h\<close>): the ring is a bounded FIFO for every sequence of operations;
    the exact effect of produce and batch consume.
  \<^item> \<open>Chardev\<close> (\<open>llm_prompt.c\<close>): all file operations and the module's initialisation and exit. The
    response ring is a bounded FIFO; read, ioctl and mmap on every branch; initialisation releases
    what it took when it fails. \<open>Resp_Concurrency\<close>: interleavings of readers with emitting processes as a
    step relation; one reader is safe, two are not.
  \<^item> \<open>Block_Format\<close> (\<open>block_format.h\<close>): key and value tensors of all layers are disjoint and inside
    the block.
  \<^item> \<open>Slot_Spec\<close>, \<open>Arena\<close> (\<open>arena_alloc.c\<close>): the bitmap allocator refines an allocator of numbered
    slots; blocks do not overlap; creation and destruction are balanced.
  \<^item> \<open>Cache_Index\<close> (\<open>cache_index.c\<close>): no sequence of lookups, insertions and evictions leaves the
    table, frees a block twice or shares a block; lookups after insertions; the eviction order; two
    defects of the probe chains.
  \<^item> \<open>Tokenizer\<close> (\<open>tokenizer.bpf.c\<close>): the merge passes against a reference, losslessness, bounds of the
    number of tokens, rejected calls.
  \<^item> \<open>Dispatch\<close> (\<open>dispatch_policy.c\<close>): the dispatcher refines a policy on natural numbers; saturation of the
    queue.
  \<^item> \<open>Response\<close> (\<open>kllm_response.c\<close>): composed with the device, the library delivers the longest prefix
    that fits, whatever the batching.
  \<^item> \<open>Float32\<close>: binary32 arithmetic on bit patterns with rounding to nearest even. \<open>Mx\<close>
    (\<open>mx_dequant.h\<close>, the bf16 conversions of \<open>ace_attention.c\<close>): rounding, exact dequantisation, the
    fused dot product, the scale bytes of the quantiser. \<open>Attention\<close> (\<open>ace_attention.c\<close>): all paths stay
    inside the tensors, up to the head dimension where the counter of the vector path wraps; attention
    over one position.
  \<^item> \<open>Trace\<close> (\<open>kllm_trace.bpf.c\<close>): latencies of a request add up from its write to its end of stream,
    whatever other processes do; the reactor's probes never end a request of another process.
  \<^item> \<open>Wavefront\<close> (\<open>nvme_ep_wavefront.c\<close>): content addresses of the blocks a fetch asks for; the key buffer.
  \<^item> \<open>Infer_Result\<close> (\<open>infer_cpu.h\<close>): the result record and the greedy choice. \<open>Infer_Cpu\<close> (\<open>infer_cpu.c\<close>):
    inference over the cached block, composed with the index, the block layout and attention, never
    faults; only the last layer counts; sequences longer than a block read across the tensors.
  \<^item> \<open>Gpu_Runtime\<close> (\<open>p2p_dma.c\<close>, \<open>gpu_attention.c\<close>) and \<open>Infer_Gpu\<close> (\<open>infer_gpu.c\<close>): resources of the GPU
    context are balanced on every path; a GPU request never succeeds.
  \<^item> \<open>Batch_Scheduler\<close> (\<open>batch_scheduler.c\<close>): submission, queues and the iteration, composed with dispatch,
    both inference paths and the response library; a created scheduler accepts nothing.
  \<^item> \<open>Sampling\<close> and \<open>Decode_Loop\<close> (\<open>decode_loop.c\<close>): the sampling strategies, top-k against the order of the
    logits, and the decode loop composed with dispatch, inference and the response library: a run
    without a GPU returns and streams its tokens followed by one end mark.

  Bounds. Loops over index ranges need no fuel. The merge passes of the tokenizer are bounded by the
  constant of the source; the batch loop of the response library and the decode loop end because the
  number of sent tokens and the length of the sequence grow. Two loops have 32-bit counters that can
  wrap (the chunk loop of the vector path and the block loop of the quantiser): they are partial
  functions whose value \<^const>\<open>None\<close> includes not returning, and the theorems say for which sizes
  they return. The loop that waits for GPU completions has fuel and yields \<^const>\<open>Hang\<close> when it runs
  out; the theorem about it holds for every amount of fuel.

  Not modelled. The CUDA, HIP and SYCL kernels (\<open>userspace/gpu/paged_attention*\<close>) need a model of the
  devices; where the code launches them they are an argument. The weight loader and the set-up and
  polling loop of the reactor process are file, device and process I/O. The trace viewer and the
  programs under \<open>tests/\<close> only print or measure. Stack space, hence the size of the \<open>scores\<close> arrays of
  attention, is not limited. \<open>destroy\<close> functions that only free memory have no definition.
\<close>

end
